(* ===== verification/Prelude.thy ===== *)
theory Prelude
  imports Main "HOL-Library.Word"
begin

unbundle bit_operations_syntax

text \<open>
  Shared vocabulary of the development: the machine types of the 32-bit Windows build, results of
  operations that can fault, bounds-checked access to a block of memory, and the little-endian
  image of a \<^verbatim>\<open>DWORD\<close>. Nothing here models a particular function of the program.
\<close>

named_theorems fault_simps \<open>evaluation of results that may fault\<close>

named_theorems mem_simps \<open>bounds-checked reads and writes of a memory block\<close>

section \<open>Machine types\<close>

text \<open>
  \<^verbatim>\<open>BYTE\<close>, \<^verbatim>\<open>DWORD\<close> (also \<^verbatim>\<open>UINT\<close> and \<^verbatim>\<open>unsigned long\<close>) and \<^verbatim>\<open>TCHAR\<close> of the Unicode build.
\<close>

type_synonym byte = "8 word"
type_synonym dword = "32 word"
type_synonym wchar = "16 word"

text \<open>The signed reading of a \<^verbatim>\<open>DWORD\<close>, as a cast to \<^verbatim>\<open>int\<close> gives it.\<close>

lemma sint_dword: "sint (w :: dword) = (if uint w < 2 ^ 31 then uint w else uint w - 2 ^ 32)"
proof -
  have u: "0 \<le> uint w" "uint w < 2 ^ 32"
    using uint_ge_0 [of w] uint_bounded [of w] by simp_all
  have "sint w = (uint w + 2 ^ 31) mod 2 ^ 32 - 2 ^ 31"
    by (simp add: sint_uint signed_take_bit_eq_take_bit_shift take_bit_eq_mod)
  also have "(uint w + 2 ^ 31) mod 2 ^ 32
      = (if uint w < 2 ^ 31 then uint w + 2 ^ 31 else uint w - 2 ^ 31)"
  proof (cases "uint w < 2 ^ 31")
    case True
    then show ?thesis using u by simp
  next
    case False
    then have "(uint w + 2 ^ 31) mod 2 ^ 32 = (uint w - 2 ^ 31 + 2 ^ 32) mod 2 ^ 32"
      by (simp add: add.commute)
    also have "\<dots> = uint w - 2 ^ 31"
      using u False by (subst mod_add_self2) simp
    finally show ?thesis using False by simp
  qed
  finally show ?thesis by (simp split: if_splits)
qed

section \<open>Results that may fault\<close>

text \<open>
  A fault is what the C++ code does not survive: an access outside a block, a read of memory that
  was never written, a null or freed pointer, the release of what was not allocated, a failed allocation (\<^verbatim>\<open>std::bad_alloc\<close>), a loop that
  never ends. A function that can fault returns a value of the sum type.
\<close>

datatype fault = OutOfBounds | Uninitialised | NullPointer | UseAfterFree | InvalidFree | BadAlloc | Diverges

type_synonym 'a res = "fault + 'a"

definition rbind :: "'e + 'a \<Rightarrow> ('a \<Rightarrow> 'e + 'b) \<Rightarrow> 'e + 'b" where
  "rbind m f = (case m of Inl e \<Rightarrow> Inl e | Inr x \<Rightarrow> f x)"

lemma rbind_Inr [simp, fault_simps]: "rbind (Inr x) f = f x"
  by (simp add: rbind_def)

lemma rbind_Inl [simp, fault_simps]: "rbind (Inl e) f = Inl e"
  by (simp add: rbind_def)

lemma rbind_eq_Inr [fault_simps]: "rbind m f = Inr y \<longleftrightarrow> (\<exists>x. m = Inr x \<and> f x = Inr y)"
  by (cases m) (simp_all add: rbind_def)

lemma rbind_cong [fundef_cong]:
  "m = m' \<Longrightarrow> (\<And>x. m' = Inr x \<Longrightarrow> f x = f' x) \<Longrightarrow> rbind m f = rbind m' f'"
  by (cases m') (simp_all add: rbind_def)

section \<open>Numbers in words\<close>

lemma unat_of_nat_dword: "n < 2 ^ 32 \<Longrightarrow> unat (of_nat n :: dword) = n"
  by (simp add: unsigned_of_nat take_bit_nat_eq_self)

lemma unat_dword_less: "unat (w :: dword) < 2 ^ 32"
  using unsigned_less [of w] by simp

section \<open>Blocks of memory\<close>

text \<open>
  A block is the list of its cells. \<open>mem_write\<close> and \<open>mem_read\<close> are \<^verbatim>\<open>memcpy\<close> into and out of a
  block, with the access outside it written as a fault.
\<close>

definition mem_write :: "'a list \<Rightarrow> nat \<Rightarrow> 'a list \<Rightarrow> 'a list res" where
  "mem_write mem off src =
     (if off + length src \<le> length mem
      then Inr (take off mem @ src @ drop (off + length src) mem)
      else Inl OutOfBounds)"

definition mem_read :: "'a list \<Rightarrow> nat \<Rightarrow> nat \<Rightarrow> 'a list res" where
  "mem_read mem off n =
     (if off + n \<le> length mem then Inr (take n (drop off mem)) else Inl OutOfBounds)"

lemma mem_write_at [mem_simps]:
  "length old = length src \<Longrightarrow> off = length pre \<Longrightarrow>
     mem_write (pre @ old @ post) off src = Inr (pre @ src @ post)"
  by (simp add: mem_write_def)

lemma mem_write_ok [mem_simps]:
  "off + length src \<le> length mem \<Longrightarrow>
     mem_write mem off src = Inr (take off mem @ src @ drop (off + length src) mem)"
  by (simp add: mem_write_def)

lemma mem_write_fault [mem_simps]:
  "length mem < off + length src \<Longrightarrow> mem_write mem off src = Inl OutOfBounds"
  by (simp add: mem_write_def)

text \<open>Filling a block from the left: each write lands right after the part written so far.\<close>

lemma mem_write_next [mem_simps]:
  "off = length pre \<Longrightarrow> off + length src \<le> length mem \<Longrightarrow>
     mem_write (pre @ drop off mem) off src = Inr ((pre @ src) @ drop (off + length src) mem)"
  by (simp add: mem_write_def add.commute)

lemma mem_write_length:
  "mem_write mem off src = Inr mem' \<Longrightarrow> length mem' = length mem"
  by (auto simp: mem_write_def split: if_splits)

lemma mem_read_ok [mem_simps]:
  "off + n \<le> length mem \<Longrightarrow> mem_read mem off n = Inr (take n (drop off mem))"
  by (simp add: mem_read_def)

lemma mem_read_fault [mem_simps]:
  "length mem < off + n \<Longrightarrow> mem_read mem off n = Inl OutOfBounds"
  by (simp add: mem_read_def)

lemma mem_read_length: "mem_read mem off n = Inr xs \<Longrightarrow> length xs = n"
  by (auto simp: mem_read_def split: if_splits)

text \<open>
  Freshly allocated memory is unreadable until it is written: a cell is \<^term>\<open>None\<close> before its first
  write. \<open>cells_read\<close> reads cells, faulting on an unwritten one.
\<close>

fun cells_read :: "'a option list \<Rightarrow> 'a list res" where
  "cells_read [] = Inr []"
| "cells_read (None # cs) = Inl Uninitialised"
| "cells_read (Some x # cs) = rbind (cells_read cs) (\<lambda>xs. Inr (x # xs))"

lemma cells_read_map_Some [simp]: "cells_read (map Some xs) = Inr xs"
  by (induction xs) simp_all

section \<open>Little-endian image of a DWORD\<close>

definition le32 :: "dword \<Rightarrow> byte list" where
  "le32 w = [ucast w, ucast (drop_bit 8 w), ucast (drop_bit 16 w), ucast (drop_bit 24 w)]"

definition rd32 :: "byte list \<Rightarrow> dword" where
  "rd32 bs = (case bs of
     [b0, b1, b2, b3] \<Rightarrow>
       ucast b0 OR push_bit 8 (ucast b1) OR push_bit 16 (ucast b2) OR push_bit 24 (ucast b3)
   | _ \<Rightarrow> 0)"

lemma length_le32 [simp]: "length (le32 w) = 4"
  by (simp add: le32_def)

lemma rd32_le32 [simp]: "rd32 (le32 w) = w"
proof (rule bit_word_eqI)
  fix n assume "n < LENGTH(32)"
  then have "n < 8 \<or> (8 \<le> n \<and> n < 16) \<or> (16 \<le> n \<and> n < 24) \<or> (24 \<le> n \<and> n < 32)"
    by auto
  then show "bit (rd32 (le32 w)) n \<longleftrightarrow> bit w n"
    by (auto simp: rd32_def le32_def bit_simps)
qed

lemma bit_byte_beyond: "8 \<le> n \<Longrightarrow> \<not> bit (b :: byte) n"
  using bit_imp_le_length [of b n] by auto

text \<open>The other direction: four bytes are the image of the number they spell.\<close>

lemma le32_rd32: "length bs = 4 \<Longrightarrow> le32 (rd32 bs) = bs"
proof -
  assume "length bs = 4"
  then obtain b0 b1 b2 b3 where bs: "bs = [b0, b1, b2, b3]"
    by (auto simp: numeral_eq_Suc length_Suc_conv)
  show ?thesis
    unfolding bs le32_def rd32_def
    by (auto intro!: bit_word_eqI simp: bit_simps bit_byte_beyond)
qed

section \<open>A std::map\<close>

text \<open>
  The program's \<^verbatim>\<open>std::map\<close>: the bindings in the order of their keys, as an iterator meets them.
  \<^const>\<open>map_of\<close> is \<^verbatim>\<open>find\<close>; \<open>std_put\<close> is \<^verbatim>\<open>m[k] = v\<close>; \<open>std_erase\<close> is \<^verbatim>\<open>erase(k)\<close>.
\<close>

fun std_put :: "'k::linorder \<Rightarrow> 'v \<Rightarrow> ('k \<times> 'v) list \<Rightarrow> ('k \<times> 'v) list" where
  "std_put k v [] = [(k, v)]"
| "std_put k v ((k', v') # m) =
     (if k = k' then (k, v) # m else if k < k' then (k, v) # (k', v') # m
      else (k', v') # std_put k v m)"

definition std_erase :: "'k \<Rightarrow> ('k \<times> 'v) list \<Rightarrow> ('k \<times> 'v) list" where
  "std_erase k m = filter (\<lambda>e. fst e \<noteq> k) m"

definition std_map_ok :: "('k::linorder \<times> 'v) list \<Rightarrow> bool" where
  "std_map_ok m \<longleftrightarrow> sorted_wrt (<) (map fst m)"

lemma set_keys_std_put [simp]: "fst ` set (std_put k v m) = insert k (fst ` set m)"
  by (induction k v m rule: std_put.induct) auto

lemma std_put_ok: "std_map_ok m \<Longrightarrow> std_map_ok (std_put k v m)"
proof (induction k v m rule: std_put.induct)
  case (2 k v k' v' m)
  then have rest: "std_map_ok m" "\<forall>x \<in> fst ` set m. k' < x"
    by (auto simp: std_map_ok_def)
  show ?case
  proof (cases "k' < k")
    case True
    then have "std_map_ok (std_put k v m)" using "2.IH" rest(1) by auto
    moreover have "\<forall>x \<in> fst ` set (std_put k v m). k' < x"
      using rest(2) True by simp
    ultimately show ?thesis using True by (auto simp: std_map_ok_def)
  next
    case False
    with "2.prems" rest show ?thesis by (auto simp: std_map_ok_def intro: less_trans)
  qed
qed (simp add: std_map_ok_def)

lemma std_erase_ok: "std_map_ok m \<Longrightarrow> std_map_ok (std_erase k m)"
  by (induction m) (auto simp: std_map_ok_def std_erase_def)

lemma map_of_std_put [simp]:
  "std_map_ok m \<Longrightarrow> map_of (std_put k v m) x = (if x = k then Some v else map_of m x)"
proof (induction k v m rule: std_put.induct)
  case (2 k v k' v' m)
  then have "std_map_ok m" by (simp add: std_map_ok_def)
  with 2 show ?case by auto
qed simp

lemma map_of_std_erase [simp]: "map_of (std_erase k m) x = (if x = k then None else map_of m x)"
  by (induction m) (auto simp: std_erase_def)

lemma std_map_distinct: "std_map_ok m \<Longrightarrow> distinct (map fst m)"
  by (simp add: std_map_ok_def strict_sorted_iff)

lemma std_put_values:
  "map_of m k = None \<Longrightarrow> std_map_ok m \<Longrightarrow> set (map snd (std_put k v m)) = insert v (set (map snd m))
     \<and> (distinct (map snd (std_put k v m)) \<longleftrightarrow> distinct (v # map snd m))"
proof (induction k v m rule: std_put.induct)
  case (2 k v k' v' m)
  then have "std_map_ok m" by (simp add: std_map_ok_def)
  with 2 show ?case by (auto split: if_splits)
qed simp

lemma std_erase_values:
  assumes ok: "std_map_ok m" "distinct (map snd m)" and k: "map_of m k = Some v"
  shows "set (map snd (std_erase k m)) = set (map snd m) - {v}" and "distinct (map snd (std_erase k m))"
proof -
  have "fst e \<noteq> k \<longleftrightarrow> snd e \<noteq> v" if e: "e \<in> set m" for e
  proof
    assume "fst e \<noteq> k"
    moreover have "e = (k, v)" if "snd e = v"
    proof (rule inj_onD [of snd "set m"])
      show "inj_on snd (set m)" using ok(2) by (simp add: distinct_map)
    qed (use that e map_of_SomeD [OF k] in auto)
    ultimately show "snd e \<noteq> v" by (metis fst_conv)
  next
    assume "snd e \<noteq> v"
    then show "fst e \<noteq> k"
      using std_map_distinct [OF ok(1)] k e by (metis map_of_is_SomeI option.inject prod.collapse)
  qed
  then have "std_erase k m = filter (\<lambda>e. snd e \<noteq> v) m"
    unfolding std_erase_def by (intro filter_cong refl) blast
  then have vals: "map snd (std_erase k m) = filter (\<lambda>x. x \<noteq> v) (map snd m)"
    by (simp add: filter_map comp_def)
  show "set (map snd (std_erase k m)) = set (map snd m) - {v}"
    unfolding vals by auto
  show "distinct (map snd (std_erase k m))"
    unfolding vals using ok(2) by (rule distinct_filter)
qed

end
