(* ===== verification/Packet.thy ===== *)
theory Packet
  imports Prelude
begin

text \<open>
  The wire format of \<^verbatim>\<open>CTcpServer\<close>: \<open>PrepareSendBuf\<close> (write a packet) and \<open>GetPacketLen\<close>
  (read the length out of a header), in the build without \<^verbatim>\<open>REV_UNICODE\<close>, which no project file
  defines. \<open>packet\<close> is the format the comment over \<^verbatim>\<open>PrepareSendBuf\<close> describes: \<^verbatim>\<open>S:\<close>, a parameter,
  the total length, the data, a check sum, \<^verbatim>\<open>E\<close>.
\<close>

section \<open>The program's functions\<close>

text \<open>
  \<^verbatim>\<open>pBuf\<close> and \<^verbatim>\<open>nLen\<close> are one list. The result is an \<^verbatim>\<open>int\<close>: \<open>-1\<close> is the code's \<^verbatim>\<open>0xffffffff\<close>, and a
  \<^verbatim>\<open>DWORD\<close> of \<open>2 ^ 31\<close> or more comes out negative.
\<close>

definition GetPacketLen :: "byte list \<Rightarrow> int" where
  "GetPacketLen pBuf =
     (if length pBuf \<le> 10 then -1
      else if pBuf ! 0 = 83 \<and> pBuf ! 1 = 58
      then (let pLen = rd32 (take 4 (drop 6 pBuf))
            in if 15 \<le> pLen then sint pLen else -1)
      else -1)"

text \<open>The summing loop: every byte before the check sum is added into a \<^verbatim>\<open>DWORD\<close>.\<close>

fun nSum_loop :: "dword \<Rightarrow> byte list \<Rightarrow> dword" where
  "nSum_loop nSum [] = nSum"
| "nSum_loop nSum (b # bs) = nSum_loop (nSum + ucast b) bs"

text \<open>
  The destination is the block \<^verbatim>\<open>pBufDes\<close> points to; every store is checked against its size. The
  result is the block afterwards and the number of bytes of the packet.
\<close>

definition PrepareSendBuf :: "byte list \<Rightarrow> byte list \<Rightarrow> dword \<Rightarrow> (byte list \<times> int) res" where
  "PrepareSendBuf pBufDes pBufSrc ParamSrc =
     (let nLenSrc = length pBufSrc; nIndex = 4 * 2 + 2 in
      rbind (mem_write pBufDes 0 [83]) (\<lambda>d.
      rbind (mem_write d 1 [58]) (\<lambda>d.
      rbind (mem_write d 2 (le32 ParamSrc)) (\<lambda>d.
      rbind (mem_write d 6 (le32 (word_of_int (int nLenSrc + 15)))) (\<lambda>d.
      rbind (mem_write d nIndex pBufSrc) (\<lambda>d.
      rbind (mem_read d 0 (nIndex + nLenSrc)) (\<lambda>summed.
      let nSum = nSum_loop 0 summed in
      rbind (mem_write d (nIndex + nLenSrc) (le32 nSum)) (\<lambda>d.
      let nLast = nIndex + nLenSrc + 4 in
      rbind (mem_write d nLast [69]) (\<lambda>d. Inr (d, int nLast + 1))))))))))"

section \<open>The format\<close>

definition checksum :: "byte list \<Rightarrow> dword" where
  "checksum bs = of_nat (\<Sum>b\<leftarrow>bs. unat b)"

definition packet_head :: "dword \<Rightarrow> byte list \<Rightarrow> byte list" where
  "packet_head param data =
     [83, 58] @ le32 param @ le32 (of_nat (length data + 15)) @ data"

definition packet :: "dword \<Rightarrow> byte list \<Rightarrow> byte list" where
  "packet param data = packet_head param data @ le32 (checksum (packet_head param data)) @ [69]"

text \<open>Data that fits one packet: the length field is read back as a non-negative \<^verbatim>\<open>int\<close>.\<close>

abbreviation fits_packet :: "byte list \<Rightarrow> bool" where
  "fits_packet data \<equiv> length data + 15 < 2 ^ 31"

lemma length_packet_head [simp]: "length (packet_head param data) = length data + 10"
  by (simp add: packet_head_def)

lemma length_packet [simp]: "length (packet param data) = length data + 15"
  by (simp add: packet_def)

lemma packet_not_Nil [simp]: "packet param data \<noteq> []"
  using length_packet [of param data] by (metis add_is_0 list.size(3) zero_neq_numeral)

section \<open>Writing\<close>

lemma nSum_loop_eq: "nSum_loop s bs = s + of_nat (\<Sum>b\<leftarrow>bs. unat b)"
  by (induction bs arbitrary: s) (simp_all add: algebra_simps)

lemma nSum_loop_checksum: "nSum_loop 0 bs = checksum bs"
  by (simp add: nSum_loop_eq checksum_def)

lemma le32_length_field: "le32 (word_of_int (int n + 15)) = le32 (of_nat (n + 15))"
  by simp

lemma PrepareSendBuf_ok:
  assumes fit: "length data + 15 \<le> length des"
  shows "PrepareSendBuf des data param =
    Inr (packet param data @ drop (length data + 15) des, int (length data) + 15)"
proof -
  define f1 f2 f3 f4 where "f1 = [83 :: byte]" and "f2 = f1 @ [58]" and "f3 = f2 @ le32 param"
    and "f4 = f3 @ le32 (word_of_int (int (length data) + 15))"
  define head cs where "head = packet_head param data" and "cs = le32 (checksum head)"
  have len: "length f1 = 1" "length f2 = 2" "length f3 = 6" "length f4 = 10"
    "length head = 10 + length data" "length cs = 4"
    by (simp_all add: f1_def f2_def f3_def f4_def head_def cs_def)
  have head: "f4 @ data = head"
    by (simp add: head_def packet_head_def f1_def f2_def f3_def f4_def)
  have "mem_write des 0 [83] = Inr (f1 @ drop 1 des)"
    using fit mem_write_next [of 0 "[]" "[83]" des] by (simp add: f1_def)
  moreover have "mem_write (f1 @ drop 1 des) 1 [58] = Inr (f2 @ drop 2 des)"
    using fit len mem_write_next [of 1 f1 "[58]" des] by (simp add: f2_def numeral_2_eq_2)
  moreover have "mem_write (f2 @ drop 2 des) 2 (le32 param) = Inr (f3 @ drop 6 des)"
    using fit len mem_write_next [of 2 f2 "le32 param" des] by (simp add: f3_def)
  moreover have "mem_write (f3 @ drop 6 des) 6 (le32 (word_of_int (int (length data) + 15)))
      = Inr (f4 @ drop 10 des)"
    using fit len mem_write_next [of 6 f3 "le32 (word_of_int (int (length data) + 15))" des]
    by (simp add: f4_def)
  moreover have "mem_write (f4 @ drop 10 des) 10 data = Inr (head @ drop (10 + length data) des)"
    using fit len mem_write_next [of 10 f4 data des] by (simp add: head flip: append_assoc)
  moreover have "mem_read (head @ drop (10 + length data) des) 0 (10 + length data) = Inr head"
    using fit len by (simp add: mem_simps)
  moreover have "mem_write (head @ drop (10 + length data) des) (10 + length data) cs
      = Inr ((head @ cs) @ drop (14 + length data) des)"
    using fit len mem_write_next [of "10 + length data" head cs des] by (simp add: add.commute)
  moreover have "mem_write ((head @ cs) @ drop (14 + length data) des) (14 + length data) [69]
      = Inr (packet param data @ drop (length data + 15) des)"
    using fit len mem_write_next [of "14 + length data" "head @ cs" "[69]" des]
    by (simp add: packet_def head_def cs_def add.commute)
  ultimately show ?thesis
    by (simp add: PrepareSendBuf_def Let_def nSum_loop_checksum cs_def add.commute)
qed

text \<open>A destination that is too small faults; nothing is written silently past its end.\<close>

lemma PrepareSendBuf_fits:
  "PrepareSendBuf des data param = Inr r \<Longrightarrow> length data + 15 \<le> length des"
  by (auto simp: PrepareSendBuf_def Let_def rbind_eq_Inr mem_write_def split: if_splits)

lemma PrepareSendBuf_faults:
  "PrepareSendBuf des data param = Inl e \<Longrightarrow> e = OutOfBounds"
  by (auto simp: PrepareSendBuf_def Let_def rbind_def mem_write_def mem_read_def
      split: sum.splits if_splits)

lemma PrepareSendBuf_overflow:
  "length des < length data + 15 \<Longrightarrow> PrepareSendBuf des data param = Inl OutOfBounds"
  using PrepareSendBuf_fits PrepareSendBuf_faults
  by (metis linorder_not_less obj_sumE)

section \<open>Reading the length\<close>

lemma GetPacketLen_prefix: "10 < length xs \<Longrightarrow> GetPacketLen (xs @ ys) = GetPacketLen xs"
  by (cases "xs = []") (simp_all add: GetPacketLen_def nth_append Let_def)

lemma GetPacketLen_short: "length xs \<le> 10 \<Longrightarrow> GetPacketLen xs = -1"
  by (simp add: GetPacketLen_def)

text \<open>A header never announces fewer than the 15 bytes of an empty packet.\<close>

lemma GetPacketLen_range: "GetPacketLen xs < 0 \<or> 15 \<le> GetPacketLen xs"
proof -
  have "15 \<le> w \<Longrightarrow> sint w < 0 \<or> 15 \<le> sint w" for w :: dword
    using uint_bounded [of w] by (auto simp: sint_dword word_le_def)
  then show ?thesis
    by (simp add: GetPacketLen_def Let_def)
qed

lemma GetPacketLen_header:
  assumes "rest \<noteq> []"
  shows "GetPacketLen ([83, 58] @ le32 param @ le32 len @ rest) = (if 15 \<le> len then sint len else -1)"
proof -
  have "0 < length rest" using assms by simp
  then show ?thesis by (simp add: GetPacketLen_def Let_def)
qed

lemma sint_length_field:
  assumes "fits_packet data"
  shows "15 \<le> (of_nat (length data + 15) :: dword)"
    and "sint (of_nat (length data + 15) :: dword) = int (length data) + 15"
proof -
  have val: "uint (of_nat (length data + 15) :: dword) = int (length data) + 15"
    using assms by (simp add: unsigned_of_nat take_bit_nat_eq_self del: of_nat_add)
  then show "15 \<le> (of_nat (length data + 15) :: dword)" unfolding word_le_def by simp
  show "sint (of_nat (length data + 15) :: dword) = int (length data) + 15"
    using assms val by (simp add: sint_dword del: of_nat_add)
qed

text \<open>Only the header counts, not what follows the data.\<close>

lemma GetPacketLen_head:
  assumes "fits_packet data" and "rest \<noteq> []"
  shows "GetPacketLen (packet_head param data @ rest) = int (length data) + 15"
  using GetPacketLen_header [of "data @ rest" param "of_nat (length data + 15)"] assms
    sint_length_field [OF assms(1)]
  by (simp add: packet_head_def del: of_nat_add)

lemma GetPacketLen_packet:
  assumes "fits_packet data"
  shows "GetPacketLen (packet param data @ rest) = int (length data) + 15"
  using GetPacketLen_head [OF assms, of "le32 (checksum (packet_head param data)) @ [69] @ rest" param]
  by (simp add: packet_def)

end
