(* ===== verification/TcpStream.thy ===== *)
theory TcpStream
  imports Packet
begin

text \<open>
  The receiving side of \<^verbatim>\<open>CTcpServer\<close>: \<open>SaveData\<close> cuts the bytes of a connection, which arrive in
  pieces of any size, into packets and hands the data of each to the \<^verbatim>\<open>CSocketRecevier\<close>. The state it
  keeps between calls is the part of \<^verbatim>\<open>IO_CONTEXT\<close> made of \<^verbatim>\<open>tmpBuf\<close> (the packet being collected) and
  \<^verbatim>\<open>tmpHeadBuf\<close> (at most ten bytes, too few for a header). \<open>deframe\<close> is the specification: one
  function on the bytes received so far.
\<close>

section \<open>State\<close>

text \<open>
  \<^verbatim>\<open>tmpHeadBuf\<close> is the list of its \<^verbatim>\<open>nLen\<close> bytes. The block \<^verbatim>\<open>tmpBuf.pBuf\<close> comes from \<^verbatim>\<open>new char[]\<close>, so
  its cells hold nothing until they are written; \<^term>\<open>None\<close> is the null pointer.
\<close>

record rcv_state =
  tb_pBuf :: "byte option list option"
  tb_nDesLen :: int
  tb_nCurLen :: int
  tmpHeadBuf :: "byte list"

definition rcv_clean :: rcv_state where
  "rcv_clean = \<lparr>tb_pBuf = None, tb_nDesLen = 0, tb_nCurLen = 0, tmpHeadBuf = []\<rparr>"

text \<open>
  What \<^verbatim>\<open>Recevie\<close> is called with: the block \<^verbatim>\<open>tmp\<close> (the data and a final zero byte) and \<^verbatim>\<open>nLen\<close>, which
  is a count of wide characters, not of bytes.
\<close>

type_synonym delivery = "byte list \<times> int"

section \<open>The program's function\<close>

text \<open>
  \<open>alloc n\<close> says whether the heap can serve \<open>n\<close> bytes; a negative \<^verbatim>\<open>int\<close> as a size is more than the
  32-bit address space holds, so \<^verbatim>\<open>new\<close> throws. \<open>wide_len\<close> is Windows'
  \<^verbatim>\<open>MultiByteToWideChar(CP_UTF8, 0, tmp, -1, NULL, 0)\<close>, and \<open>has_rcv\<close> is \<^verbatim>\<open>m_pRecevier != NULL\<close>.
\<close>

definition new_array :: "(nat \<Rightarrow> bool) \<Rightarrow> int \<Rightarrow> byte option list res" where
  "new_array alloc n =
     (if 0 \<le> n \<and> alloc (nat n) then Inr (replicate (nat n) None) else Inl BadAlloc)"

text \<open>\<^verbatim>\<open>memcpy\<close> of received bytes into the block of a pointer.\<close>

definition fill_block ::
    "byte option list option \<Rightarrow> int \<Rightarrow> byte list \<Rightarrow> byte option list res" where
  "fill_block p off src =
     (case p of None \<Rightarrow> Inl NullPointer
      | Some blk \<Rightarrow> if off < 0 then Inl OutOfBounds else mem_write blk (nat off) (map Some src))"

text \<open>The data of a complete packet is copied out of the block and passed on.\<close>

definition hand_over ::
    "(nat \<Rightarrow> bool) \<Rightarrow> (byte list \<Rightarrow> int) \<Rightarrow> bool \<Rightarrow> byte option list \<Rightarrow> int \<Rightarrow> delivery list res" where
  "hand_over alloc wide_len has_rcv blk nLen =
     (let n = nLen - 15 in
      rbind (new_array alloc (n + 1)) (\<lambda>_.
      if n < 0 then Inl OutOfBounds
      else rbind (mem_read blk 10 (nat n)) (\<lambda>cells.
           rbind (cells_read cells) (\<lambda>data.
           let tmp = data @ [0]; len = wide_len tmp in
           Inr (if 0 < len \<and> has_rcv then [(tmp, len)] else [])))))"

function SaveData ::
    "(nat \<Rightarrow> bool) \<Rightarrow> (byte list \<Rightarrow> int) \<Rightarrow> bool \<Rightarrow> rcv_state \<Rightarrow> byte list
      \<Rightarrow> (rcv_state \<times> delivery list) res" where
  "SaveData alloc wide_len has_rcv pIO pBuf =
     (if tmpHeadBuf pIO \<noteq> [] then
        rbind (new_array alloc (int (length (tmpHeadBuf pIO) + length pBuf))) (\<lambda>_.
          SaveData alloc wide_len has_rcv (pIO\<lparr>tmpHeadBuf := []\<rparr>) (tmpHeadBuf pIO @ pBuf))
      else
        let nDesLeave = tb_nDesLen pIO - tb_nCurLen pIO in
        if nDesLeave = 0 then
          (if 10 < length pBuf then
             let nDesLen = GetPacketLen pBuf in
             if nDesLen \<noteq> -1 then
               rbind (new_array alloc nDesLen) (\<lambda>blk.
                 SaveData alloc wide_len has_rcv
                   (pIO\<lparr>tb_pBuf := Some blk, tb_nCurLen := 0, tb_nDesLen := nDesLen\<rparr>) pBuf)
             else Inr (pIO, [])
           else
             rbind (new_array alloc (int (length pBuf))) (\<lambda>_. Inr (pIO\<lparr>tmpHeadBuf := pBuf\<rparr>, [])))
        else if 0 < nDesLeave then
          (if nDesLeave \<le> int (length pBuf) then
             rbind (fill_block (tb_pBuf pIO) (tb_nCurLen pIO) (take (nat nDesLeave) pBuf)) (\<lambda>blk.
             rbind (hand_over alloc wide_len has_rcv blk (tb_nDesLen pIO)) (\<lambda>out.
             let pIO' = pIO\<lparr>tb_pBuf := None, tb_nCurLen := 0, tb_nDesLen := 0\<rparr> in
             if nDesLeave < int (length pBuf) then
               rbind (SaveData alloc wide_len has_rcv pIO' (drop (nat nDesLeave) pBuf)) (\<lambda>r.
                 Inr (fst r, out @ snd r))
             else Inr (pIO', out)))
           else
             rbind (fill_block (tb_pBuf pIO) (tb_nCurLen pIO) pBuf) (\<lambda>blk.
               Inr (pIO\<lparr>tb_pBuf := Some blk, tb_nCurLen := tb_nCurLen pIO + int (length pBuf)\<rparr>, [])))
        else Inr (pIO, []))"
  by pat_completeness auto

lemma new_array_size: "new_array alloc n = Inr blk \<Longrightarrow> 0 \<le> n \<and> blk = replicate (nat n) None"
  by (auto simp: new_array_def split: if_splits)

termination SaveData
proof (relation "measures [
    \<lambda>(alloc, wide_len, has_rcv, pIO, pBuf). length (tmpHeadBuf pIO) + length pBuf,
    \<lambda>(alloc, wide_len, has_rcv, pIO, pBuf). length (tmpHeadBuf pIO),
    \<lambda>(alloc, wide_len, has_rcv, pIO, pBuf). if tb_nDesLen pIO = tb_nCurLen pIO then 1 else 0]",
    goal_cases)
  case 1
  then show ?case by simp
next
  case 2
  then show ?case by simp
next
  case (3 alloc wide_len has_rcv pIO pBuf x y blk)
  then have "0 \<le> GetPacketLen pBuf"
    by (auto dest: new_array_size)
  with GetPacketLen_range [of pBuf] 3 show ?case by auto
next
  case (4 alloc wide_len has_rcv pIO pBuf)
  then show ?case by auto
qed

declare SaveData.simps [simp del]

section \<open>Specification\<close>

text \<open>
  Cutting the bytes received so far: the data of every complete packet, and the bytes still waiting
  for the rest of theirs. Eleven bytes or more that do not start with a header are dropped; a
  length field of \<open>2 ^ 31\<close> or more (other than \<open>2 ^ 32 - 1\<close>) makes the allocation throw.
\<close>

function deframe :: "byte list \<Rightarrow> (byte list list \<times> byte list) res" where
  "deframe bs =
     (if length bs \<le> 10 then Inr ([], bs)
      else let L = GetPacketLen bs in
        if L = -1 then Inr ([], [])
        else if L < 0 then Inl BadAlloc
        else if int (length bs) < L then Inr ([], bs)
        else rbind (deframe (drop (nat L) bs)) (\<lambda>r.
               Inr (take (nat L - 15) (drop 10 bs) # fst r, snd r)))"
  by pat_completeness auto
termination
proof (relation "measure length", goal_cases)
  case (2 bs L)
  with GetPacketLen_range [of bs] show ?case by auto
qed simp

declare deframe.simps [simp del]

text \<open>What \<^verbatim>\<open>Recevie\<close> is told for the data of a packet.\<close>

definition delivery_of :: "(byte list \<Rightarrow> int) \<Rightarrow> byte list \<Rightarrow> delivery" where
  "delivery_of wide_len data = (data @ [0], wide_len (data @ [0]))"

text \<open>
  The state of a connection that has \<open>r\<close> still waiting: ten bytes or fewer are in \<^verbatim>\<open>tmpHeadBuf\<close>, more
  than ten are the written part of \<^verbatim>\<open>tmpBuf\<close>, whose length their header announces.
\<close>

definition holds_pending :: "rcv_state \<Rightarrow> byte list \<Rightarrow> bool" where
  "holds_pending io r \<longleftrightarrow>
     (if length r \<le> 10 then io = rcv_clean\<lparr>tmpHeadBuf := r\<rparr>
      else int (length r) < GetPacketLen r \<and>
        io = \<lparr>tb_pBuf = Some (map Some r @ replicate (nat (GetPacketLen r) - length r) None),
              tb_nDesLen = GetPacketLen r, tb_nCurLen = int (length r), tmpHeadBuf = []\<rparr>)"

lemma holds_pending_clean: "holds_pending rcv_clean []"
  by (simp add: holds_pending_def rcv_clean_def)

section \<open>Refinement\<close>

text \<open>The inner states of a call: collecting a packet of which \<open>w\<close> is already written.\<close>

definition collecting :: "rcv_state \<Rightarrow> byte list \<Rightarrow> int \<Rightarrow> bool" where
  "collecting io w L \<longleftrightarrow>
     io = \<lparr>tb_pBuf = Some (map Some w @ replicate (nat L - length w) None),
           tb_nDesLen = L, tb_nCurLen = int (length w), tmpHeadBuf = []\<rparr>"

lemma collecting_start:
  "15 \<le> L \<Longrightarrow>
     collecting (rcv_clean\<lparr>tb_pBuf := Some (replicate (nat L) None), tb_nCurLen := 0, tb_nDesLen := L\<rparr>)
       [] L"
  by (simp add: collecting_def rcv_clean_def)

lemma fill_collecting:
  "length w + length src \<le> nat L \<Longrightarrow>
     fill_block (Some (map Some w @ replicate (nat L - length w) None)) (int (length w)) src
       = Inr (map Some (w @ src) @ replicate (nat L - length (w @ src)) None)"
  by (simp add: fill_block_def mem_write_def)

lemma hand_over_complete:
  assumes "\<forall>n. alloc n" and "\<forall>s. 0 < wide_len s" and "15 \<le> L" and "length w = nat L"
  shows "hand_over alloc wide_len True (map Some w) L
    = Inr [delivery_of wide_len (take (nat L - 15) (drop 10 w))]"
proof -
  have "mem_read (map Some w) 10 (nat (L - 15)) = Inr (map Some (take (nat L - 15) (drop 10 w)))"
    using assms(3,4) by (simp add: mem_read_def take_map drop_map nat_diff_distrib)
  then show ?thesis
    using assms by (simp add: hand_over_def new_array_def delivery_of_def Let_def)
qed

definition framed ::
    "(byte list \<Rightarrow> int) \<Rightarrow> (rcv_state \<times> delivery list) res \<Rightarrow> (byte list list \<times> byte list) res \<Rightarrow> bool"
  where
  "framed wide_len res spec \<longleftrightarrow>
     (case spec of
        Inl e \<Rightarrow> res = Inl e
      | Inr (ms, r) \<Rightarrow>
          (\<exists>io. res = Inr (io, map (delivery_of wide_len) ms) \<and> holds_pending io r))"

lemma framed_idle: "length r \<le> 10 \<Longrightarrow> framed wl (Inr (rcv_clean\<lparr>tmpHeadBuf := r\<rparr>, [])) (Inr ([], r))"
  by (simp add: framed_def holds_pending_def)

lemma framed_cons:
  "framed wl res spec \<Longrightarrow>
     framed wl (rbind res (\<lambda>r. Inr (fst r, delivery_of wl m # snd r)))
       (rbind spec (\<lambda>r. Inr (m # fst r, snd r)))"
  by (auto simp: framed_def split: sum.splits)

lemma SaveData_collecting:
  assumes env: "\<forall>n. alloc n" "\<forall>s. 0 < wide_len s"
    and io: "collecting io w L" and L: "15 \<le> L" "length w < nat L"
    and hd: "10 < length (w @ buf)" "GetPacketLen (w @ buf) = L"
    and rest: "\<And>more. length more < length (w @ buf) \<Longrightarrow>
      framed wide_len (SaveData alloc wide_len True rcv_clean more) (deframe more)"
  shows "framed wide_len (SaveData alloc wide_len True io buf) (deframe (w @ buf))"
proof (cases "L \<le> int (length (w @ buf))")
  case False
  then have spec: "deframe (w @ buf) = Inr ([], w @ buf)"
    using hd L by (simp add: deframe.simps [of "w @ buf"])
  have "SaveData alloc wide_len True io buf
      = Inr (\<lparr>tb_pBuf = Some (map Some (w @ buf) @ replicate (nat L - length (w @ buf)) None),
             tb_nDesLen = L, tb_nCurLen = int (length (w @ buf)), tmpHeadBuf = []\<rparr>, [])"
    using False L io fill_collecting [of w buf L]
    by (subst SaveData.simps) (simp add: collecting_def)
  with False hd L show ?thesis
    by (simp add: spec framed_def holds_pending_def)
next
  case True
  define k where "k = nat L - length w"
  have k: "k \<le> length buf" "length w + k = nat L" "0 < k"
    using True L by (auto simp: k_def)
  have L_w: "L - int (length w) = int k" and k_int: "int (length w) + int k = L"
    using L k by auto
  define data where "data = take (nat L - 15) (drop 10 (w @ buf))"
  have data: "take (nat L - 15) (drop 10 (w @ take k buf)) = data"
    using L k by (simp add: data_def take_drop)
  have fill: "fill_block (tb_pBuf io) (tb_nCurLen io) (take k buf) = Inr (map Some (w @ take k buf))"
    using fill_collecting [of w "take k buf" L] k io by (simp add: collecting_def)
  have hand: "hand_over alloc wide_len True (map Some (w @ take k buf)) L = Inr [delivery_of wide_len data]"
    using hand_over_complete [of alloc wide_len L "w @ take k buf"] env L k data by simp
  have clean: "io\<lparr>tb_pBuf := None, tb_nCurLen := 0, tb_nDesLen := 0\<rparr> = rcv_clean"
    using io by (simp add: collecting_def rcv_clean_def)
  have spec: "deframe (w @ buf)
      = rbind (deframe (drop k buf)) (\<lambda>r. Inr (data # fst r, snd r))"
    using True hd L by (subst deframe.simps) (simp add: data_def k_def)
  have step: "SaveData alloc wide_len True io buf =
      (if k < length buf then
         rbind (SaveData alloc wide_len True rcv_clean (drop k buf)) (\<lambda>r.
           Inr (fst r, delivery_of wide_len data # snd r))
       else Inr (rcv_clean, [delivery_of wide_len data]))"
    using io k L_w fill hand clean by (subst SaveData.simps) (simp add: collecting_def)
  show ?thesis
  proof (cases "k < length buf")
    case True
    then show ?thesis
      using framed_cons [OF rest [of "drop k buf"]] k by (simp add: step spec)
  next
    case False
    then have "deframe (drop k buf) = Inr ([], [])"
      by (simp add: deframe.simps)
    with False show ?thesis
      by (simp add: step spec framed_def holds_pending_clean)
  qed
qed

lemma SaveData_from_clean:
  assumes env: "\<forall>n. alloc n" "\<forall>s. 0 < wide_len s"
  shows "framed wide_len (SaveData alloc wide_len True rcv_clean buf) (deframe buf)"
proof (induction buf rule: length_induct)
  case (1 buf)
  show ?case
  proof (cases "length buf \<le> 10")
    case True
    then show ?thesis
      by (subst SaveData.simps)
        (simp add: deframe.simps [of buf] framed_def holds_pending_def rcv_clean_def new_array_def env)
  next
    case False
    define L where "L = GetPacketLen buf"
    consider "L = -1" | "L < -1" | "15 \<le> L"
      using GetPacketLen_range [of buf] by (force simp: L_def)
    then show ?thesis
    proof cases
      case 1
      with False show ?thesis
        by (subst SaveData.simps)
          (simp add: deframe.simps [of buf] L_def framed_def holds_pending_def rcv_clean_def)
    next
      case 2
      with False show ?thesis
        by (subst SaveData.simps)
          (simp add: deframe.simps [of buf] L_def framed_def rcv_clean_def new_array_def)
    next
      case 3
      let ?io = "rcv_clean\<lparr>tb_pBuf := Some (replicate (nat L) None), tb_nCurLen := 0, tb_nDesLen := L\<rparr>"
      from 3 False have "SaveData alloc wide_len True rcv_clean buf = SaveData alloc wide_len True ?io buf"
        by (subst SaveData.simps) (simp add: L_def rcv_clean_def new_array_def env Let_def)
      moreover have "framed wide_len (SaveData alloc wide_len True ?io buf) (deframe ([] @ buf))"
        by (rule SaveData_collecting [OF env collecting_start [OF 3] 3])
          (use 3 False 1 in \<open>auto simp: L_def\<close>)
      ultimately show ?thesis by simp
    qed
  qed
qed

text \<open>
  The refinement: a call of \<^verbatim>\<open>SaveData\<close> on a connection that has \<open>r\<close> waiting does what \<open>deframe\<close>
  does on \<open>r\<close> and the new bytes, whatever the bytes are.
\<close>

lemma SaveData_framed:
  assumes env: "\<forall>n. alloc n" "\<forall>s. 0 < wide_len s" and io: "holds_pending io r"
  shows "framed wide_len (SaveData alloc wide_len True io buf) (deframe (r @ buf))"
proof (cases "length r \<le> 10")
  case True
  with io have io: "io = rcv_clean\<lparr>tmpHeadBuf := r\<rparr>"
    by (simp add: holds_pending_def)
  have clean: "rcv_clean\<lparr>tmpHeadBuf := []\<rparr> = rcv_clean"
    by (simp add: rcv_clean_def)
  show ?thesis
  proof (cases "r = []")
    case True
    then show ?thesis using SaveData_from_clean [OF env] io clean by simp
  next
    case False
    then have "SaveData alloc wide_len True io buf = SaveData alloc wide_len True rcv_clean (r @ buf)"
      by (subst SaveData.simps) (simp add: io clean new_array_def env)
    then show ?thesis using SaveData_from_clean [OF env] by simp
  qed
next
  case False
  with io have "collecting io r (GetPacketLen r)" "int (length r) < GetPacketLen r"
    by (simp_all add: holds_pending_def collecting_def)
  then show ?thesis
    using False GetPacketLen_range [of r] by (intro SaveData_collecting [OF env] SaveData_from_clean [OF env])
      (auto simp: GetPacketLen_prefix)
qed

section \<open>A connection's stream\<close>

text \<open>The pieces of a connection, one call each, as \<^verbatim>\<open>ProcessReceive\<close> makes them.\<close>

fun receive_pieces ::
    "(nat \<Rightarrow> bool) \<Rightarrow> (byte list \<Rightarrow> int) \<Rightarrow> bool \<Rightarrow> rcv_state \<Rightarrow> byte list list
      \<Rightarrow> (rcv_state \<times> delivery list) res" where
  "receive_pieces alloc wide_len has_rcv pIO [] = Inr (pIO, [])"
| "receive_pieces alloc wide_len has_rcv pIO (p # ps) =
     rbind (SaveData alloc wide_len has_rcv pIO p) (\<lambda>r.
     rbind (receive_pieces alloc wide_len has_rcv (fst r) ps) (\<lambda>r'.
       Inr (fst r', snd r @ snd r')))"

text \<open>The bytes a sender puts on the wire for a list of messages.\<close>

definition wire :: "(dword \<times> byte list) list \<Rightarrow> byte list" where
  "wire msgs = concat (map (\<lambda>(param, data). packet param data) msgs)"

lemma wire_simps [simp]:
  "wire [] = []"
  "wire ((param, data) # msgs) = packet param data @ wire msgs"
  by (simp_all add: wire_def)

lemma GetPacketLen_wire:
  assumes "bs @ rest = wire ((param, data) # msgs)" and "fits_packet data" and "10 < length bs"
  shows "GetPacketLen bs = int (length data) + 15"
proof -
  have "GetPacketLen bs = GetPacketLen (bs @ rest)"
    using assms(3) by (simp add: GetPacketLen_prefix)
  with assms(1,2) show ?thesis by (simp add: GetPacketLen_packet)
qed

lemma deframe_head:
  assumes "fits_packet data" and "length trailer = 5"
  shows "deframe (packet_head param data @ trailer @ bs) = rbind (deframe bs) (\<lambda>r. Inr (data # fst r, snd r))"
proof -
  have "trailer @ bs \<noteq> []" using assms(2) by auto
  moreover have "take (length data) (drop 10 (packet_head param data @ trailer @ bs)) = data"
    by (simp add: packet_head_def)
  moreover have "drop (length data + 15) (packet_head param data @ trailer @ bs) = bs"
    using assms(2) by simp
  ultimately show ?thesis
    using assms
    by (subst deframe.simps) (simp add: GetPacketLen_head Let_def nat_add_distrib)
qed

lemma deframe_packet:
  assumes "fits_packet data"
  shows "deframe (packet param data @ bs) = rbind (deframe bs) (\<lambda>r. Inr (data # fst r, snd r))"
  using deframe_head [OF assms, of "le32 (checksum (packet_head param data)) @ [69]" param bs]
  by (simp add: packet_def)

lemma deframe_prefix:
  assumes "bs @ rest = wire msgs" and "\<forall>m \<in> set msgs. fits_packet (snd m)"
  shows "\<exists>got todo part. msgs = got @ todo \<and> deframe bs = Inr (map snd got, part)
           \<and> part @ rest = wire todo"
  using assms
proof (induction msgs arbitrary: bs)
  case Nil
  then show ?case by (simp add: deframe.simps)
next
  case (Cons m msgs)
  obtain param data where m: "m = (param, data)" by fastforce
  have fit: "fits_packet data" using Cons.prems m by simp
  show ?case
  proof (cases "10 < length bs \<and> length data + 15 \<le> length bs")
    case False
    then have "deframe bs = Inr ([], bs)"
      using GetPacketLen_wire [of bs rest param data msgs] Cons.prems(1) m fit
      by (auto simp: deframe.simps [of bs])
    then show ?thesis
      using Cons.prems(1) by (intro exI [of _ "[]"] exI [of _ "m # msgs"] exI [of _ bs]) simp
  next
    case True
    define bs' where "bs' = drop (length data + 15) bs"
    have "take (length data + 15) bs = packet param data \<and> bs' @ rest = wire msgs"
      using Cons.prems(1) m True
      by (auto simp: append_eq_append_conv_if bs'_def split: if_splits)
    then have bs: "bs = packet param data @ bs'" "bs' @ rest = wire msgs"
      by (metis append_take_drop_id bs'_def, simp)
    from Cons.IH [OF bs(2)] Cons.prems(2) obtain got todo part
      where "msgs = got @ todo" "deframe bs' = Inr (map snd got, part)" "part @ rest = wire todo"
      by auto
    then show ?thesis
      using bs(1) fit m
      by (intro exI [of _ "m # got"] exI [of _ todo] exI [of _ part]) (simp add: deframe_packet)
  qed
qed

text \<open>
  Any cut of the sender's bytes into pieces: the receiver is told the data of every message, once,
  in order, and is back in its first state.
\<close>

lemma receive_pieces_wire:
  assumes env: "\<forall>n. alloc n" "\<forall>s. 0 < wide_len s"
  shows "holds_pending io r \<Longrightarrow> r @ concat pieces = wire msgs \<Longrightarrow>
      \<forall>m \<in> set msgs. fits_packet (snd m) \<Longrightarrow>
      receive_pieces alloc wide_len True io pieces
        = Inr (rcv_clean, map (\<lambda>m. delivery_of wide_len (snd m)) msgs)"
proof (induction pieces arbitrary: io r msgs)
  case Nil
  have "msgs = []"
  proof (rule ccontr)
    assume "msgs \<noteq> []"
    then obtain param data ms where msgs: "msgs = (param, data) # ms"
      by (cases msgs) auto
    with Nil.prems have r: "length data + 15 \<le> length r"
      by (metis append_Nil2 concat.simps(1) length_append length_packet le_add1 wire_simps(2))
    have "GetPacketLen r = int (length data) + 15"
      using GetPacketLen_wire [of r "[]" param data ms] Nil.prems msgs r by simp
    with r Nil.prems(1) show False
      by (simp add: holds_pending_def split: if_splits)
  qed
  with Nil.prems show ?case
    by (simp add: holds_pending_def rcv_clean_def)
next
  case (Cons p ps)
  obtain got todo part where split: "msgs = got @ todo" "deframe (r @ p) = Inr (map snd got, part)"
      "part @ concat ps = wire todo"
    using deframe_prefix [of "r @ p" "concat ps" msgs] Cons.prems by auto
  from SaveData_framed [OF env Cons.prems(1), where buf = p] split(2) obtain io'
    where io': "SaveData alloc wide_len True io p
        = Inr (io', map (delivery_of wide_len) (map snd got))" "holds_pending io' part"
    by (auto simp: framed_def)
  have "receive_pieces alloc wide_len True io' ps
      = Inr (rcv_clean, map (\<lambda>m. delivery_of wide_len (snd m)) todo)"
    using Cons.IH [OF io'(2) split(3)] Cons.prems(3) split(1) by simp
  with io'(1) split(1) show ?case by simp
qed

section \<open>Arbitrary input\<close>

text \<open>Whatever arrives, the only fault is an allocation that fails.\<close>

lemma deframe_faults: "deframe bs = Inl e \<Longrightarrow> e = BadAlloc"
proof (induction bs rule: deframe.induct)
  case (1 bs)
  from "1.prems" "1.IH" show ?case
    by (auto simp: deframe.simps [of bs] Let_def rbind_def split: if_splits sum.splits)
qed

lemma receive_pieces_faults:
  assumes env: "\<forall>n. alloc n" "\<forall>s. 0 < wide_len s"
  shows "holds_pending io r \<Longrightarrow>
      receive_pieces alloc wide_len True io pieces = Inl e \<Longrightarrow> e = BadAlloc"
proof (induction pieces arbitrary: io r)
  case (Cons p ps)
  note step = SaveData_framed [OF env Cons.prems(1), where buf = p]
  show ?case
  proof (cases "deframe (r @ p)")
    case (Inl e')
    with step Cons.prems(2) deframe_faults [OF Inl] show ?thesis by (simp add: framed_def)
  next
    case (Inr res)
    with step obtain io' out where io': "SaveData alloc wide_len True io p = Inr (io', out)"
        "holds_pending io' (snd res)"
      by (auto simp: framed_def split: prod.splits)
    then have "receive_pieces alloc wide_len True io' ps = Inl e"
      using Cons.prems(2) by (auto simp: rbind_def split: sum.splits)
    with io'(2) show ?thesis by (rule Cons.IH)
  qed
qed simp

end
