(* ===== verification/Recycler.thy ===== *)
theory Recycler
  imports Prelude
begin

text \<open>
  A contract two components share: a pool that lends elements. \<open>take_one\<close> hands out an element
  that nobody uses, \<open>give_back\<close> returns one. What its clients rely on is proved once: whatever the
  order of requests and returns, nothing faults and two holders never have the same element.
\<close>

datatype ('q, 'a) pool_op = Take 'q | Give 'a

text \<open>
  A run of requests and returns, with the list of elements held. A client returns only what it holds.
\<close>

fun pool_run ::
    "('q \<Rightarrow> 's \<Rightarrow> ('a \<times> 's) res) \<Rightarrow> ('a \<Rightarrow> 's \<Rightarrow> 's res) \<Rightarrow> ('q, 'a) pool_op list \<Rightarrow> 's \<times> 'a list
      \<Rightarrow> ('s \<times> 'a list) res"
  where
  "pool_run take_one give_back [] (s, held) = Inr (s, held)"
| "pool_run take_one give_back (Take q # ops) (s, held) =
     rbind (take_one q s) (\<lambda>(a, s'). pool_run take_one give_back ops (s', a # held))"
| "pool_run take_one give_back (Give a # ops) (s, held) =
     (if a \<in> set held
      then rbind (give_back a s) (\<lambda>s. pool_run take_one give_back ops (s, remove1 a held))
      else pool_run take_one give_back ops (s, held))"

locale recycler =
  fixes inv :: "'s \<Rightarrow> bool"
    and used :: "'s \<Rightarrow> 'a set"
    and served :: "'q \<Rightarrow> bool"
    and take_one :: "'q \<Rightarrow> 's \<Rightarrow> ('a \<times> 's) res"
    and give_back :: "'a \<Rightarrow> 's \<Rightarrow> 's res"
  assumes take_law: "inv s \<Longrightarrow> served q \<Longrightarrow>
      \<exists>a s'. take_one q s = Inr (a, s') \<and> inv s' \<and> a \<notin> used s \<and> used s' = insert a (used s)"
    and give_law: "inv s \<Longrightarrow> a \<in> used s \<Longrightarrow>
      \<exists>s'. give_back a s = Inr s' \<and> inv s' \<and> used s' = used s - {a}"
begin

lemma run_exclusive:
  "inv s \<Longrightarrow> distinct held \<Longrightarrow> set held \<subseteq> used s \<Longrightarrow> \<forall>q. Take q \<in> set ops \<longrightarrow> served q \<Longrightarrow>
     \<exists>s' held'. pool_run take_one give_back ops (s, held) = Inr (s', held')
       \<and> inv s' \<and> distinct held' \<and> set held' \<subseteq> used s'"
proof (induction ops arbitrary: s held)
  case (Cons op ops)
  show ?case
  proof (cases op)
    case (Take q)
    from take_law [OF Cons.prems(1), of q] Cons.prems(4) Take obtain a t
      where t: "take_one q s = Inr (a, t)" "inv t" "a \<notin> used s" "used t = insert a (used s)" by auto
    have "\<exists>s' held'. pool_run take_one give_back ops (t, a # held) = Inr (s', held')
        \<and> inv s' \<and> distinct held' \<and> set held' \<subseteq> used s'"
      by (rule Cons.IH) (use Cons.prems t in auto)
    with Take t(1) show ?thesis by simp
  next
    case (Give a)
    show ?thesis
    proof (cases "a \<in> set held")
      case True
      then have "a \<in> used s" using Cons.prems(3) by auto
      from give_law [OF Cons.prems(1) this] obtain t
        where t: "give_back a s = Inr t" "inv t" "used t = used s - {a}" by auto
      have "\<exists>s' held'. pool_run take_one give_back ops (t, remove1 a held) = Inr (s', held')
          \<and> inv s' \<and> distinct held' \<and> set held' \<subseteq> used s'"
        by (rule Cons.IH) (use Cons.prems t in auto)
      with Give True t(1) show ?thesis by simp
    next
      case False
      with Cons Give show ?thesis by simp
    qed
  qed
qed simp

end

end
