(* ===== verification/TcpContext.thy ===== *)
theory TcpContext
  imports TcpStream Recycler
begin

text \<open>
  The contexts of \<^verbatim>\<open>CTcpServer\<close>: one \<^verbatim>\<open>SOCKET_CONTEXT\<close> per client, one \<^verbatim>\<open>IO_CONTEXT\<close> per overlapped
  operation, both recycled through free lists. The state of a server is a record over two stores of
  contexts, so that a context has an address and a stale pointer is visible. The invariant says
  that no context is in two places at once.
\<close>

section \<open>Data\<close>

type_synonym sock = dword

definition INVALID_SOCKET :: sock where
  "INVALID_SOCKET = -1"

definition MAX_BUFFER :: nat where
  "MAX_BUFFER = 1024"

definition MAX_ACCEPT :: nat where
  "MAX_ACCEPT = 256"

definition MAX_THREAD :: nat where
  "MAX_THREAD = 32"

datatype socket_close_flag = SCF_NULL | SCF_CLOSE | SCF_ERROR

datatype socket_operation = SO_NULL | SO_INIT | SO_ACCEPT | SO_CONNECT | SO_READ | SO_WRITE

record sockaddr_in =
  sin_family :: nat
  sin_addr :: dword
  sin_port :: "16 word"

definition any_addr :: sockaddr_in where
  "any_addr = \<lparr>sin_family = 2, sin_addr = 0, sin_port = 0\<rparr>"

record socket_context =
  sc_connID :: dword
  sc_sock :: sock
  sc_addr :: sockaddr_in

definition socket_clean :: socket_context where
  "socket_clean = \<lparr>sc_connID = 0, sc_sock = INVALID_SOCKET, sc_addr = any_addr\<rparr>"

text \<open>
  \<^verbatim>\<open>wsaBuf.buf\<close> always points to \<^verbatim>\<open>szBuf\<close>; \<^verbatim>\<open>writeBuf\<close> is never used. \<open>rcv\<close> is \<^verbatim>\<open>tmpBuf\<close> and
  \<^verbatim>\<open>tmpHeadBuf\<close>. The address of the context stands for the address of its \<^verbatim>\<open>OVERLAPPED\<close>.
\<close>

record io_context =
  io_connID :: dword
  sockAccept :: sock
  szBuf :: "byte list"
  wsa_len :: nat
  rcv :: rcv_state
  so :: socket_operation

definition io_clean :: io_context where
  "io_clean = \<lparr>io_connID = 0, sockAccept = INVALID_SOCKET, szBuf = replicate MAX_BUFFER 0,
     wsa_len = MAX_BUFFER, rcv = rcv_clean, so = SO_NULL\<rparr>"

text \<open>
  What a worker gets from the completion port: a packet the program posted itself (two numbers, no
  overlapped operation), or the end of an operation (bytes, key, context). The key of a client's
  socket is the address of its socket context, the key of the listening socket is its number, and
  \<open>_send\<close> can post a packet whose key is the address of an I/O context.
\<close>

datatype key = KeyNumber dword | KeySocket nat | KeyIO nat

datatype completion = Posted dword dword | Done dword key nat

text \<open>The calls of the operating system a run makes.\<close>

datatype os_call =
    CloseSocket sock
  | Shutdown sock int
  | SetLinger sock
  | SetReuse sock
  | IssueAccept sock sock nat
  | IssueRecv sock nat
  | IssueSend sock "byte list" nat
  | IssueDisconnect sock
  | KeepAlive sock dword dword dword
  | CreateThread
  | CloseThread
  | CloseHandlePort

type_synonym told = "dword \<times> byte list \<times> int"

record tcp_server =
  m_bRuning :: bool
  m_sockListen :: sock
  m_hCompletionPort :: bool
  m_vecWorkThread :: nat
  m_dwWorkerCount :: nat
  m_dwConnID :: dword
  m_pRecevier :: bool
  m_pfnAcceptEx :: bool
  m_pfnGetAcceptExSockaddrs :: bool
  m_pfnDisconnectEx :: bool
  m_mpClientSocket :: "(dword \<times> nat) list"
  m_lsFreeSocketContext :: "nat list"
  m_lsFreeIOContext :: "nat list"
  sc_store :: "nat \<rightharpoonup> socket_context"
  io_store :: "nat \<rightharpoonup> io_context"
  sc_next :: nat
  io_next :: nat
  sock_keys :: "sock \<rightharpoonup> key"
  in_flight :: "(nat \<times> key) list"
  exited :: nat
  port_queue :: "completion list"
  calls :: "os_call list"
  tellings :: "told list"

text \<open>The limits the constructor sets.\<close>

definition m_dwAcceptSocketCount :: nat where "m_dwAcceptSocketCount = MAX_ACCEPT"

definition m_dwMaxConnections :: nat where "m_dwMaxConnections = 10000"

definition m_dwFreeSocketPool :: nat where "m_dwFreeSocketPool = 150"

definition m_dwFreeSocketHold :: nat where "m_dwFreeSocketHold = 450"

definition m_dwFreeIOPool :: nat where "m_dwFreeIOPool = 300"

definition m_dwFreeIOHold :: nat where "m_dwFreeIOHold = 900"

definition tcp_init :: tcp_server where
  "tcp_init =
     \<lparr>m_bRuning = False, m_sockListen = INVALID_SOCKET, m_hCompletionPort = False,
      m_vecWorkThread = 0, m_dwWorkerCount = MAX_THREAD, m_dwConnID = 0, m_pRecevier = False,
      m_pfnAcceptEx = False, m_pfnGetAcceptExSockaddrs = False, m_pfnDisconnectEx = False,
      m_mpClientSocket = [], m_lsFreeSocketContext = [], m_lsFreeIOContext = [],
      sc_store = Map.empty, io_store = Map.empty, sc_next = 0, io_next = 0, sock_keys = Map.empty,
      in_flight = [], exited = 0, port_queue = [], calls = [], tellings = []\<rparr>"

definition call :: "os_call \<Rightarrow> tcp_server \<Rightarrow> tcp_server" where
  "call c st = st\<lparr>calls := calls st @ [c]\<rparr>"

text \<open>\<^verbatim>\<open>PostQueuedCompletionStatus\<close> fails when there is no port.\<close>

definition post_status :: "completion \<Rightarrow> tcp_server \<Rightarrow> tcp_server" where
  "post_status p st =
     (if m_hCompletionPort st then st\<lparr>port_queue := port_queue st @ [p]\<rparr> else st)"

text \<open>Following a pointer to a context.\<close>

definition sc_at :: "tcp_server \<Rightarrow> nat \<Rightarrow> socket_context res" where
  "sc_at st a = (case sc_store st a of None \<Rightarrow> Inl UseAfterFree | Some c \<Rightarrow> Inr c)"

definition io_at :: "tcp_server \<Rightarrow> nat \<Rightarrow> io_context res" where
  "io_at st a = (case io_store st a of None \<Rightarrow> Inl UseAfterFree | Some c \<Rightarrow> Inr c)"

definition io_put :: "nat \<Rightarrow> io_context \<Rightarrow> tcp_server \<Rightarrow> tcp_server" where
  "io_put a c st = st\<lparr>io_store := (io_store st)(a \<mapsto> c)\<rparr>"

definition sc_put :: "nat \<Rightarrow> socket_context \<Rightarrow> tcp_server \<Rightarrow> tcp_server" where
  "sc_put a c st = st\<lparr>sc_store := (sc_store st)(a \<mapsto> c)\<rparr>"

section \<open>The pools\<close>

definition FindSocketContext :: "dword \<Rightarrow> tcp_server \<Rightarrow> nat option" where
  "FindSocketContext dwConnID st = map_of (m_mpClientSocket st) dwConnID"

definition AddClientSocket :: "dword \<Rightarrow> nat \<Rightarrow> tcp_server \<Rightarrow> tcp_server" where
  "AddClientSocket dwConnID pSock st =
     st\<lparr>m_mpClientSocket := std_put dwConnID pSock (m_mpClientSocket st)\<rparr>"

text \<open>
  A free context if there is one, else a new one. The socket context gets its number and socket; the
  I/O context is handed out as it was left.
\<close>

definition GetFreeSocketContext :: "dword \<Rightarrow> sock \<Rightarrow> tcp_server \<Rightarrow> (nat \<times> tcp_server) res" where
  "GetFreeSocketContext dwConnID sockClient st =
     (case m_lsFreeSocketContext st of
        a # as \<Rightarrow>
          rbind (sc_at st a) (\<lambda>c.
            Inr (a, sc_put a (c\<lparr>sc_connID := dwConnID, sc_sock := sockClient\<rparr>)
                      (st\<lparr>m_lsFreeSocketContext := as\<rparr>)))
      | [] \<Rightarrow>
          let a = sc_next st in
          Inr (a, sc_put a (socket_clean\<lparr>sc_connID := dwConnID, sc_sock := sockClient\<rparr>)
                    (st\<lparr>sc_next := Suc a\<rparr>)))"

definition GetFreeIOContext :: "tcp_server \<Rightarrow> nat \<times> tcp_server" where
  "GetFreeIOContext st =
     (case m_lsFreeIOContext st of
        a # as \<Rightarrow> (a, st\<lparr>m_lsFreeIOContext := as\<rparr>)
      | [] \<Rightarrow> let a = io_next st in (a, io_put a io_clean (st\<lparr>io_next := Suc a\<rparr>)))"

text \<open>
  The trimming loop \<^verbatim>\<open>while (size > pool) { front; pop_front; delete }\<close>: what stays and what is deleted.
\<close>

fun trim_loop :: "nat \<Rightarrow> nat list \<Rightarrow> nat list \<times> nat list" where
  "trim_loop pool [] = ([], [])"
| "trim_loop pool (a # as) =
     (if pool < length (a # as)
      then (let (kept, deleted) = trim_loop pool as in (kept, a # deleted))
      else (a # as, []))"

text \<open>Both pools end an insertion this way: above the limit, trim to the pool's size.\<close>

definition trim_free :: "nat \<Rightarrow> nat \<Rightarrow> nat list \<Rightarrow> (nat \<rightharpoonup> 'c) \<Rightarrow> nat list \<times> (nat \<rightharpoonup> 'c)" where
  "trim_free pool hold l store =
     (if hold < length l
      then (let (kept, deleted) = trim_loop pool l in (kept, store |` (- set deleted)))
      else (l, store))"

definition AddFreeIOContext :: "nat \<Rightarrow> tcp_server \<Rightarrow> tcp_server" where
  "AddFreeIOContext pIO st =
     (let (l, store) = trim_free m_dwFreeIOPool m_dwFreeIOHold (m_lsFreeIOContext st @ [pIO])
            (io_store st)
      in st\<lparr>m_lsFreeIOContext := l, io_store := store\<rparr>)"

definition ManualCloseSocket :: "sock \<Rightarrow> int \<Rightarrow> bool \<Rightarrow> bool \<Rightarrow> tcp_server \<Rightarrow> tcp_server" where
  "ManualCloseSocket s nShutDownFlag bGraceful bReuseAddress st =
     (let st = (if \<not> bGraceful then call (SetLinger s) st else st);
          st = (if bReuseAddress then call (SetReuse s) st else st);
          st = (if nShutDownFlag \<noteq> 255 then call (Shutdown s nShutDownFlag) st else st)
      in call (CloseSocket s) st)"

definition AddFreeSocketContext :: "dword \<Rightarrow> tcp_server \<Rightarrow> tcp_server res" where
  "AddFreeSocketContext dwConnID st =
     (case FindSocketContext dwConnID st of
        None \<Rightarrow> Inr st
      | Some pSock \<Rightarrow>
          rbind (sc_at st pSock) (\<lambda>c.
          let st = ManualCloseSocket (sc_sock c) 255 True False st;
              st = st\<lparr>m_mpClientSocket := std_erase dwConnID (m_mpClientSocket st)\<rparr>;
              (l, store) = trim_free m_dwFreeSocketPool m_dwFreeSocketHold
                             (m_lsFreeSocketContext st @ [pSock]) (sc_store st)
          in Inr (st\<lparr>m_lsFreeSocketContext := l, sc_store := store\<rparr>)))"

definition RemoveClientSocket :: "nat option \<Rightarrow> int \<Rightarrow> tcp_server \<Rightarrow> tcp_server res" where
  "RemoveClientSocket pSock nShutdownFlag st =
     (case pSock of None \<Rightarrow> Inr st
      | Some a \<Rightarrow> rbind (sc_at st a) (\<lambda>c.
          Inr (ManualCloseSocket (sc_sock c) nShutdownFlag True False st)))"

section \<open>Invariants\<close>

lemma trim_loop_eq:
  "trim_loop pool l = (drop (length l - pool) l, take (length l - pool) l)"
proof (induction pool l rule: trim_loop.induct)
  case (2 pool a as)
  then show ?case by (cases "length as < pool") (auto simp: Suc_diff_le not_less)
qed simp

lemma trim_free_ok:
  assumes l: "distinct l" "set l \<subseteq> dom store" and lim: "pool \<le> hold"
    and t: "trim_free pool hold l store = (kept, store')"
  shows "distinct kept" "set kept \<subseteq> dom store'" "length kept \<le> hold"
    "dom store' - set kept = dom store - set l" "set kept \<subseteq> set l"
    "\<And>a. store' a \<noteq> None \<Longrightarrow> store' a = store a" "\<And>a. a \<notin> set l \<Longrightarrow> store' a = store a"
proof -
  define n where "n = length l - pool"
  have parts: "set l = set (take n l) \<union> set (drop n l)" "set (take n l) \<inter> set (drop n l) = {}"
    using l(1) by (metis append_take_drop_id set_append, metis append_take_drop_id distinct_append)
  have eq: "(kept, store') = (if hold < length l then (drop n l, store |` (- set (take n l))) else (l, store))"
    using t by (auto simp: trim_free_def trim_loop_eq n_def)
  show "distinct kept" "length kept \<le> hold" "set kept \<subseteq> set l"
    using eq l lim by (auto simp: n_def dest: in_set_dropD split: if_splits)
  show "set kept \<subseteq> dom store'"
    using eq l parts by (auto split: if_splits)
  show "dom store' - set kept = dom store - set l"
    using eq parts by (auto split: if_splits)
  show "store' a = store a" if "store' a \<noteq> None" for a
    using eq that by (auto simp: restrict_map_def split: if_splits)
  show "store' a = store a" if "a \<notin> set l" for a
    using eq that parts by (auto simp: restrict_map_def split: if_splits)
qed

lemma pool_limits: "m_dwFreeIOPool \<le> m_dwFreeIOHold" "m_dwFreeSocketPool \<le> m_dwFreeSocketHold"
  by (simp_all add: m_dwFreeIOPool_def m_dwFreeIOHold_def m_dwFreeSocketPool_def m_dwFreeSocketHold_def)

text \<open>The addresses of the I/O contexts that are with a worker or with the kernel.\<close>

definition io_used :: "tcp_server \<Rightarrow> nat set" where
  "io_used st = dom (io_store st) - set (m_lsFreeIOContext st)"

definition io_pool_ok :: "tcp_server \<Rightarrow> bool" where
  "io_pool_ok st \<longleftrightarrow>
     distinct (m_lsFreeIOContext st) \<and> set (m_lsFreeIOContext st) \<subseteq> dom (io_store st)
     \<and> (\<forall>a. io_next st \<le> a \<longrightarrow> io_store st a = None) \<and> length (m_lsFreeIOContext st) \<le> m_dwFreeIOHold"

definition client_addrs :: "tcp_server \<Rightarrow> nat list" where
  "client_addrs st = map snd (m_mpClientSocket st)"

text \<open>
  A socket context is free or belongs to one client, whose number it carries; the free list stays
  within its limit.
\<close>

definition sock_pool_ok :: "tcp_server \<Rightarrow> bool" where
  "sock_pool_ok st \<longleftrightarrow>
     std_map_ok (m_mpClientSocket st) \<and> distinct (m_lsFreeSocketContext st @ client_addrs st)
     \<and> set (m_lsFreeSocketContext st @ client_addrs st) \<subseteq> dom (sc_store st)
     \<and> (\<forall>a. sc_next st \<le> a \<longrightarrow> sc_store st a = None) \<and> length (m_lsFreeSocketContext st) \<le> m_dwFreeSocketHold
     \<and> (\<forall>k a. map_of (m_mpClientSocket st) k = Some a \<longrightarrow>
           (\<exists>c. sc_store st a = Some c \<and> sc_connID c = k))"

lemma sock_pool_okI:
  assumes "std_map_ok (m_mpClientSocket st)" "distinct (m_lsFreeSocketContext st @ client_addrs st)"
    "set (m_lsFreeSocketContext st @ client_addrs st) \<subseteq> dom (sc_store st)"
    "\<And>a. sc_next st \<le> a \<Longrightarrow> sc_store st a = None"
    "length (m_lsFreeSocketContext st) \<le> m_dwFreeSocketHold"
    "\<And>k a. map_of (m_mpClientSocket st) k = Some a \<Longrightarrow>
       \<exists>c. sc_store st a = Some c \<and> sc_connID c = k"
  shows "sock_pool_ok st"
  using assms unfolding sock_pool_ok_def by blast

lemma init_pools_ok: "io_pool_ok tcp_init" "sock_pool_ok tcp_init"
  by (simp_all add: io_pool_ok_def sock_pool_ok_def tcp_init_def client_addrs_def std_map_ok_def)

lemma GetFreeIOContext_ok:
  assumes "io_pool_ok st" and "GetFreeIOContext st = (a, st')"
  shows "io_pool_ok st'" and "a \<notin> io_used st" and "io_used st' = insert a (io_used st)"
    and "a \<in> dom (io_store st')"
  using assms
  by (auto simp: GetFreeIOContext_def io_pool_ok_def io_used_def io_put_def Let_def
      split: list.splits)

lemma AddFreeIOContext_ok:
  assumes ok: "io_pool_ok st" and a: "a \<in> io_used st"
  shows "io_pool_ok (AddFreeIOContext a st)"
    and "io_used (AddFreeIOContext a st) = io_used st - {a}"
proof -
  let ?l = "m_lsFreeIOContext st @ [a]"
  have l: "distinct ?l" "set ?l \<subseteq> dom (io_store st)"
    using ok a by (auto simp: io_pool_ok_def io_used_def)
  obtain kept store where t: "trim_free m_dwFreeIOPool m_dwFreeIOHold ?l (io_store st) = (kept, store)"
    by fastforce
  note trimmed = trim_free_ok [OF l pool_limits(1) t]
  show "io_pool_ok (AddFreeIOContext a st)"
    using trimmed(1-3) trimmed(6) ok by (fastforce simp: AddFreeIOContext_def t io_pool_ok_def)
  show "io_used (AddFreeIOContext a st) = io_used st - {a}"
    using trimmed(4) by (auto simp: AddFreeIOContext_def t io_used_def)
qed

text \<open>The pool of I/O contexts is a recycling pool.\<close>

interpretation io_pool: recycler io_pool_ok io_used "\<lambda>_. True" "\<lambda>_ :: unit. Inr \<circ> GetFreeIOContext"
    "\<lambda>a. Inr \<circ> AddFreeIOContext a"
proof
  fix st and q :: unit
  assume ok: "io_pool_ok st"
  obtain a st' where "GetFreeIOContext st = (a, st')" by fastforce
  with GetFreeIOContext_ok [OF ok this]
  show "\<exists>a st'. (Inr \<circ> GetFreeIOContext) st = Inr (a, st') \<and> io_pool_ok st' \<and> a \<notin> io_used st
      \<and> io_used st' = insert a (io_used st)"
    by auto
qed (auto simp: AddFreeIOContext_ok)

text \<open>The socket contexts.\<close>

lemma GetFreeSocketContext_ok:
  assumes ok: "sock_pool_ok st"
  shows "\<exists>a st'. GetFreeSocketContext k sk st = Inr (a, st') \<and> sock_pool_ok st'
    \<and> a \<notin> set (m_lsFreeSocketContext st' @ client_addrs st')
    \<and> m_mpClientSocket st' = m_mpClientSocket st
    \<and> (\<exists>c. sc_store st' a = Some c \<and> sc_connID c = k \<and> sc_sock c = sk)"
proof (cases "m_lsFreeSocketContext st")
  case Nil
  then have "sc_next st \<notin> snd ` set (m_mpClientSocket st)"
    using ok by (fastforce simp: sock_pool_ok_def client_addrs_def)
  moreover from this have other: "map_of (m_mpClientSocket st) k' \<noteq> Some (sc_next st)" for k'
    by (force dest: map_of_SomeD)
  ultimately show ?thesis using ok Nil
    by (auto simp: GetFreeSocketContext_def Let_def sc_put_def sock_pool_ok_def client_addrs_def)
next
  case (Cons a as)
  then obtain c where c: "sc_store st a = Some c"
    using ok by (auto simp: sock_pool_ok_def)
  have "a \<notin> snd ` set (m_mpClientSocket st)"
    using ok Cons by (auto simp: sock_pool_ok_def client_addrs_def)
  then have other: "map_of (m_mpClientSocket st) k' = Some a' \<Longrightarrow> a' \<noteq> a" for k' a'
    by (force dest: map_of_SomeD)
  from ok Cons c show ?thesis
    by (auto simp: GetFreeSocketContext_def sc_at_def sc_put_def sock_pool_ok_def client_addrs_def
        dest: other)
qed

text \<open>Entering a new client: the context in hand becomes the client's.\<close>

lemma AddClientSocket_ok:
  assumes ok: "sock_pool_ok st" and new: "a \<notin> set (m_lsFreeSocketContext st @ client_addrs st)"
    and c: "sc_store st a = Some c" "sc_connID c = k" and fresh: "FindSocketContext k st = None"
  shows "sock_pool_ok (AddClientSocket k a st)"
  using assms std_put_values [of "m_mpClientSocket st" k a]
  by (auto simp: AddClientSocket_def sock_pool_ok_def client_addrs_def FindSocketContext_def
      intro: std_put_ok)

text \<open>A client that goes leaves its context to the pool; one that is not known changes nothing.\<close>

lemma AddFreeSocketContext_unknown:
  "FindSocketContext k st = None \<Longrightarrow> AddFreeSocketContext k st = Inr st"
  by (simp add: AddFreeSocketContext_def)

lemma AddFreeSocketContext_known:
  assumes ok: "sock_pool_ok st" and known: "FindSocketContext k st = Some a"
  shows "\<exists>st' c. AddFreeSocketContext k st = Inr st' \<and> sock_pool_ok st' \<and> sc_store st a = Some c
    \<and> m_mpClientSocket st' = std_erase k (m_mpClientSocket st)
    \<and> calls st' = calls st @ [CloseSocket (sc_sock c)]"
proof -
  let ?l = "m_lsFreeSocketContext st @ [a]"
  have a: "a \<in> set (client_addrs st)"
    using known by (force simp: FindSocketContext_def client_addrs_def dest: map_of_SomeD)
  obtain c where c: "sc_store st a = Some c"
    using ok a by (auto simp: sock_pool_ok_def)
  have l: "distinct ?l" "set ?l \<subseteq> dom (sc_store st)"
    using ok a c by (auto simp: sock_pool_ok_def)
  obtain kept store where t: "trim_free m_dwFreeSocketPool m_dwFreeSocketHold ?l (sc_store st) = (kept, store)"
    by fastforce
  note trimmed = trim_free_ok [OF l pool_limits(2) t]
  let ?m = "std_erase k (m_mpClientSocket st)"
  have m: "std_map_ok (m_mpClientSocket st)" "distinct (map snd (m_mpClientSocket st))"
    using ok by (auto simp: sock_pool_ok_def client_addrs_def)
  note erased = std_erase_values [OF m known [unfolded FindSocketContext_def]]
  have apart: "set ?l \<inter> set (map snd ?m) = {}"
    using erased ok by (auto simp: sock_pool_ok_def client_addrs_def)
  have cont: "\<exists>c. store a' = Some c \<and> sc_connID c = k'" if "map_of ?m k' = Some a'" for k' a'
  proof -
    have "a' \<in> set (map snd ?m)" using map_of_SomeD [OF that] by force
    moreover from that have mem: "map_of (m_mpClientSocket st) k' = Some a'"
      by (simp split: if_splits)
    ultimately have "store a' = sc_store st a'" using apart by (intro trimmed(7)) auto
    with mem(1) ok show ?thesis by (auto simp: sock_pool_ok_def)
  qed
  let ?st = "st\<lparr>calls := calls st @ [CloseSocket (sc_sock c)], m_mpClientSocket := ?m,
      m_lsFreeSocketContext := kept, sc_store := store\<rparr>"
  have "sock_pool_ok ?st"
  proof (rule sock_pool_okI)
    show "std_map_ok (m_mpClientSocket ?st)" using std_erase_ok [OF m(1)] by simp
    show "distinct (m_lsFreeSocketContext ?st @ client_addrs ?st)"
      using trimmed(1,5) erased(2) apart by (auto simp: client_addrs_def)
    show "set (m_lsFreeSocketContext ?st @ client_addrs ?st) \<subseteq> dom (sc_store ?st)"
    proof
      fix x assume "x \<in> set (m_lsFreeSocketContext ?st @ client_addrs ?st)"
      then consider "x \<in> set kept" | "x \<in> set (map snd ?m)" by (auto simp: client_addrs_def)
      then show "x \<in> dom (sc_store ?st)"
      proof cases
        case 1 then show ?thesis using trimmed(2) by auto
      next
        case 2
        then have "store x = sc_store st x" using apart by (intro trimmed(7)) auto
        moreover have "x \<in> dom (sc_store st)"
          using 2 erased(1) ok by (auto simp: sock_pool_ok_def client_addrs_def)
        ultimately show ?thesis by (simp add: dom_def)
      qed
    qed
    show "sc_store ?st x = None" if "sc_next ?st \<le> x" for x
      using that ok trimmed(6) [of x] by (cases "store x") (auto simp: sock_pool_ok_def)
    show "length (m_lsFreeSocketContext ?st) \<le> m_dwFreeSocketHold" using trimmed(3) by simp
    show "\<exists>c. sc_store ?st x = Some c \<and> sc_connID c = k'"
      if "map_of (m_mpClientSocket ?st) k' = Some x" for k' x
      using cont [of k' x] that by simp
  qed
  then show ?thesis
    using known c t by (auto simp: AddFreeSocketContext_def sc_at_def ManualCloseSocket_def call_def)
qed

end
