(* ===== verification/TcpServer.thy ===== *)
theory TcpServer
  imports TcpContext
begin

text \<open>
  The operations of \<^verbatim>\<open>CTcpServer\<close>: the overlapped calls, the handlers of a completion, one pass of the
  loop of \<^verbatim>\<open>WorkerThreadProc\<close>, and the public interface. What the operating system answers in a pass
  is a record. The invariant of the server is kept by every operation that does not fault.
\<close>

section \<open>Answers of the operating system\<close>

text \<open>An overlapped call returns at once, or fails with the code of \<^verbatim>\<open>WSAGetLastError\<close>.\<close>

datatype io_answer = Accepted | Failed dword

definition WSA_IO_PENDING :: dword where "WSA_IO_PENDING = 997"

definition ERROR_OPERATION_ABORTED :: dword where "ERROR_OPERATION_ABORTED = 995"

definition WSAENOTSOCK :: dword where "WSAENOTSOCK = 10038"

definition IOCP_SI_EXIT :: dword where "IOCP_SI_EXIT = 0"

definition IOCP_SI_ACCEPT :: dword where "IOCP_SI_ACCEPT = 0xFFFFFFF1"

definition IOCP_SI_DISCONNECT :: dword where "IOCP_SI_DISCONNECT = 0xFFFFFFF3"

text \<open>
  For one pass: the result of \<^verbatim>\<open>GetQueuedCompletionStatus\<close>, the error and byte count of
  \<^verbatim>\<open>WSAGetOverlappedResult\<close>, the new socket of \<^verbatim>\<open>WSASocket\<close>, the answers of \<^verbatim>\<open>AcceptEx\<close> and \<^verbatim>\<open>WSARecv\<close>,
  whether the socket could be bound to the port, the peer's address, the heap and
  \<^verbatim>\<open>MultiByteToWideChar\<close>.
\<close>

record os_answers =
  aw_result :: bool
  aw_error :: dword
  aw_bytes :: dword
  aw_socket :: sock
  aw_accept :: io_answer
  aw_recv :: io_answer
  aw_assoc :: bool
  aw_remote :: sockaddr_in
  aw_alloc :: "nat \<Rightarrow> bool"
  aw_wide_len :: "byte list \<Rightarrow> int"

section \<open>Overlapped calls\<close>

definition io_status :: "io_answer \<Rightarrow> dword" where
  "io_status ans =
     (case ans of Accepted \<Rightarrow> 0 | Failed e \<Rightarrow> if e = WSA_IO_PENDING then 0 else e)"

text \<open>
  From a successful call until its completion the context belongs to the kernel, which will return it
  with the key the socket had.
\<close>

definition issue :: "nat \<Rightarrow> sock \<Rightarrow> tcp_server \<Rightarrow> tcp_server" where
  "issue a s st =
     st\<lparr>in_flight := in_flight st @
          [(a, case sock_keys st s of None \<Rightarrow> KeyNumber 0 | Some k \<Rightarrow> k)]\<rparr>"

definition PostAccept ::
    "io_answer \<Rightarrow> sock \<Rightarrow> sock \<Rightarrow> nat \<Rightarrow> tcp_server \<Rightarrow> (dword \<times> tcp_server) res" where
  "PostAccept ans sockListen sockClient pIO st =
     rbind (io_at st pIO) (\<lambda>c.
     let st = io_put pIO (c\<lparr>so := SO_ACCEPT, sockAccept := sockClient\<rparr>) st in
     if \<not> m_pfnAcceptEx st then Inl NullPointer
     else
       let st = call (IssueAccept sockListen sockClient pIO) st; result = io_status ans
       in Inr (result, if result = 0 then issue pIO sockListen st else st))"

definition PostSend :: "io_answer \<Rightarrow> nat \<Rightarrow> tcp_server \<Rightarrow> (dword \<times> tcp_server) res" where
  "PostSend ans pIO st =
     rbind (io_at st pIO) (\<lambda>c.
     let st = io_put pIO (c\<lparr>so := SO_WRITE\<rparr>) st;
         st = call (IssueSend (sockAccept c) (take (wsa_len c) (szBuf c)) pIO) st;
         result = io_status ans
     in Inr (result, if result = 0 then issue pIO (sockAccept c) st else st))"

definition PostReceive :: "io_answer \<Rightarrow> nat \<Rightarrow> tcp_server \<Rightarrow> (dword \<times> tcp_server) res" where
  "PostReceive ans pIO st =
     rbind (io_at st pIO) (\<lambda>c.
     let st = io_put pIO (c\<lparr>so := SO_READ, wsa_len := MAX_BUFFER\<rparr>) st;
         st = call (IssueRecv (sockAccept c) pIO) st;
         result = io_status ans
     in Inr (result, if result = 0 then issue pIO (sockAccept c) st else st))"

section \<open>Handlers\<close>

text \<open>
  \<^verbatim>\<open>InterlockedIncrement(&m_dwConnID)\<close>, once more when it wraps to 0.
\<close>

definition next_connID :: "dword \<Rightarrow> dword" where
  "next_connID n = (let connID = n + 1 in if connID = 0 then connID + 1 else connID)"

definition ProcessAccept ::
    "os_answers \<Rightarrow> nat \<Rightarrow> tcp_server \<Rightarrow> (int \<times> tcp_server) res" where
  "ProcessAccept ans pIO st =
     (let st = post_status (Posted IOCP_SI_ACCEPT 0) st in
      if \<not> m_pfnGetAcceptExSockaddrs st then Inl NullPointer
      else
        rbind (io_at st pIO) (\<lambda>c.
        let socket = sockAccept c;
            connID = next_connID (m_dwConnID st);
            st = st\<lparr>m_dwConnID := connID\<rparr> in
        rbind (GetFreeSocketContext connID socket st) (\<lambda>(pSock, st).
        rbind (sc_at st pSock) (\<lambda>s.
        let st = sc_put pSock (s\<lparr>sc_addr := aw_remote ans\<rparr>) st;
            st = AddClientSocket connID pSock st;
            st = call (KeepAlive socket 1 (1000 * 30) (1000 * 1)) st in
        if \<not> aw_assoc ans then
          rbind (AddFreeSocketContext connID st) (\<lambda>st. Inr (-1, AddFreeIOContext pIO st))
        else
          let st = st\<lparr>sock_keys := (sock_keys st)(socket \<mapsto> KeySocket pSock)\<rparr> in
          rbind (PostReceive (aw_recv ans) pIO st) (\<lambda>(result, st).
            Inr (0, if result \<noteq> 0 then AddFreeIOContext pIO st else st))))))"

definition ProcessSend :: "nat \<Rightarrow> tcp_server \<Rightarrow> (int \<times> tcp_server) res" where
  "ProcessSend pIO st = Inr (0, AddFreeIOContext pIO st)"

definition ProcessReceive ::
    "os_answers \<Rightarrow> dword \<Rightarrow> dword \<Rightarrow> nat \<Rightarrow> nat \<Rightarrow> tcp_server \<Rightarrow> (dword \<times> tcp_server) res" where
  "ProcessReceive ans dwConnID pSock_connID pIO dwIoSize st =
     rbind (io_at st pIO) (\<lambda>c.
     let c = c\<lparr>wsa_len := dwIoSize, io_connID := pSock_connID\<rparr> in
     rbind (mem_read (szBuf c) 0 dwIoSize) (\<lambda>pBuf.
     rbind (SaveData (aw_alloc ans) (aw_wide_len ans) (m_pRecevier st) (rcv c) pBuf) (\<lambda>(r, out).
     let c = c\<lparr>rcv := r, wsa_len := MAX_BUFFER\<rparr>;
         st = io_put pIO c st;
         st = st\<lparr>tellings := tellings st @ map (\<lambda>(tmp, nLen). (io_connID c, tmp, nLen)) out\<rparr> in
     rbind (PostReceive (aw_recv ans) pIO st) (\<lambda>(result, st).
     if result \<noteq> 0 then
       rbind (AddFreeSocketContext dwConnID st) (\<lambda>st. Inr (result, AddFreeIOContext pIO st))
     else Inr (result, st)))))"

section \<open>The worker\<close>

text \<open>\<^verbatim>\<open>pSock->connID\<close>, where \<^verbatim>\<open>pSock\<close> is the key; \<^verbatim>\<open>connID\<close> is the first field of either context.\<close>

definition key_connID :: "tcp_server \<Rightarrow> key \<Rightarrow> dword res" where
  "key_connID st k =
     (case k of
        KeySocket a \<Rightarrow> rbind (sc_at st a) (\<lambda>s. Inr (sc_connID s))
      | KeyIO a \<Rightarrow> rbind (io_at st a) (\<lambda>c. Inr (io_connID c))
      | KeyNumber _ \<Rightarrow> Inl NullPointer)"

text \<open>The end of an operation that is not in error.\<close>

definition worker_dispatch ::
    "os_answers \<Rightarrow> dword \<Rightarrow> dword \<Rightarrow> nat \<Rightarrow> socket_operation \<Rightarrow> tcp_server \<Rightarrow> tcp_server res" where
  "worker_dispatch ans connID dwBytes pOL op st =
     (case op of
        SO_ACCEPT \<Rightarrow> rbind (ProcessAccept ans pOL st) (\<lambda>r. Inr (snd r))
      | SO_READ \<Rightarrow>
          rbind (ProcessReceive ans connID connID pOL (unat dwBytes) st) (\<lambda>r. Inr (snd r))
      | SO_WRITE \<Rightarrow> rbind (ProcessSend pOL st) (\<lambda>r. Inr (snd r))
      | _ \<Rightarrow> Inr st)"

text \<open>One pass of the loop; the flag is False when the thread leaves it.\<close>

definition worker_pass :: "os_answers \<Rightarrow> completion \<Rightarrow> tcp_server \<Rightarrow> (bool \<times> tcp_server) res" where
  "worker_pass ans cp st =
     (case cp of
        Posted dwBytes pSock \<Rightarrow>
          if dwBytes = IOCP_SI_ACCEPT then
            (let (pOL, st) = GetFreeIOContext st in
             rbind (PostAccept (aw_accept ans) (m_sockListen st) (aw_socket ans) pOL st) (\<lambda>(result, st).
             Inr (True,
               if result \<noteq> 0 then AddFreeIOContext pOL (ManualCloseSocket (aw_socket ans) 255 True False st)
               else st)))
          else if dwBytes = IOCP_SI_DISCONNECT then
            (case FindSocketContext pSock st of
               None \<Rightarrow> Inr (True, st)
             | Some _ \<Rightarrow> rbind (AddFreeSocketContext pSock st) (\<lambda>st. Inr (True, st)))
          else if dwBytes = IOCP_SI_EXIT \<and> pSock = 0 then
            Inr (False, st\<lparr>exited := exited st + 1\<rparr>)
          else Inl NullPointer
      | Done dwBytes key pOL \<Rightarrow>
          rbind (io_at st pOL) (\<lambda>c.
          rbind (if so c \<noteq> SO_ACCEPT then key_connID st key else Inr 0) (\<lambda>connID.
          let dwErrorCode = (if aw_result ans then 0 else aw_error ans);
              dwBytes = (if \<not> aw_result ans \<and> aw_error ans = 0 then aw_bytes ans else dwBytes) in
          if dwErrorCode \<noteq> 0 then
            (if dwErrorCode = WSA_IO_PENDING then Inr (True, st)
             else if so c \<noteq> SO_ACCEPT then
               (if dwErrorCode \<noteq> WSAENOTSOCK \<and> dwErrorCode \<noteq> ERROR_OPERATION_ABORTED then
                  rbind (AddFreeSocketContext connID st) (\<lambda>st. Inr (True, AddFreeIOContext pOL st))
                else Inr (True, AddFreeIOContext pOL st))
             else
               let st = ManualCloseSocket (sockAccept c) 255 True False st;
                   st = post_status (Posted IOCP_SI_ACCEPT 0) st
               in Inr (True, AddFreeIOContext pOL st))
          else if dwBytes = 0 \<and> so c \<noteq> SO_ACCEPT then
            rbind (AddFreeSocketContext connID st) (\<lambda>st. Inr (True, AddFreeIOContext pOL st))
          else rbind (worker_dispatch ans connID dwBytes pOL (so c) st) (\<lambda>st. Inr (True, st)))))"

end
