(* ===== verification/TextConv.thy ===== *)
theory TextConv
  imports Prelude
begin

text \<open>
  The two conversions between wide text and UTF-8 that \<^verbatim>\<open>TcpServer.cpp\<close> and \<^verbatim>\<open>GlobalFunc.cpp\<close> each
  define, with the buffer they write to. The conversions of Windows are parameters.
\<close>

text \<open>
  The conversions of the system are parameters: \<open>to_utf8\<close> is \<^verbatim>\<open>WideCharToMultiByte(CP_UTF8)\<close>,
  \<open>to_wide\<close> is \<^verbatim>\<open>MultiByteToWideChar(CP_UTF8)\<close>, both without the final zero, which every call counts.
\<close>

definition UnicodeToUtf8 :: "(wchar list \<Rightarrow> byte list) \<Rightarrow> wchar list \<Rightarrow> byte list \<Rightarrow> int \<Rightarrow> (byte list \<times> int) res"
  where
  "UnicodeToUtf8 to_utf8 unicode uft8 len =
     (let utf8size = int (length (to_utf8 unicode)) + 1 in
      if len < utf8size then Inr (uft8, 0)
      else rbind (mem_write uft8 0 (to_utf8 unicode @ [0])) (\<lambda>d. Inr (d, utf8size)))"

definition Utf8ToUnicode :: "(byte list \<Rightarrow> wchar list) \<Rightarrow> byte list \<Rightarrow> wchar list \<Rightarrow> nat \<Rightarrow> wchar list option res"
  where
  "Utf8ToUnicode to_wide uft8 unicode len =
     (let nLen = length (to_wide uft8) + 1 in
      if len < nLen then Inr None
      else rbind (mem_write unicode 0 (replicate len 0)) (\<lambda>d.
           rbind (mem_write d 0 (to_wide uft8 @ [0])) (\<lambda>d. Inr (Some d))))"

text \<open>The copies in \<^verbatim>\<open>GlobalFunc.cpp\<close>.\<close>

definition GlobalUnicodeToUtf8 ::
    "(wchar list \<Rightarrow> byte list) \<Rightarrow> wchar list \<Rightarrow> byte list \<Rightarrow> int \<Rightarrow> (byte list \<times> int) res" where
  "GlobalUnicodeToUtf8 to_utf8 unicode uft8 len =
     (let utf8size = int (length (to_utf8 unicode)) + 1 in
      if len < utf8size then Inr (uft8, 0)
      else rbind (mem_write uft8 0 (to_utf8 unicode @ [0])) (\<lambda>d. Inr (d, utf8size)))"

definition GlobalUtf8ToUnicode ::
    "(byte list \<Rightarrow> wchar list) \<Rightarrow> byte list \<Rightarrow> wchar list \<Rightarrow> nat \<Rightarrow> wchar list option res" where
  "GlobalUtf8ToUnicode to_wide uft8 unicode len =
     (let nLen = length (to_wide uft8) + 1 in
      if len < nLen then Inr None
      else rbind (mem_write unicode 0 (replicate len 0)) (\<lambda>d.
           rbind (mem_write d 0 (to_wide uft8 @ [0])) (\<lambda>d. Inr (Some d))))"

lemma GlobalUnicodeToUtf8_fits:
  "length (to_utf8 s) < n \<Longrightarrow> n \<le> length buf \<Longrightarrow>
     GlobalUnicodeToUtf8 to_utf8 s buf (int n)
       = Inr (to_utf8 s @ [0] @ drop (Suc (length (to_utf8 s))) buf, int (length (to_utf8 s)) + 1)"
  by (simp add: GlobalUnicodeToUtf8_def mem_write_def)

lemma GlobalUnicodeToUtf8_long:
  "n \<le> length (to_utf8 s) \<Longrightarrow> GlobalUnicodeToUtf8 to_utf8 s buf (int n) = Inr (buf, 0)"
  by (simp add: GlobalUnicodeToUtf8_def)

text \<open>What a C function reads from a block: the bytes before the first zero.\<close>

definition c_text :: "byte list \<Rightarrow> byte list" where
  "c_text buf = takeWhile (\<lambda>b. b \<noteq> 0) buf"

lemma c_text_terminated: "0 \<notin> set s \<Longrightarrow> c_text (s @ 0 # rest) = s"
  by (induction s) (auto simp: c_text_def)

end
