(* ===== verification/TcpApi.thy ===== *)
theory TcpApi
  imports TcpServer TextConv
begin

text \<open>
  The public interface of \<^verbatim>\<open>CTcpServer\<close>: \<open>Start\<close>, \<open>Stop\<close>, \<open>Send\<close>, \<open>SendEx\<close>, \<open>Disconnect\<close> and
  \<open>GetClientAddress\<close>.
\<close>

section \<open>Starting\<close>

text \<open>What the system answers to the calls of \<open>Start\<close>, in their order.\<close>

record start_answers =
  st_WSAStartup :: int
  st_socket :: sock
  st_bind :: bool
  st_listen :: bool
  st_pfnAcceptEx :: bool
  st_pfnGetAcceptExSockaddrs :: bool
  st_pfnDisconnectEx :: bool
  st_port :: bool
  st_processors :: nat
  st_thread :: "nat \<Rightarrow> bool"
  st_assoc :: bool

text \<open>The thread loop: the threads from \<open>i\<close> on, and whether all of them could be created.\<close>

function start_threads :: "(nat \<Rightarrow> bool) \<Rightarrow> nat \<Rightarrow> tcp_server \<Rightarrow> bool \<times> tcp_server" where
  "start_threads ok i st =
     (if i < m_dwWorkerCount st then
        (if ok i then
           start_threads ok (Suc i) (call CreateThread (st\<lparr>m_vecWorkThread := m_vecWorkThread st + 1\<rparr>))
         else (False, st))
      else (True, st))"
  by pat_completeness auto
termination
  by (relation "measure (\<lambda>(ok, i, st). m_dwWorkerCount st - i)") (auto simp: call_def)

declare start_threads.simps [simp del]

fun post_accepts :: "nat \<Rightarrow> tcp_server \<Rightarrow> tcp_server" where
  "post_accepts 0 st = st"
| "post_accepts (Suc n) st = post_accepts n (post_status (Posted IOCP_SI_ACCEPT 0) st)"

definition Start :: "start_answers \<Rightarrow> bool \<Rightarrow> tcp_server \<Rightarrow> bool \<times> tcp_server" where
  "Start ans pReciver st =
     (if m_bRuning st then (True, st)
      else
        let st = st\<lparr>m_pRecevier := pReciver\<rparr> in
        if st_WSAStartup ans \<noteq> 0 then (False, st)
        else
          let s = st_socket ans; st = st\<lparr>m_sockListen := s\<rparr> in
          if s = INVALID_SOCKET then (False, st)
          else if \<not> st_bind ans then (False, call (CloseSocket s) st)
          else if \<not> st_listen ans then (False, call (CloseSocket s) st)
          else
            let st = st\<lparr>m_pfnAcceptEx := st_pfnAcceptEx ans,
                  m_pfnGetAcceptExSockaddrs := st_pfnGetAcceptExSockaddrs ans,
                  m_pfnDisconnectEx := st_pfnDisconnectEx ans, m_hCompletionPort := st_port ans\<rparr> in
            if \<not> st_port ans then (False, call (CloseSocket s) st)
            else
              let st = st\<lparr>m_dwWorkerCount := st_processors ans * 2 + 2\<rparr>;
                  (ok, st) = start_threads (st_thread ans) 0 st in
              if \<not> ok then (False, st)
              else
                let st = (if st_assoc ans
                          then post_accepts m_dwAcceptSocketCount
                                 (st\<lparr>sock_keys := (sock_keys st)(s \<mapsto> KeyNumber s)\<rparr>)
                          else st)
                in (True, st\<lparr>m_bRuning := True\<rparr>))"

section \<open>Sending\<close>

text \<open>The loop of \<open>_send\<close>, on \<open>remain\<close>; \<open>off\<close> is how far \<^verbatim>\<open>pBuf\<close> has moved.\<close>

function send_loop ::
    "bool \<Rightarrow> (nat \<Rightarrow> io_answer) \<Rightarrow> nat \<Rightarrow> byte list \<Rightarrow> nat \<Rightarrow> nat \<Rightarrow> nat \<Rightarrow> tcp_server
      \<Rightarrow> (dword \<times> tcp_server) res" where
  "send_loop bPostQueued ans pSock pBuf nLen off remain st =
     (if 0 < remain then
        let bufferSize = min remain MAX_BUFFER;
            (pIO, st) = GetFreeIOContext st in
        rbind (io_at st pIO) (\<lambda>c.
        rbind (mem_read pBuf off nLen) (\<lambda>src.
        rbind (mem_write (szBuf c) 0 src) (\<lambda>buf.
        rbind (sc_at st pSock) (\<lambda>s.
        let c = c\<lparr>szBuf := buf, wsa_len := nLen, so := SO_WRITE, sockAccept := sc_sock s\<rparr>;
            st = io_put pIO c st in
        rbind (if bPostQueued then Inr (0, post_status (Done 0 (KeyIO pIO) pIO) st)
               else PostSend (ans off) pIO st) (\<lambda>(result, st).
        if result \<noteq> 0 then Inr (result, AddFreeIOContext pIO st)
        else send_loop bPostQueued ans pSock pBuf nLen (off + bufferSize) (remain - bufferSize) st)))))
      else Inr (0, st))"
  by pat_completeness auto
termination
  by (relation "measure (\<lambda>(b, ans, pSock, pBuf, nLen, off, remain, st). remain)")
    (auto simp: MAX_BUFFER_def)

declare send_loop.simps [simp del]

definition do_send :: "bool \<Rightarrow> (nat \<Rightarrow> io_answer) \<Rightarrow> dword \<Rightarrow> byte list \<Rightarrow> nat \<Rightarrow> tcp_server \<Rightarrow> (bool \<times> tcp_server) res"
  where
  "do_send bPostQueued ans nID pBuf nLen st =
     (case FindSocketContext nID st of
        None \<Rightarrow> Inr (False, st)
      | Some pSock \<Rightarrow>
          rbind (send_loop bPostQueued ans pSock pBuf nLen 0 nLen st) (\<lambda>(result, st).
            Inr (result = 0, st)))"

text \<open>The fourth argument of \<^verbatim>\<open>Send\<close>, \<^verbatim>\<open>bPostQueued\<close>, has no effect.\<close>

definition Send :: "(nat \<Rightarrow> io_answer) \<Rightarrow> dword \<Rightarrow> byte list \<Rightarrow> bool \<Rightarrow> tcp_server \<Rightarrow> (bool \<times> tcp_server) res"
  where
  "Send ans nID pBuf bPostQueued st =
     rbind (PrepareSendBuf (replicate 1024 0) pBuf 50) (\<lambda>(pSendBuf, nNum).
       do_send False ans nID pSendBuf (nat nNum) st)"

text \<open>
  \<open>acp_size\<close> is the size \<^verbatim>\<open>WideCharToMultiByte(CP_ACP)\<close> answers. The second call may write 4096 bytes
  (\<^verbatim>\<open>sizeof(char *)*1024\<close>) to a block of 1024.
\<close>

definition SendEx ::
    "(nat \<Rightarrow> io_answer) \<Rightarrow> (wchar list \<Rightarrow> int) \<Rightarrow> (wchar list \<Rightarrow> byte list) \<Rightarrow> dword \<Rightarrow> wchar list
      \<Rightarrow> tcp_server \<Rightarrow> (bool \<times> tcp_server) res" where
  "SendEx ans acp_size to_utf8 nID csBuf st =
     (if FindSocketContext nID st = None then Inr (False, st)
      else if acp_size csBuf = 0 then Inr (False, st)
      else
        rbind (mem_write (replicate 1024 0) 0 (take 4096 (to_utf8 csBuf @ [0]))) (\<lambda>str.
        let pTmp = takeWhile (\<lambda>b. b \<noteq> 0) str; nLen = length pTmp in
        rbind (PrepareSendBuf (replicate (nLen + 50) 0) pTmp 50) (\<lambda>(pBuf, nNum).
          do_send False ans nID pBuf (nat nNum) st)))"

section \<open>Disconnecting and asking\<close>

definition Disconnect :: "io_answer \<Rightarrow> dword \<Rightarrow> bool \<Rightarrow> tcp_server \<Rightarrow> (bool \<times> tcp_server) res" where
  "Disconnect ans nID bForce st =
     (case FindSocketContext nID st of
        None \<Rightarrow> Inr (False, st)
      | Some pSock \<Rightarrow>
          if bForce then
            Inr (m_hCompletionPort st, post_status (Posted IOCP_SI_DISCONNECT nID) st)
          else if \<not> m_pfnDisconnectEx st then Inl NullPointer
          else rbind (sc_at st pSock) (\<lambda>s.
            Inr (ans = Accepted, call (IssueDisconnect (sc_sock s)) st)))"

text \<open>\<^verbatim>\<open>inet_ntoa\<close>: the four bytes in the order of memory, in decimal.\<close>

definition dec_byte :: "byte \<Rightarrow> byte list" where
  "dec_byte b =
     (let n = unat b; d = (\<lambda>k. of_nat (48 + k)) in
      if n < 10 then [d n]
      else if n < 100 then [d (n div 10), d (n mod 10)]
      else [d (n div 100), d (n div 10 mod 10), d (n mod 10)])"

definition inet_ntoa :: "dword \<Rightarrow> byte list" where
  "inet_ntoa a =
     (case le32 a of
        [b1, b2, b3, b4] \<Rightarrow>
          dec_byte b1 @ [46] @ dec_byte b2 @ [46] @ dec_byte b3 @ [46] @ dec_byte b4
      | _ \<Rightarrow> [])"

definition ntohs :: "16 word \<Rightarrow> 16 word" where
  "ntohs w = push_bit 8 (w AND 255) OR drop_bit 8 w"

text \<open>
  The result, the text copied to \<^verbatim>\<open>lpszAddress\<close> (up to its zero), \<^verbatim>\<open>iAddressLen\<close> and \<^verbatim>\<open>usPort\<close> afterwards; \<open>room\<close> is the
  size of the block behind \<^verbatim>\<open>lpszAddress\<close>, which \<^verbatim>\<open>lstrcpy\<close> does not know.
\<close>

definition GetClientAddress ::
    "(byte list \<Rightarrow> wchar list) \<Rightarrow> dword \<Rightarrow> wchar list \<Rightarrow> int \<Rightarrow> 16 word \<Rightarrow> tcp_server
      \<Rightarrow> (bool \<times> wchar list \<times> int \<times> 16 word) res" where
  "GetClientAddress to_wide dwConnID lpszAddress iAddressLen usPort st =
     (case FindSocketContext dwConnID st of
        None \<Rightarrow> Inr (False, lpszAddress, iAddressLen, usPort)
      | Some pSock \<Rightarrow>
          rbind (sc_at st pSock) (\<lambda>s.
          let usPort = ntohs (sin_port (sc_addr s));
              lpszIP = inet_ntoa (sin_addr (sc_addr s));
              iIPLen = int (length lpszIP);
              iIPLen = (if 0 < iIPLen then iIPLen + 1 else iIPLen) in
          if 0 < iIPLen \<and> iIPLen \<le> iAddressLen then
            rbind (Utf8ToUnicode to_wide lpszIP (replicate 256 0) 255) (\<lambda>w.
            case w of
              None \<Rightarrow> Inr (True, lpszAddress, iIPLen, usPort)
            | Some w \<Rightarrow>
                rbind (mem_write lpszAddress 0 (takeWhile (\<lambda>c. c \<noteq> 0) w @ [0])) (\<lambda>d.
                  Inr (True, d, iIPLen, usPort)))
          else Inr (False, lpszAddress, iIPLen, usPort)))"

section \<open>Stopping\<close>

text \<open>
  While \<open>Stop\<close> waits the workers run: a schedule is the list of the packets they take, each with the
  answers of its pass.
\<close>

fun run_workers :: "(os_answers \<times> completion) list \<Rightarrow> tcp_server \<Rightarrow> tcp_server res" where
  "run_workers [] st = Inr st"
| "run_workers ((ans, cp) # sched) st =
     rbind (worker_pass ans cp st) (\<lambda>r. run_workers sched (snd r))"

definition post_disconnects :: "(dword \<times> nat) list \<Rightarrow> tcp_server \<Rightarrow> tcp_server" where
  "post_disconnects m st = fold (\<lambda>e. post_status (Posted IOCP_SI_DISCONNECT (fst e))) m st"

fun post_exits :: "nat \<Rightarrow> tcp_server \<Rightarrow> tcp_server" where
  "post_exits 0 st = st"
| "post_exits (Suc n) st = post_exits n (post_status (Posted IOCP_SI_EXIT 0) st)"

text \<open>
  The loop over the clients that are left: the iterator is not advanced, so the second pass follows
  the pointer the first one deleted.
\<close>

definition first_client_alive :: "tcp_server \<Rightarrow> bool" where
  "first_client_alive st =
     (case m_mpClientSocket st of [] \<Rightarrow> False | (k, a) # _ \<Rightarrow> sc_store st a \<noteq> None)"

function delete_clients :: "tcp_server \<Rightarrow> tcp_server res" where
  "delete_clients st =
     (case m_mpClientSocket st of
        [] \<Rightarrow> Inr st
      | (k, pSock) # _ \<Rightarrow>
          (case sc_at st pSock of
             Inl e \<Rightarrow> Inl e
           | Inr c \<Rightarrow>
               let st = ManualCloseSocket (sc_sock c) 1 True False st
               in delete_clients (st\<lparr>sc_store := (sc_store st)(pSock := None)\<rparr>)))"
  by pat_completeness auto
termination
  by (relation "measure (\<lambda>st. if first_client_alive st then 1 else 0)")
    (auto simp: first_client_alive_def sc_at_def ManualCloseSocket_def call_def split: option.splits)

declare delete_clients.simps [simp del]

text \<open>The parts of \<open>Stop\<close>: before the first wait, and after the threads have ended.\<close>

definition stop_begin :: "tcp_server \<Rightarrow> tcp_server" where
  "stop_begin st =
     (let st = (if m_sockListen st \<noteq> INVALID_SOCKET
                then (ManualCloseSocket (m_sockListen st) 255 True False st)
                       \<lparr>m_sockListen := INVALID_SOCKET\<rparr>
                else st)
      in post_disconnects (m_mpClientSocket st) st)"

definition stop_end :: "tcp_server \<Rightarrow> tcp_server res" where
  "stop_end st =
     rbind (delete_clients st) (\<lambda>st.
     let st = st\<lparr>m_mpClientSocket := [],
           sc_store := sc_store st |` (- set (m_lsFreeSocketContext st)), m_lsFreeSocketContext := [],
           io_store := io_store st |` (- set (m_lsFreeIOContext st)), m_lsFreeIOContext := []\<rparr>;
         st = (if m_hCompletionPort st
               then (call CloseHandlePort st)\<lparr>m_hCompletionPort := False\<rparr> else st)
     in Inr (st\<lparr>m_dwConnID := 0, m_pfnAcceptEx := False, m_pfnGetAcceptExSockaddrs := False,
                 m_pfnDisconnectEx := False, m_bRuning := False\<rparr>))"

text \<open>\<^verbatim>\<open>WaitForMultipleObjects\<close> waits for every thread without a limit.\<close>

definition Stop ::
    "(os_answers \<times> completion) list \<Rightarrow> (os_answers \<times> completion) list \<Rightarrow> tcp_server
      \<Rightarrow> (bool \<times> tcp_server) res" where
  "Stop sched1 sched2 st =
     (if \<not> m_bRuning st then Inr (True, st)
      else
        rbind (run_workers sched1 (stop_begin st)) (\<lambda>st.
        let nCount = m_vecWorkThread st in
        rbind (run_workers sched2 (post_exits nCount st)) (\<lambda>st.
        if exited st < nCount then Inl Diverges
        else
          rbind (stop_end (st\<lparr>m_vecWorkThread := 0, exited := 0,
                               calls := calls st @ replicate nCount CloseThread\<rparr>)) (\<lambda>st.
          Inr (True, st)))))"

end
