(* ===== verification/TcpSafety.thy ===== *)
theory TcpSafety
  imports TcpApi
begin

text \<open>
  The invariant of a running server, over every order of completions, posted packets and calls of the
  interface: an I/O context is free, with the kernel, or in the hands of one worker, and of these
  exactly one; every client number leads to a live socket context of its own.
\<close>

section \<open>I/O contexts\<close>

text \<open>\<open>H\<close> lists the contexts the running code holds.\<close>

definition known_op :: "socket_operation \<Rightarrow> bool" where
  "known_op op \<longleftrightarrow> op = SO_ACCEPT \<or> op = SO_READ \<or> op = SO_WRITE"

definition io_ok :: "nat list \<Rightarrow> tcp_server \<Rightarrow> bool" where
  "io_ok H st \<longleftrightarrow>
     io_pool_ok st \<and> distinct (map fst (in_flight st) @ H)
     \<and> set (map fst (in_flight st) @ H) = io_used st
     \<and> (\<forall>a c. io_store st a = Some c \<longrightarrow> length (szBuf c) = MAX_BUFFER)
     \<and> (\<forall>a \<in> set (map fst (in_flight st)). \<forall>c. io_store st a = Some c \<longrightarrow> known_op (so c))"

lemmas io_defs = io_ok_def io_pool_ok_def io_used_def

text \<open>The part of the state the invariant reads.\<close>

definition same_io :: "tcp_server \<Rightarrow> tcp_server \<Rightarrow> bool" where
  "same_io st st' \<longleftrightarrow>
     io_store st' = io_store st \<and> m_lsFreeIOContext st' = m_lsFreeIOContext st
     \<and> io_next st' = io_next st \<and> in_flight st' = in_flight st"

lemma same_io_ok: "same_io st st' \<Longrightarrow> io_ok H st' = io_ok H st"
  by (simp add: same_io_def io_defs)

lemma same_io_refl [simp]: "same_io st st"
  by (simp add: same_io_def)

lemma same_io_trans: "same_io s t \<Longrightarrow> same_io t u \<Longrightarrow> same_io s u"
  by (simp add: same_io_def)

lemma same_io_calls [simp]:
  "same_io st (call c st)" "same_io st (post_status p st)" "same_io st (sc_put a s st)"
  "same_io st (ManualCloseSocket sk f g r st)" "same_io st (AddClientSocket k a st)"
  "same_io st (st\<lparr>m_dwConnID := n\<rparr>)" "same_io st (st\<lparr>sock_keys := ks\<rparr>)"
  "same_io st (st\<lparr>tellings := ts\<rparr>)" "same_io st (st\<lparr>exited := e\<rparr>)" "same_io st (st\<lparr>port_queue := q\<rparr>)"
  by (simp_all add: same_io_def call_def post_status_def sc_put_def ManualCloseSocket_def Let_def
      AddClientSocket_def)

lemma same_io_AddFreeSocketContext: "AddFreeSocketContext k st = Inr st' \<Longrightarrow> same_io st st'"
  by (cases "trim_free m_dwFreeSocketPool m_dwFreeSocketHold
        (m_lsFreeSocketContext st @ [the (FindSocketContext k st)]) (sc_store st)")
    (auto simp: AddFreeSocketContext_def same_io_def ManualCloseSocket_def call_def rbind_eq_Inr Let_def
      split: option.splits)

lemma same_io_GetFreeSocketContext: "GetFreeSocketContext k sk st = Inr (a, st') \<Longrightarrow> same_io st st'"
  by (auto simp: GetFreeSocketContext_def same_io_def sc_put_def rbind_eq_Inr Let_def split: list.splits)

lemma io_ok_calls [simp]:
  "io_ok H (call c st) = io_ok H st" "io_ok H (post_status p st) = io_ok H st"
  "io_ok H (sc_put a s st) = io_ok H st" "io_ok H (ManualCloseSocket sk f g r st) = io_ok H st"
  "io_ok H (AddClientSocket k a st) = io_ok H st" "io_ok H (st\<lparr>m_dwConnID := n\<rparr>) = io_ok H st"
  "io_ok H (st\<lparr>sock_keys := ks\<rparr>) = io_ok H st" "io_ok H (st\<lparr>tellings := ts\<rparr>) = io_ok H st"
  "io_ok H (st\<lparr>exited := e\<rparr>) = io_ok H st" "io_ok H (st\<lparr>port_queue := q\<rparr>) = io_ok H st"
  by (rule same_io_ok, simp)+

lemma io_at_held:
  assumes "io_ok H st" and "a \<in> set H"
  shows "\<exists>c. io_at st a = Inr c \<and> io_store st a = Some c \<and> length (szBuf c) = MAX_BUFFER"
proof -
  from assms have "a \<in> dom (io_store st)" by (auto simp: io_ok_def io_used_def)
  with assms(1) show ?thesis by (auto simp: io_ok_def io_at_def)
qed

lemma GetFreeIOContext_io:
  assumes "io_ok H st" and "GetFreeIOContext st = (a, st')"
  shows "io_ok (a # H) st'"
proof -
  have pool: "io_pool_ok st" using assms(1) by (simp add: io_ok_def)
  note step = GetFreeIOContext_ok [OF pool assms(2)]
  have "in_flight st' = in_flight st"
    using assms(2) by (auto simp: GetFreeIOContext_def io_put_def Let_def split: list.splits)
  moreover have "length (szBuf c) = MAX_BUFFER" if "io_store st' x = Some c" for x c
  proof -
    have "io_store st x = Some c \<or> c = io_clean"
      using assms(2) that by (auto simp: GetFreeIOContext_def io_put_def Let_def split: list.splits if_splits)
    with assms(1) show ?thesis by (auto simp: io_ok_def io_clean_def)
  qed
  moreover have "io_store st' x = io_store st x" if "x \<in> set (map fst (in_flight st))" for x
  proof -
    from that have "x \<in> io_used st" using assms(1) by (auto simp: io_ok_def)
    then show ?thesis using assms(2) pool
      by (auto simp: GetFreeIOContext_def io_put_def Let_def io_used_def io_pool_ok_def split: list.splits)
  qed
  ultimately show ?thesis
    using assms(1) step(1-3) unfolding io_ok_def by (intro conjI allI impI ballI) auto
qed

lemma AddFreeIOContext_io:
  assumes "io_ok (a # H) st"
  shows "io_ok H (AddFreeIOContext a st)"
proof -
  have pool: "io_pool_ok st" and a: "a \<in> io_used st" using assms by (auto simp: io_ok_def)
  note step = AddFreeIOContext_ok [OF pool a]
  obtain kept store where t: "trim_free m_dwFreeIOPool m_dwFreeIOHold (m_lsFreeIOContext st @ [a]) (io_store st) = (kept, store)"
    by fastforce
  have "distinct (m_lsFreeIOContext st @ [a])" "set (m_lsFreeIOContext st @ [a]) \<subseteq> dom (io_store st)"
    using pool a by (auto simp: io_pool_ok_def io_used_def)
  note kept = trim_free_ok(6) [OF this pool_limits(1) t]
  have "in_flight (AddFreeIOContext a st) = in_flight st"
    by (simp add: AddFreeIOContext_def t)
  moreover have sub: "io_store (AddFreeIOContext a st) x = Some c \<Longrightarrow> io_store st x = Some c" for x c
    using kept [of x] by (simp add: AddFreeIOContext_def t)
  ultimately show ?thesis
    using assms step unfolding io_ok_def by (intro conjI allI impI ballI) (auto dest!: sub)
qed

lemma io_put_io:
  assumes "io_ok H st" and "a \<in> set H" and "length (szBuf c) = MAX_BUFFER"
  shows "io_ok H (io_put a c st)"
proof -
  have "a \<in> dom (io_store st)" using assms by (auto simp: io_ok_def io_used_def)
  then have "io_next st > a" using assms(1) by (force simp: io_ok_def io_pool_ok_def not_le)
  then have "io_pool_ok (io_put a c st)" "io_used (io_put a c st) = io_used st"
    using assms \<open>a \<in> dom (io_store st)\<close> by (auto simp: io_defs io_put_def)
  moreover have "in_flight (io_put a c st) = in_flight st" by (simp add: io_put_def)
  ultimately show ?thesis
    using assms unfolding io_ok_def by (auto simp: io_put_def)
qed

lemma issue_io:
  assumes "io_ok (a # H) st" and "io_store st a = Some c" and "known_op (so c)"
  shows "io_ok H (issue a s st)"
  using assms unfolding io_defs by (auto simp: issue_def)

lemma io_put_store [simp]: "io_store (io_put a c st) a = Some c"
  by (simp add: io_put_def)

lemma call_store [simp]: "io_store (call c st) = io_store st"
  by (simp add: call_def)

lemma Post_io:
  assumes ok: "io_ok (a # H) st"
  shows "PostAccept ans l sk a st = Inr (r, st') \<Longrightarrow> io_ok (if r = 0 then H else a # H) st'"
    and "PostSend ans a st = Inr (r, st') \<Longrightarrow> io_ok (if r = 0 then H else a # H) st'"
    and "PostReceive ans a st = Inr (r, st') \<Longrightarrow> io_ok (if r = 0 then H else a # H) st'"
proof -
  obtain c where c: "io_at st a = Inr c" "length (szBuf c) = MAX_BUFFER"
    using io_at_held [OF ok] by auto
  have put: "io_ok (a # H) (io_put a (f c) st)" if "szBuf (f c) = szBuf c" for f
    using io_put_io [OF ok, of a "f c"] c that by simp
  show "PostAccept ans l sk a st = Inr (r, st') \<Longrightarrow> io_ok (if r = 0 then H else a # H) st'"
    using put [of "\<lambda>c. c\<lparr>so := SO_ACCEPT, sockAccept := sk\<rparr>"] c
    by (auto simp: PostAccept_def Let_def known_op_def split: if_splits intro!: issue_io)
  show "PostSend ans a st = Inr (r, st') \<Longrightarrow> io_ok (if r = 0 then H else a # H) st'"
    using put [of "\<lambda>c. c\<lparr>so := SO_WRITE\<rparr>"] c
    by (auto simp: PostSend_def Let_def known_op_def split: if_splits intro!: issue_io)
  show "PostReceive ans a st = Inr (r, st') \<Longrightarrow> io_ok (if r = 0 then H else a # H) st'"
    using put [of "\<lambda>c. c\<lparr>so := SO_READ, wsa_len := MAX_BUFFER\<rparr>"] c
    by (auto simp: PostReceive_def Let_def known_op_def split: if_splits intro!: issue_io)
qed

section \<open>Clients\<close>

text \<open>
  The clients' contexts are in order, and the next number is larger than every client's.
\<close>

definition sock_ok :: "tcp_server \<Rightarrow> bool" where
  "sock_ok st \<longleftrightarrow>
     sock_pool_ok st \<and> (\<forall>k a. map_of (m_mpClientSocket st) k = Some a \<longrightarrow> k \<le> m_dwConnID st)"

definition same_sock :: "tcp_server \<Rightarrow> tcp_server \<Rightarrow> bool" where
  "same_sock st st' \<longleftrightarrow>
     m_mpClientSocket st' = m_mpClientSocket st \<and> m_lsFreeSocketContext st' = m_lsFreeSocketContext st
     \<and> sc_store st' = sc_store st \<and> sc_next st' = sc_next st \<and> m_dwConnID st' = m_dwConnID st"

lemma same_sock_ok: "same_sock st st' \<Longrightarrow> sock_ok st' = sock_ok st"
  by (simp add: same_sock_def sock_ok_def sock_pool_ok_def client_addrs_def)

lemma same_sock_calls [simp]:
  "same_sock st (call c st)" "same_sock st (post_status p st)" "same_sock st (io_put a ctx st)"
  "same_sock st (issue a s st)" "same_sock st (ManualCloseSocket sk f g r st)"
  "same_sock st (AddFreeIOContext a st)" "same_sock st (st\<lparr>sock_keys := ks\<rparr>)"
  "same_sock st (st\<lparr>tellings := ts\<rparr>)" "same_sock st (st\<lparr>exited := e\<rparr>)" "same_sock st (st\<lparr>port_queue := q\<rparr>)"
  by (simp_all add: same_sock_def call_def post_status_def io_put_def ManualCloseSocket_def Let_def
      issue_def AddFreeIOContext_def split: prod.splits)

lemma same_sock_trans: "same_sock s t \<Longrightarrow> same_sock t u \<Longrightarrow> same_sock s u"
  by (simp add: same_sock_def)

lemma sock_ok_calls [simp]:
  "sock_ok (call c st) = sock_ok st" "sock_ok (post_status p st) = sock_ok st"
  "sock_ok (io_put a ctx st) = sock_ok st" "sock_ok (issue a s st) = sock_ok st"
  "sock_ok (ManualCloseSocket sk f g r st) = sock_ok st" "sock_ok (AddFreeIOContext a st) = sock_ok st"
  "sock_ok (st\<lparr>sock_keys := ks\<rparr>) = sock_ok st" "sock_ok (st\<lparr>tellings := ts\<rparr>) = sock_ok st"
  "sock_ok (st\<lparr>exited := e\<rparr>) = sock_ok st" "sock_ok (st\<lparr>port_queue := q\<rparr>) = sock_ok st"
  by (rule same_sock_ok, simp)+

lemma same_sock_GetFreeIOContext: "GetFreeIOContext st = (a, st') \<Longrightarrow> same_sock st st'"
  by (auto simp: GetFreeIOContext_def same_sock_def io_put_def Let_def split: list.splits)

lemma same_sock_post [simp]:
  "same_sock st (call c (io_put x ctx st))" "same_sock st (issue a s (call c (io_put x ctx st)))"
  by (simp_all add: same_sock_def call_def issue_def io_put_def)

lemma io_put_pfn [simp]: "m_pfnAcceptEx (io_put a ctx st) = m_pfnAcceptEx st"
  by (simp add: io_put_def)

lemma Post_sock:
  "PostAccept ans l sk a st = Inr (r, st') \<Longrightarrow> same_sock st st'"
  "PostSend ans a st = Inr (r, st') \<Longrightarrow> same_sock st st'"
  "PostReceive ans a st = Inr (r, st') \<Longrightarrow> same_sock st st'"
proof -
  assume "PostAccept ans l sk a st = Inr (r, st')"
  then show "same_sock st st'"
    by (cases "io_at st a"; cases "m_pfnAcceptEx st"; cases "r = 0")
      (auto simp: PostAccept_def Let_def)
next
  assume "PostSend ans a st = Inr (r, st')"
  then show "same_sock st st'"
    by (cases "io_at st a"; cases "r = 0") (auto simp: PostSend_def Let_def)
next
  assume "PostReceive ans a st = Inr (r, st')"
  then show "same_sock st st'"
    by (cases "io_at st a"; cases "r = 0") (auto simp: PostReceive_def Let_def)
qed

lemma AddFreeSocketContext_sock:
  assumes "sock_ok st"
  shows "\<exists>st'. AddFreeSocketContext k st = Inr st' \<and> sock_ok st' \<and> map_of (m_mpClientSocket st') k = None
    \<and> (\<forall>k'. k' \<noteq> k \<longrightarrow> map_of (m_mpClientSocket st') k' = map_of (m_mpClientSocket st) k')"
proof (cases "FindSocketContext k st")
  case None
  with assms show ?thesis by (simp add: AddFreeSocketContext_unknown FindSocketContext_def)
next
  case (Some a)
  have pool: "sock_pool_ok st" using assms by (simp add: sock_ok_def)
  from AddFreeSocketContext_known [OF pool Some] obtain st'
    where st': "AddFreeSocketContext k st = Inr st'" "sock_pool_ok st'"
      "m_mpClientSocket st' = std_erase k (m_mpClientSocket st)" by blast
  have "m_dwConnID st' = m_dwConnID st"
    using st'(1) by (cases "trim_free m_dwFreeSocketPool m_dwFreeSocketHold
        (m_lsFreeSocketContext st @ [the (FindSocketContext k st)]) (sc_store st)")
      (auto simp: AddFreeSocketContext_def ManualCloseSocket_def call_def rbind_eq_Inr Let_def
        split: option.splits)
  with st' assms show ?thesis by (auto simp: sock_ok_def)
qed

lemma AddFreeSocketContext_sock_ok: "sock_ok st \<Longrightarrow> AddFreeSocketContext k st = Inr st' \<Longrightarrow> sock_ok st'"
  using AddFreeSocketContext_sock [of st k] by auto

lemma next_connID_fresh:
  assumes "n \<noteq> -1"
  shows "next_connID n = n + 1" and "n < next_connID n"
proof -
  have "n + 1 \<noteq> 0" using assms by (metis add_diff_cancel_right' diff_0)
  then show "next_connID n = n + 1" by (simp add: next_connID_def)
  then show "n < next_connID n" using \<open>n + 1 \<noteq> 0\<close> by unat_arith
qed

text \<open>Entering an accepted client.\<close>

lemma enter_client:
  assumes pool: "sock_pool_ok st" and fresh: "map_of (m_mpClientSocket st) k = None"
    and get: "GetFreeSocketContext k sk st = Inr (a, st1)" and s: "sc_at st1 a = Inr s"
  shows "sock_pool_ok (AddClientSocket k a (sc_put a (s\<lparr>sc_addr := r\<rparr>) st1))"
    and "m_mpClientSocket st1 = m_mpClientSocket st" and "sc_connID s = k" and "sc_sock s = sk"
proof -
  from GetFreeSocketContext_ok [OF pool, of k sk] get s
  have st1: "sock_pool_ok st1" "a \<notin> set (m_lsFreeSocketContext st1 @ client_addrs st1)"
    "m_mpClientSocket st1 = m_mpClientSocket st" "sc_store st1 a = Some s" "sc_connID s = k" "sc_sock s = sk"
    by (auto simp: sc_at_def)
  then show "m_mpClientSocket st1 = m_mpClientSocket st" "sc_connID s = k" "sc_sock s = sk" by simp_all
  let ?st2 = "sc_put a (s\<lparr>sc_addr := r\<rparr>) st1"
  have fields: "m_mpClientSocket ?st2 = m_mpClientSocket st1" "client_addrs ?st2 = client_addrs st1"
    "m_lsFreeSocketContext ?st2 = m_lsFreeSocketContext st1" "sc_next ?st2 = sc_next st1"
    "sc_store ?st2 = (sc_store st1)(a \<mapsto> s\<lparr>sc_addr := r\<rparr>)"
    by (simp_all add: sc_put_def client_addrs_def)
  have dom: "dom (sc_store ?st2) = dom (sc_store st1)" using st1(4) by (auto simp: fields)
  have "sock_pool_ok ?st2"
  proof (rule sock_pool_okI)
    show "\<exists>c. sc_store ?st2 x = Some c \<and> sc_connID c = k'"
      if "map_of (m_mpClientSocket ?st2) k' = Some x" for k' x
    proof (cases "x = a")
      case True
      with that st1(2) show ?thesis by (force simp: fields client_addrs_def dest: map_of_SomeD)
    next
      case False
      with that st1 show ?thesis by (auto simp: fields sock_pool_ok_def)
    qed
    show "sc_store ?st2 x = None" if "sc_next ?st2 \<le> x" for x
      using that st1(1) dom by (metis domIff fields(4) sock_pool_ok_def)
  qed (use st1(1) dom in \<open>simp_all only: fields sock_pool_ok_def\<close>)
  then show "sock_pool_ok (AddClientSocket k a (sc_put a (s\<lparr>sc_addr := r\<rparr>) st1))"
    using st1 fresh by (intro AddClientSocket_ok [of _ _ "s\<lparr>sc_addr := r\<rparr>"])
      (simp_all add: fields FindSocketContext_def)
qed

lemma GetFreeSocketContext_id: "GetFreeSocketContext k sk st = Inr (a, st1) \<Longrightarrow> m_dwConnID st1 = m_dwConnID st"
  by (auto simp: GetFreeSocketContext_def sc_put_def rbind_eq_Inr Let_def split: list.splits)

lemma post_status_fields [simp]:
  "m_dwConnID (post_status p st) = m_dwConnID st" "m_mpClientSocket (post_status p st) = m_mpClientSocket st"
  by (simp_all add: post_status_def)

text \<open>The states an accept goes through.\<close>

abbreviation accept_start :: "tcp_server \<Rightarrow> tcp_server" where
  "accept_start st \<equiv> (post_status (Posted IOCP_SI_ACCEPT 0) st)\<lparr>m_dwConnID := next_connID (m_dwConnID st)\<rparr>"

abbreviation accept_entered ::
    "os_answers \<Rightarrow> sock \<Rightarrow> dword \<Rightarrow> nat \<Rightarrow> socket_context \<Rightarrow> tcp_server \<Rightarrow> tcp_server" where
  "accept_entered ans sk k a s st1 \<equiv>
     call (KeepAlive sk 1 30000 1000) (AddClientSocket k a (sc_put a (s\<lparr>sc_addr := aw_remote ans\<rparr>) st1))"

definition accept_ends ::
    "os_answers \<Rightarrow> nat \<Rightarrow> dword \<Rightarrow> sock \<Rightarrow> nat \<Rightarrow> socket_context \<Rightarrow> tcp_server \<Rightarrow> tcp_server \<Rightarrow> bool" where
  "accept_ends ans pIO k sk a s st1 st' \<longleftrightarrow>
     (\<exists>st3. AddFreeSocketContext k (accept_entered ans sk k a s st1) = Inr st3
        \<and> st' = AddFreeIOContext pIO st3
      \<or> (\<exists>keys rr. PostReceive (aw_recv ans) pIO ((accept_entered ans sk k a s st1)\<lparr>sock_keys := keys\<rparr>)
             = Inr (rr, st3)
           \<and> st' = (if rr = 0 then st3 else AddFreeIOContext pIO st3)))"

lemma ProcessAccept_steps:
  assumes "ProcessAccept ans pIO st = Inr (r, st')"
  obtains c :: io_context and a st1 and s :: socket_context where
    "GetFreeSocketContext (next_connID (m_dwConnID st)) (sockAccept c) (accept_start st) = Inr (a, st1)"
    "sc_at st1 a = Inr s"
    "accept_ends ans pIO (next_connID (m_dwConnID st)) (sockAccept c) a s st1 st'"
proof -
  let ?k = "next_connID (m_dwConnID st)"
  from assms obtain c a st1 s where steps: "io_at (post_status (Posted IOCP_SI_ACCEPT 0) st) pIO = Inr c"
      "GetFreeSocketContext ?k (sockAccept c) (accept_start st) = Inr (a, st1)" "sc_at st1 a = Inr s"
    by (auto simp: ProcessAccept_def Let_def rbind_eq_Inr split: if_splits)
  let ?e = "accept_entered ans (sockAccept c) ?k a s st1"
  show thesis
  proof (rule that [OF steps(2,3)], cases "aw_assoc ans")
    case False
    with assms steps have "rbind (AddFreeSocketContext ?k ?e) (\<lambda>st. Inr (-1, AddFreeIOContext pIO st)) = Inr (r, st')"
      by (simp add: ProcessAccept_def Let_def split: if_splits)
    then show "accept_ends ans pIO ?k (sockAccept c) a s st1 st'"
      by (auto simp: accept_ends_def rbind_eq_Inr)
  next
    case True
    let ?keys = "(sock_keys ?e)(sockAccept c \<mapsto> KeySocket a)"
    from True assms steps have "rbind (PostReceive (aw_recv ans) pIO (?e\<lparr>sock_keys := ?keys\<rparr>))
        (\<lambda>(rr, st). Inr (0, if rr \<noteq> 0 then AddFreeIOContext pIO st else st)) = Inr (r, st')"
      by (simp add: ProcessAccept_def Let_def split: if_splits)
    then obtain rr st3 where "PostReceive (aw_recv ans) pIO (?e\<lparr>sock_keys := ?keys\<rparr>) = Inr (rr, st3)"
        "st' = (if rr = 0 then st3 else AddFreeIOContext pIO st3)"
      by (auto simp: rbind_eq_Inr split: if_splits)
    then show "accept_ends ans pIO ?k (sockAccept c) a s st1 st'"
      by (auto simp: accept_ends_def)
  qed
qed

lemma accept_entered_ok:
  assumes ok: "sock_ok st" and room: "m_dwConnID st \<noteq> -1"
    and g: "GetFreeSocketContext (next_connID (m_dwConnID st)) sk (accept_start st) = Inr (a, st1)" "sc_at st1 a = Inr s"
  shows "sock_ok (accept_entered ans sk (next_connID (m_dwConnID st)) a s st1)"
proof -
  let ?k = "next_connID (m_dwConnID st)"
  have below: "k < ?k" if "map_of (m_mpClientSocket st) k = Some a" for k a
    using ok next_connID_fresh(2) [OF room] that by (auto simp: sock_ok_def)
  have fresh: "map_of (m_mpClientSocket (accept_start st)) ?k = None"
    using below [of ?k] by (cases "map_of (m_mpClientSocket st) ?k") auto
  have pool0: "sock_pool_ok (accept_start st)"
    using ok by (simp add: sock_ok_def sock_pool_ok_def client_addrs_def post_status_def)
  let ?st2 = "AddClientSocket ?k a (sc_put a (s\<lparr>sc_addr := aw_remote ans\<rparr>) st1)"
  note entered = enter_client(1) [OF pool0 fresh g, where r = "aw_remote ans"] enter_client(2) [OF pool0 fresh g]
  have "m_mpClientSocket ?st2 = std_put ?k a (m_mpClientSocket st)" "m_dwConnID ?st2 = ?k"
    using entered(2) GetFreeSocketContext_id [OF g(1)] by (simp_all add: AddClientSocket_def sc_put_def)
  moreover have "std_map_ok (m_mpClientSocket st)" using ok by (simp add: sock_ok_def sock_pool_ok_def)
  ultimately show ?thesis
    using entered(1) below unfolding sock_ok_calls by (auto simp: sock_ok_def intro: less_imp_le)
qed

lemma ProcessAccept_sock:
  assumes ok: "sock_ok st" and room: "m_dwConnID st \<noteq> -1"
    and run: "ProcessAccept ans pIO st = Inr (r, st')"
  shows "sock_ok st'"
proof (rule ProcessAccept_steps [OF run])
  let ?k = "next_connID (m_dwConnID st)"
  fix c :: io_context and a st1 and s :: socket_context
  assume 1: "GetFreeSocketContext ?k (sockAccept c) (accept_start st) = Inr (a, st1)"
    "sc_at st1 a = Inr s" "accept_ends ans pIO ?k (sockAccept c) a s st1 st'"
  have st2: "sock_ok (accept_entered ans (sockAccept c) ?k a s st1)" by (rule accept_entered_ok [OF ok room 1(1,2)])
  from 1(3) show ?thesis
    unfolding accept_ends_def
  proof (elim exE disjE conjE, goal_cases)
    case (1 st3)
    with AddFreeSocketContext_sock_ok [OF st2] show ?case by simp
  next
    case (2 st3 keys rr)
    from same_sock_ok [OF Post_sock(3) [OF 2(1)]] st2 have "sock_ok st3" by (simp only: sock_ok_calls)
    with 2(2) show ?case by simp
  qed
qed

lemma ProcessAccept_io:
  assumes ok: "io_ok (pIO # H) st" and run: "ProcessAccept ans pIO st = Inr (r, st')"
  shows "io_ok H st'"
proof (rule ProcessAccept_steps [OF run])
  fix c :: io_context and a st1 and s :: socket_context
  assume 1: "GetFreeSocketContext (next_connID (m_dwConnID st)) (sockAccept c) (accept_start st) = Inr (a, st1)"
      "sc_at st1 a = Inr s" "accept_ends ans pIO (next_connID (m_dwConnID st)) (sockAccept c) a s st1 st'"
  let ?e = "accept_entered ans (sockAccept c) (next_connID (m_dwConnID st)) a s st1"
  have "io_ok (pIO # H) st1"
    using same_io_ok [OF same_io_GetFreeSocketContext [OF 1(1)]] ok by simp
  then have e: "io_ok (pIO # H) ?e" by simp
  from 1(3) show ?thesis
    unfolding accept_ends_def
  proof (elim exE disjE conjE, goal_cases)
    case (1 st3)
    have "io_ok (pIO # H) st3"
      using e by (simp only: same_io_ok [OF same_io_AddFreeSocketContext [OF 1(1)]])
    with 1(2) show ?case by (simp only: AddFreeIOContext_io)
  next
    case (2 st3 keys rr)
    have "io_ok (pIO # H) (?e\<lparr>sock_keys := keys\<rparr>)" using e by (simp only: io_ok_calls)
    from Post_io(3) [OF this 2(1)] 2(2) AddFreeIOContext_io show ?case by (cases "rr = 0") simp_all
  qed
qed

lemma ProcessReceive_ok:
  assumes ok: "io_ok (pIO # H) st" "sock_ok st"
    and run: "ProcessReceive ans k k' pIO n st = Inr (r, st')"
  shows "io_ok H st'" and "sock_ok st'"
proof -
  obtain c where c: "io_at st pIO = Inr c" "length (szBuf c) = MAX_BUFFER"
    using io_at_held [OF ok(1)] by auto
  let ?put = "\<lambda>rv. io_put pIO (c\<lparr>io_connID := k', rcv := rv, wsa_len := MAX_BUFFER\<rparr>) st"
  obtain pBuf where read: "mem_read (szBuf c) 0 n = Inr pBuf"
    using run c by (cases "mem_read (szBuf c) 0 n") (simp_all add: ProcessReceive_def)
  obtain rv out where save:
      "SaveData (aw_alloc ans) (aw_wide_len ans) (m_pRecevier st) (rcv c) pBuf = Inr (rv, out)"
    using run c read
    by (cases "SaveData (aw_alloc ans) (aw_wide_len ans) (m_pRecevier st) (rcv c) pBuf")
      (auto simp: ProcessReceive_def)
  define ts where "ts = tellings (?put rv) @ map (\<lambda>(tmp, nLen). (k', tmp, nLen)) out"
  have "rbind (PostReceive (aw_recv ans) pIO ((?put rv)\<lparr>tellings := ts\<rparr>)) (\<lambda>(result, st).
      if result \<noteq> 0 then rbind (AddFreeSocketContext k st) (\<lambda>st. Inr (result, AddFreeIOContext pIO st))
      else Inr (result, st)) = Inr (r, st')"
    using run c read save by (simp add: ProcessReceive_def Let_def ts_def)
  then obtain st2 where steps: "PostReceive (aw_recv ans) pIO ((?put rv)\<lparr>tellings := ts\<rparr>) = Inr (r, st2)"
      "if r \<noteq> 0 then (\<exists>st3. AddFreeSocketContext k st2 = Inr st3 \<and> st' = AddFreeIOContext pIO st3)
       else st' = st2"
    by (cases "PostReceive (aw_recv ans) pIO ((?put rv)\<lparr>tellings := ts\<rparr>)")
      (auto simp: rbind_eq_Inr split: if_splits)
  have ok1: "io_ok (pIO # H) ((?put rv)\<lparr>tellings := ts\<rparr>)" "sock_ok ((?put rv)\<lparr>tellings := ts\<rparr>)"
    using io_put_io [OF ok(1)] c ok(2) by simp_all
  have ok2: "io_ok (if r = 0 then H else pIO # H) st2" "sock_ok st2"
    using Post_io(3) [OF ok1(1) steps(1)] same_sock_ok [OF Post_sock(3) [OF steps(1)]] ok1(2) by simp_all
  have "io_ok H st' \<and> sock_ok st'"
  proof (cases "r = 0")
    case True
    with steps(2) ok2 show ?thesis by simp
  next
    case False
    with steps(2) obtain st3 where st3: "AddFreeSocketContext k st2 = Inr st3" "st' = AddFreeIOContext pIO st3"
      by auto
    have "io_ok (pIO # H) st3"
      using same_io_ok [OF same_io_AddFreeSocketContext [OF st3(1)]] ok2(1) False by simp
    moreover have "sock_ok st3" using AddFreeSocketContext_sock_ok [OF ok2(2) st3(1)] .
    ultimately show ?thesis using st3(2) AddFreeIOContext_io by simp
  qed
  then show "io_ok H st'" "sock_ok st'" by simp_all
qed

section \<open>One pass of a worker\<close>

definition held :: "completion \<Rightarrow> nat list" where
  "held cp = (case cp of Posted _ _ \<Rightarrow> [] | Done _ _ a \<Rightarrow> [a])"

definition server_ok :: "nat list \<Rightarrow> tcp_server \<Rightarrow> bool" where
  "server_ok H st \<longleftrightarrow> io_ok H st \<and> sock_ok st"

lemma server_ok_free [simp]: "server_ok (a # H) st \<Longrightarrow> server_ok H (AddFreeIOContext a st)"
  by (simp add: server_ok_def AddFreeIOContext_io)

lemma server_ok_calls [simp]:
  "server_ok H (call c st) = server_ok H st" "server_ok H (post_status p st) = server_ok H st"
  "server_ok H (ManualCloseSocket sk f g r st) = server_ok H st"
  "server_ok H (st\<lparr>exited := e\<rparr>) = server_ok H st" "server_ok H (st\<lparr>port_queue := q\<rparr>) = server_ok H st"
  by (simp_all add: server_ok_def)

lemma server_ok_disconnect:
  "server_ok H st \<Longrightarrow> AddFreeSocketContext k st = Inr st' \<Longrightarrow> server_ok H st'"
  using same_io_ok [OF same_io_AddFreeSocketContext] AddFreeSocketContext_sock_ok
  by (auto simp: server_ok_def)

lemma worker_pass_Posted:
  assumes ok: "server_ok [] st" and run: "worker_pass ans (Posted n key) st = Inr (b, st')"
  shows "server_ok [] st'"
proof -
  obtain a st1 where get: "GetFreeIOContext st = (a, st1)" by fastforce
  have held: "server_ok [a] st1"
    using ok GetFreeIOContext_io [OF _ get] same_sock_ok [OF same_sock_GetFreeIOContext [OF get]]
    by (simp add: server_ok_def)
  show ?thesis
  proof (cases "n = IOCP_SI_ACCEPT")
    case True
    with run get obtain r st2 where post: "PostAccept (aw_accept ans) (m_sockListen st1) (aw_socket ans) a st1 = Inr (r, st2)"
        "st' = (if r \<noteq> 0 then AddFreeIOContext a (ManualCloseSocket (aw_socket ans) 255 True False st2) else st2)"
      by (cases "PostAccept (aw_accept ans) (m_sockListen st1) (aw_socket ans) a st1")
        (auto simp: worker_pass_def)
    have "server_ok (if r = 0 then [] else [a]) st2"
      using Post_io(1) [OF _ post(1), of "[]"] same_sock_ok [OF Post_sock(1) [OF post(1)]] held
      by (simp add: server_ok_def)
    with post(2) show ?thesis by (cases "r = 0") simp_all
  next
    case False
    with run ok server_ok_disconnect show ?thesis
      by (auto simp: worker_pass_def rbind_eq_Inr split: if_splits option.splits)
  qed
qed

lemma worker_dispatch_ok:
  assumes ok: "server_ok [a] st" and room: "m_dwConnID st \<noteq> -1" and op: "known_op op"
    and run: "worker_dispatch ans k n a op st = Inr st'"
  shows "server_ok [] st'"
  using op unfolding known_op_def
proof (elim disjE)
  assume "op = SO_ACCEPT"
  with run obtain r where "ProcessAccept ans a st = Inr (r, st')"
    by (auto simp: worker_dispatch_def rbind_eq_Inr)
  with ok room show ?thesis by (auto simp: server_ok_def intro: ProcessAccept_io ProcessAccept_sock)
next
  assume "op = SO_READ"
  with run obtain r where "ProcessReceive ans k k a (unat n) st = Inr (r, st')"
    by (auto simp: worker_dispatch_def rbind_eq_Inr)
  with ok show ?thesis by (auto simp: server_ok_def intro: ProcessReceive_ok)
next
  assume "op = SO_WRITE"
  with run ok show ?thesis by (auto simp: worker_dispatch_def ProcessSend_def)
qed

text \<open>How a pass that takes the end of an operation goes on.\<close>

lemma Done_cases [consumes 2, case_names pending freed aborted refused dispatched]:
  assumes run: "worker_pass ans (Done n k a) st = Inr (b, st')" and c: "io_store st a = Some c"
  obtains "aw_error ans = WSA_IO_PENDING" "st' = st"
    | k' st1 where "AddFreeSocketContext k' st = Inr st1" "st' = AddFreeIOContext a st1"
    | "st' = AddFreeIOContext a st"
    | "st' = AddFreeIOContext a (post_status (Posted IOCP_SI_ACCEPT 0) (ManualCloseSocket (sockAccept c) 255 True False st))"
    | k' n' where "aw_result ans \<or> aw_error ans = 0" "n' = (if aw_result ans then n else aw_bytes ans)" "n' \<noteq> 0 \<or> so c = SO_ACCEPT"
        "so c \<noteq> SO_ACCEPT \<Longrightarrow> key_connID st k = Inr k'" "worker_dispatch ans k' n' a (so c) st = Inr st'"
proof -
  have at: "io_at st a = Inr c" using c by (simp add: io_at_def)
  from run at obtain k' where k': "(if so c \<noteq> SO_ACCEPT then key_connID st k else Inr 0) = Inr k'"
    by (cases "if so c \<noteq> SO_ACCEPT then key_connID st k else Inr 0") (simp_all add: worker_pass_def)
  let ?e = "if aw_result ans then 0 else aw_error ans"
  let ?n = "if \<not> aw_result ans \<and> aw_error ans = 0 then aw_bytes ans else n"
  consider (error) "?e \<noteq> 0" | (closed) "?e = 0" "?n = 0 \<and> so c \<noteq> SO_ACCEPT"
    | (fine) "?e = 0" "\<not> (?n = 0 \<and> so c \<noteq> SO_ACCEPT)" by blast
  then show thesis
  proof cases
    case error
    with run at k' that(1,3,4) that(2) [of k'] show thesis by (auto simp: worker_pass_def Let_def rbind_eq_Inr split: if_splits)
  next
    case closed
    with run at k' that(2) [of k'] show thesis by (auto simp: worker_pass_def Let_def rbind_eq_Inr split: if_splits)
  next
    case fine
    with run at k' have d: "worker_dispatch ans k' ?n a (so c) st = Inr st'"
      by (cases "worker_dispatch ans k' ?n a (so c) st") (auto simp: worker_pass_def Let_def split: if_splits)
    show thesis by (rule that(5) [OF _ _ _ _ d]) (use fine k' in \<open>auto split: if_splits\<close>)
  qed
qed

lemma worker_pass_Done:
  assumes ok: "server_ok [a] st" and room: "m_dwConnID st \<noteq> -1"
    and op: "\<And>c. io_store st a = Some c \<Longrightarrow> known_op (so c)"
    and ended: "aw_error ans \<noteq> WSA_IO_PENDING"
    and run: "worker_pass ans (Done n key a) st = Inr (b, st')"
  shows "server_ok [] st'"
proof -
  obtain c where c: "io_store st a = Some c"
    using io_at_held [of "[a]" st a] ok by (auto simp: server_ok_def)
  from run c show ?thesis
  proof (cases rule: Done_cases)
    case (freed k' st1)
    with server_ok_disconnect [OF ok] show ?thesis by simp
  next
    case (dispatched k' n')
    with worker_dispatch_ok [OF ok room op [OF c]] show ?thesis by blast
  qed (use ok ended in simp_all)
qed

section \<open>The interface\<close>

lemma send_loop_ok:
  "server_ok [] st \<Longrightarrow> send_loop False ans pSock pBuf nLen off remain st = Inr (r, st') \<Longrightarrow> server_ok [] st'"
proof (induction remain arbitrary: off st rule: less_induct)
  case (less remain)
  show ?case
  proof (cases "remain = 0")
    case True
    with less.prems show ?thesis by (simp add: send_loop.simps)
  next
    case False
    obtain a st1 where get: "GetFreeIOContext st = (a, st1)" by fastforce
    have held: "server_ok [a] st1"
      using less.prems(1) GetFreeIOContext_io [OF _ get] same_sock_ok [OF same_sock_GetFreeIOContext [OF get]]
      by (simp add: server_ok_def)
    obtain c where c: "io_at st1 a = Inr c" "length (szBuf c) = MAX_BUFFER"
      using io_at_held [of "[a]" st1 a] held by (auto simp: server_ok_def)
    obtain src where src: "mem_read pBuf off nLen = Inr src"
      using False less.prems(2) get c
      by (cases "mem_read pBuf off nLen") (simp_all add: send_loop.simps [of False ans pSock pBuf nLen off remain])
    obtain buf where buf: "mem_write (szBuf c) 0 src = Inr buf"
      using False less.prems(2) get c src
      by (cases "mem_write (szBuf c) 0 src") (simp_all add: send_loop.simps [of False ans pSock pBuf nLen off remain])
    obtain s where s: "sc_at st1 pSock = Inr s"
      using False less.prems(2) get c src buf
      by (cases "sc_at st1 pSock") (simp_all add: send_loop.simps [of False ans pSock pBuf nLen off remain])
    let ?st2 = "io_put a (c\<lparr>szBuf := buf, wsa_len := nLen, so := SO_WRITE, sockAccept := sc_sock s\<rparr>) st1"
    have "length buf = MAX_BUFFER" using buf c(2) by (auto simp: mem_write_def split: if_splits)
    then have st2: "server_ok [a] ?st2"
      using held io_put_io [of "[a]" st1 a] by (simp add: server_ok_def)
    obtain r1 st3 where post: "PostSend (ans off) a ?st2 = Inr (r1, st3)"
      using False less.prems(2) get c src buf s
      by (cases "PostSend (ans off) a ?st2")
        (auto simp: send_loop.simps [of False ans pSock pBuf nLen off remain])
    have st3: "server_ok (if r1 = 0 then [] else [a]) st3"
      using Post_io(2) [OF _ post, of "[]"] same_sock_ok [OF Post_sock(2) [OF post]] st2
      by (simp add: server_ok_def)
    show ?thesis
    proof (cases "r1 = 0")
      case True
      with False less.prems(2) get c src buf s post
      have "send_loop False ans pSock pBuf nLen (off + min remain MAX_BUFFER) (remain - min remain MAX_BUFFER) st3
          = Inr (r, st')"
        by (simp add: send_loop.simps [of False ans pSock pBuf nLen off remain] Let_def)
      with less.IH [of "remain - min remain MAX_BUFFER"] st3 True False show ?thesis
        by (simp add: MAX_BUFFER_def)
    next
      case no: False
      with False less.prems(2) get c src buf s post have "st' = AddFreeIOContext a st3"
        by (simp add: send_loop.simps [of False ans pSock pBuf nLen off remain])
      with st3 no show ?thesis by simp
    qed
  qed
qed

lemma do_send_ok: "server_ok [] st \<Longrightarrow> do_send False ans k pBuf n st = Inr (r, st') \<Longrightarrow> server_ok [] st'"
  by (auto simp: do_send_def rbind_eq_Inr dest: send_loop_ok split: option.splits)

lemma Send_ok: "server_ok [] st \<Longrightarrow> Send ans k pBuf flag st = Inr (r, st') \<Longrightarrow> server_ok [] st'"
  by (auto simp: Send_def rbind_eq_Inr dest: do_send_ok)

lemma SendEx_ok: "server_ok [] st \<Longrightarrow> SendEx ans acp utf8 k s st = Inr (r, st') \<Longrightarrow> server_ok [] st'"
  by (auto simp: SendEx_def rbind_eq_Inr Let_def dest: do_send_ok split: if_splits)

lemma Disconnect_ok: "server_ok [] st \<Longrightarrow> Disconnect ans k f st = Inr (r, st') \<Longrightarrow> server_ok [] st'"
  by (auto simp: Disconnect_def rbind_eq_Inr split: option.splits if_splits)

section \<open>A running server\<close>

text \<open>
  The kernel ends an operation: the context leaves the flight, and the bytes of a receive are in its buffer.
\<close>

definition kernel_ends :: "nat \<Rightarrow> byte list \<Rightarrow> tcp_server \<Rightarrow> tcp_server" where
  "kernel_ends a data st =
     (let st = st\<lparr>in_flight := filter (\<lambda>e. fst e \<noteq> a) (in_flight st)\<rparr> in
      case io_store st a of
        None \<Rightarrow> st
      | Some c \<Rightarrow> io_put a (c\<lparr>szBuf := data @ drop (length data) (szBuf c)\<rparr>) st)"

text \<open>
  One step of the program: a worker takes the first posted packet, a worker takes the end of an
  operation, or a thread of the program calls the interface. A completion is final, and fewer than
  \<open>2 ^ 32 - 1\<close> connections were accepted.
\<close>

inductive server_step :: "tcp_server \<Rightarrow> tcp_server \<Rightarrow> bool" where
  posted: "port_queue st = Posted n k # ps \<Longrightarrow> m_dwConnID st \<noteq> -1 \<Longrightarrow> aw_error ans \<noteq> WSA_IO_PENDING \<Longrightarrow>
    worker_pass ans (Posted n k) (st\<lparr>port_queue := ps\<rparr>) = Inr (b, st') \<Longrightarrow> server_step st st'"
| ended: "(a, k) \<in> set (in_flight st) \<Longrightarrow> length data \<le> MAX_BUFFER \<Longrightarrow> m_dwConnID st \<noteq> -1 \<Longrightarrow>
    aw_error ans \<noteq> WSA_IO_PENDING \<Longrightarrow>
    worker_pass ans (Done n k a) (kernel_ends a data st) = Inr (b, st') \<Longrightarrow> server_step st st'"
| sends: "Send ios k data flag st = Inr (r, st') \<Longrightarrow> server_step st st'"
| sends_text: "SendEx ios acp utf8 k text st = Inr (r, st') \<Longrightarrow> server_step st st'"
| disconnects: "Disconnect io k force st = Inr (r, st') \<Longrightarrow> server_step st st'"

lemma kernel_ends_ok:
  assumes ok: "server_ok [] st" and a: "(a, k) \<in> set (in_flight st)" and len: "length data \<le> MAX_BUFFER"
  shows "server_ok [a] (kernel_ends a data st)"
    and "\<And>c. io_store (kernel_ends a data st) a = Some c \<Longrightarrow> known_op (so c)"
    and "m_dwConnID (kernel_ends a data st) = m_dwConnID st"
proof -
  let ?st1 = "st\<lparr>in_flight := filter (\<lambda>e. fst e \<noteq> a) (in_flight st)\<rparr>"
  have io: "io_ok [] st" using ok by (simp add: server_ok_def)
  have mem: "a \<in> set (map fst (in_flight st))" using a by force
  obtain c where c: "io_store st a = Some c" "length (szBuf c) = MAX_BUFFER" "known_op (so c)"
  proof -
    have "a \<in> dom (io_store st)" using io mem by (auto simp: io_ok_def io_used_def)
    then obtain c where "io_store st a = Some c" by auto
    moreover have "\<forall>c. io_store st a = Some c \<longrightarrow> known_op (so c)" using io mem unfolding io_ok_def by blast
    ultimately show thesis using io by (intro that [of c]) (auto simp: io_ok_def)
  qed
  have names: "map fst (filter (\<lambda>e. fst e \<noteq> a) l) = filter (\<lambda>x. x \<noteq> a) (map fst l)"
    for l :: "(nat \<times> key) list"
    by (simp add: filter_map comp_def)
  have ops: "known_op (so c)" if "x \<in> io_used st" "io_store st x = Some c" for x c
    using io that unfolding io_ok_def by (metis append_Nil2)
  have pool: "io_pool_ok ?st1 = io_pool_ok st" "io_used ?st1 = io_used st"
    by (simp_all add: io_pool_ok_def io_used_def)
  have "io_ok [a] ?st1"
    using io mem unfolding io_ok_def pool by (auto simp: names intro: ops)
  then have "io_ok [a] (kernel_ends a data st)"
    using io_put_io [of "[a]" ?st1 a] c len by (simp add: kernel_ends_def)
  moreover have "same_sock st (kernel_ends a data st)"
    using c by (simp add: same_sock_def kernel_ends_def io_put_def)
  ultimately show "server_ok [a] (kernel_ends a data st)"
    using ok by (simp add: server_ok_def same_sock_ok)
  show "known_op (so c')" if "io_store (kernel_ends a data st) a = Some c'" for c'
    using that c by (auto simp: kernel_ends_def)
  show "m_dwConnID (kernel_ends a data st) = m_dwConnID st"
    using c by (simp add: kernel_ends_def io_put_def)
qed

lemma server_step_ok: "server_step st st' \<Longrightarrow> server_ok [] st \<Longrightarrow> server_ok [] st'"
proof (induction rule: server_step.induct)
  case (posted st n k ps ans b st')
  then show ?case by (auto dest: worker_pass_Posted [rotated])
next
  case (ended a k st data ans n b st')
  note taken = kernel_ends_ok [OF ended.prems ended(1,2)]
  show ?case
    by (rule worker_pass_Done [OF taken(1) _ taken(2) ended(4,5)]) (use ended(3) taken(3) in simp_all)
qed (auto dest: Send_ok SendEx_ok Disconnect_ok)

lemma reachable_ok: "server_step\<^sup>*\<^sup>* st st' \<Longrightarrow> server_ok [] st \<Longrightarrow> server_ok [] st'"
  by (induction rule: rtranclp_induct) (auto dest: server_step_ok)

text \<open>Starting leaves the contexts alone.\<close>

lemma server_ok_same: "same_io st st' \<Longrightarrow> same_sock st st' \<Longrightarrow> server_ok H st' = server_ok H st"
  by (simp add: server_ok_def same_io_ok same_sock_ok)

lemma start_threads_same:
  "start_threads ok i st = (b, st') \<Longrightarrow> same_io st st' \<and> same_sock st st' \<and> port_queue st' = port_queue st"
proof (induction ok i st rule: start_threads.induct)
  case (1 ok i st)
  then show ?case
    by (auto simp: start_threads.simps [of ok i st] same_io_def same_sock_def call_def split: if_splits)
qed

lemma post_accepts_same: "same_io st (post_accepts n st) \<and> same_sock st (post_accepts n st)"
proof (induction n arbitrary: st)
  case (Suc n)
  from Suc [of "post_status (Posted IOCP_SI_ACCEPT 0) st"] show ?case
    by (simp add: same_io_def same_sock_def post_status_def)
qed (simp add: same_sock_def)

lemma Start_same: "Start ans p st = (b, st') \<Longrightarrow> same_io st st' \<and> same_sock st st'"
proof -
  assume run: "Start ans p st = (b, st')"
  let ?st = "st\<lparr>m_pRecevier := p, m_sockListen := st_socket ans, m_pfnAcceptEx := st_pfnAcceptEx ans,
      m_pfnGetAcceptExSockaddrs := st_pfnGetAcceptExSockaddrs ans, m_pfnDisconnectEx := st_pfnDisconnectEx ans,
      m_hCompletionPort := True, m_dwWorkerCount := st_processors ans * 2 + 2\<rparr>"
  obtain ok st1 where threads: "start_threads (st_thread ans) 0 ?st = (ok, st1)" by fastforce
  have st1: "same_io st st1 \<and> same_sock st st1"
    using start_threads_same [OF threads] by (simp add: same_io_def same_sock_def)
  let ?keyed = "st1\<lparr>sock_keys := (sock_keys st1)(st_socket ans \<mapsto> KeyNumber (st_socket ans))\<rparr>"
  have "same_io st ((post_accepts n ?keyed)\<lparr>m_bRuning := True\<rparr>)
      \<and> same_sock st ((post_accepts n ?keyed)\<lparr>m_bRuning := True\<rparr>)" for n
    using st1 post_accepts_same [of ?keyed n] by (simp add: same_io_def same_sock_def)
  with run threads st1 show ?thesis
    by (auto simp: Start_def Let_def same_io_def same_sock_def call_def split: if_splits)
qed

lemma tcp_init_ok: "server_ok [] tcp_init"
  using init_pools_ok by (simp add: server_ok_def io_ok_def sock_ok_def) (simp add: tcp_init_def io_used_def)

end
