(* ===== verification/TcpDelivery.thy ===== *)
theory TcpDelivery
  imports TcpSafety
begin

text \<open>
  What the operations of \<^verbatim>\<open>CTcpServer\<close> do for their callers: which bytes \<open>Send\<close> puts on a client's
  socket, what a completed receive tells the receiver and under which number, and what \<open>Stop\<close> leaves.
\<close>

section \<open>Sending\<close>

text \<open>The bytes given to \<^verbatim>\<open>WSASend\<close> for one socket, in order.\<close>

fun sent_on :: "sock \<Rightarrow> os_call list \<Rightarrow> byte list" where
  "sent_on sk [] = []"
| "sent_on sk (IssueSend s bs a # cs) = (if s = sk then bs else []) @ sent_on sk cs"
| "sent_on sk (_ # cs) = sent_on sk cs"

lemma sent_on_append [simp]: "sent_on sk (cs @ ds) = sent_on sk cs @ sent_on sk ds"
  by (induction sk cs rule: sent_on.induct) auto

lemma effects [simp]:
  "calls (io_put a ctx st) = calls st" "calls (issue a sk st) = calls st" "calls (call c st) = calls st @ [c]"
  "tellings (io_put a ctx st) = tellings st" "tellings (issue a sk st) = tellings st"
  "tellings (call c st) = tellings st" "io_store (issue a sk st) = io_store st"
  by (simp_all add: io_put_def issue_def call_def)

text \<open>One pass of the loop of \<open>_send\<close>, for data that fits the buffer of a context.\<close>

lemma send_loop_once:
  assumes ok: "server_ok [] st" and n: "0 < n" "n \<le> MAX_BUFFER" "n \<le> length pBuf"
    and s: "sc_store st pSock = Some s"
  shows "\<exists>st' a. send_loop False ans pSock pBuf n 0 n st = Inr (io_status (ans 0), st')
    \<and> server_ok [] st' \<and> same_sock st st'
    \<and> calls st' = calls st @ [IssueSend (sc_sock s) (take n pBuf) a]"
proof -
  obtain a st1 where get: "GetFreeIOContext st = (a, st1)" by fastforce
  have same1: "same_sock st st1" by (rule same_sock_GetFreeIOContext [OF get])
  have calls1: "calls st1 = calls st"
    using get by (auto simp: GetFreeIOContext_def io_put_def Let_def split: list.splits)
  have held: "server_ok [a] st1"
    using ok GetFreeIOContext_io [OF _ get] same_sock_ok [OF same1] by (simp add: server_ok_def)
  obtain c where c: "io_at st1 a = Inr c" "length (szBuf c) = MAX_BUFFER"
    using io_at_held [of "[a]" st1 a] held by (auto simp: server_ok_def)
  have src: "mem_read pBuf 0 n = Inr (take n pBuf)" using n by (simp add: mem_read_def)
  let ?buf = "take n pBuf @ drop n (szBuf c)"
  have buf: "mem_write (szBuf c) 0 (take n pBuf) = Inr ?buf"
    using n c by (simp add: mem_write_def)
  have s1: "sc_at st1 pSock = Inr s" using s same1 by (simp add: sc_at_def same_sock_def)
  let ?c = "c\<lparr>szBuf := ?buf, wsa_len := n, so := SO_WRITE, sockAccept := sc_sock s\<rparr>"
  let ?st2 = "io_put a ?c st1"
  have "length ?buf = MAX_BUFFER" using n c by simp
  then have st2: "server_ok [a] ?st2"
    using held io_put_io [of "[a]" st1 a ?c] by (simp add: server_ok_def)
  have at2: "io_at ?st2 a = Inr ?c" by (simp add: io_at_def)
  obtain r st3 where post: "PostSend (ans 0) a ?st2 = Inr (r, st3)"
    by (simp add: PostSend_def at2 Let_def)
  have res: "r = io_status (ans 0)" "calls st3 = calls st @ [IssueSend (sc_sock s) (take n pBuf) a]"
    using post n calls1 by (auto simp: PostSend_def at2 Let_def)
  have st3: "server_ok (if r = 0 then [] else [a]) st3"
    using Post_io(2) [OF _ post, of "[]"] same_sock_ok [OF Post_sock(2) [OF post]] st2
    by (simp add: server_ok_def)
  have same3: "same_sock st st3"
    using same1 Post_sock(2) [OF post] by (simp add: same_sock_def io_put_def)
  let ?st4 = "if r \<noteq> 0 then AddFreeIOContext a st3 else st3"
  have "send_loop False ans pSock pBuf n 0 n st = Inr (r, ?st4)"
    using n get c src buf s1 post
    by (simp add: send_loop.simps [of False ans pSock pBuf n 0 n]) (simp add: send_loop.simps)
  moreover have "server_ok [] ?st4" using st3 by (cases "r = 0") simp_all
  moreover have "same_sock st ?st4" using same3 same_sock_trans [OF same3 same_sock_calls(6)] by simp
  moreover have "calls ?st4 = calls st3" by (simp add: AddFreeIOContext_def split: prod.splits)
  ultimately show ?thesis using res by auto
qed

text \<open>\<open>Send\<close> puts one packet, made of the data, on the socket of the client.\<close>

lemma Send_packet:
  assumes ok: "server_ok [] st" and k: "FindSocketContext k st = Some p" "sc_store st p = Some s"
    and fit: "length data \<le> 1009"
  shows "\<exists>st' a. Send ans k data flag st = Inr (io_status (ans 0) = 0, st')
    \<and> server_ok [] st' \<and> same_sock st st'
    \<and> calls st' = calls st @ [IssueSend (sc_sock s) (packet 50 data) a]"
proof -
  let ?buf = "packet 50 data @ drop (length data + 15) (replicate 1024 0)"
  have prep: "PrepareSendBuf (replicate 1024 0) data 50 = Inr (?buf, int (length data) + 15)"
    by (rule PrepareSendBuf_ok) (use fit in simp)
  let ?n = "length data + 15"
  have "0 < ?n" "?n \<le> MAX_BUFFER" "?n \<le> length ?buf" using fit by (simp_all add: MAX_BUFFER_def)
  from send_loop_once [OF ok this k(2), of ans] obtain st' a where st':
      "send_loop False ans p ?buf ?n 0 ?n st = Inr (io_status (ans 0), st')" "server_ok [] st'"
      "same_sock st st'" "calls st' = calls st @ [IssueSend (sc_sock s) (take ?n ?buf) a]"
    by blast
  have "nat (int (length data) + 15) = ?n" by simp
  with st' show ?thesis
    by (intro exI [of _ st'] exI [of _ a]) (simp add: Send_def prep do_send_def k(1))
qed

lemma Send_overflow: "1009 < length data \<Longrightarrow> Send ans k data flag st = Inl OutOfBounds"
  by (simp add: Send_def PrepareSendBuf_overflow)

text \<open>A thread that sends a list of messages to one client, as long as no call fails.\<close>

fun send_all :: "(nat \<Rightarrow> io_answer) \<Rightarrow> dword \<Rightarrow> byte list list \<Rightarrow> tcp_server \<Rightarrow> (bool \<times> tcp_server) res" where
  "send_all ans k [] st = Inr (True, st)"
| "send_all ans k (m # ms) st =
     rbind (Send ans k m False st) (\<lambda>(okay, st). if okay then send_all ans k ms st else Inr (False, st))"

lemma send_all_wire:
  assumes k: "FindSocketContext k st = Some p" "sc_store st p = Some s" and good: "io_status (ans 0) = 0"
    and ok: "server_ok [] st" and fit: "\<forall>m \<in> set ms. length m \<le> 1009"
  shows "\<exists>st'. send_all ans k ms st = Inr (True, st') \<and> server_ok [] st'
    \<and> sent_on (sc_sock s) (calls st') = sent_on (sc_sock s) (calls st) @ wire (map (Pair 50) ms)"
  using k ok fit
proof (induction ms arbitrary: st)
  case (Cons m ms)
  from Send_packet [OF Cons.prems(3,1,2), of m ans False] Cons.prems(4) good obtain st1 a where st1:
      "Send ans k m False st = Inr (True, st1)" "server_ok [] st1" "same_sock st st1"
      "calls st1 = calls st @ [IssueSend (sc_sock s) (packet 50 m) a]"
    by auto
  from st1(3) Cons.prems(1,2) have "FindSocketContext k st1 = Some p" "sc_store st1 p = Some s"
    by (simp_all add: FindSocketContext_def same_sock_def)
  from Cons.IH [OF this st1(2)] Cons.prems(4) obtain st' where
      "send_all ans k ms st1 = Inr (True, st')" "server_ok [] st'"
      "sent_on (sc_sock s) (calls st') = sent_on (sc_sock s) (calls st1) @ wire (map (Pair 50) ms)"
    by auto
  with st1 show ?case by simp
qed simp

section \<open>Receiving\<close>

text \<open>
  A completed receive on a context that has \<open>r\<close> waiting tells the receiver, under the number of the
  socket context, what \<open>deframe\<close> finds in \<open>r\<close> and the new bytes.
\<close>

lemma ProcessReceive_tells:
  assumes env: "\<forall>n. aw_alloc ans n" "\<forall>s. 0 < aw_wide_len ans s" and rcv: "m_pRecevier st"
    and c: "io_store st a = Some c" "holds_pending (rcv c) r" "n \<le> length (szBuf c)"
    and good: "io_status (aw_recv ans) = 0"
    and spec: "deframe (r @ take n (szBuf c)) = Inr (ms, rest)"
  shows "\<exists>st' c'. ProcessReceive ans k k a n st = Inr (0, st')
    \<and> tellings st' = tellings st @ map (\<lambda>m. (k, delivery_of (aw_wide_len ans) m)) ms
    \<and> io_store st' a = Some c' \<and> holds_pending (rcv c') rest"
proof -
  have read: "mem_read (szBuf c) 0 n = Inr (take n (szBuf c))" using c(3) by (simp add: mem_read_def)
  from SaveData_framed [OF env c(2), where buf = "take n (szBuf c)"] spec obtain io where io:
      "SaveData (aw_alloc ans) (aw_wide_len ans) True (rcv c) (take n (szBuf c))
        = Inr (io, map (delivery_of (aw_wide_len ans)) ms)" "holds_pending io rest"
    by (auto simp: framed_def)
  have at: "io_at st a = Inr c" using c(1) by (simp add: io_at_def)
  let ?c = "c\<lparr>io_connID := k, rcv := io, wsa_len := MAX_BUFFER\<rparr>"
  let ?ts = "tellings st @ map (\<lambda>m. (k, delivery_of (aw_wide_len ans) m)) ms"
  have put: "(io_put a ?c st)\<lparr>tellings := tellings (io_put a ?c st)
      @ map (\<lambda>(tmp, nLen). (io_connID ?c, tmp, nLen)) (map (delivery_of (aw_wide_len ans)) ms)\<rparr>
      = (io_put a ?c st)\<lparr>tellings := ?ts\<rparr>"
    by (simp add: io_put_def delivery_of_def)
  have at2: "io_at ((io_put a ?c st)\<lparr>tellings := ?ts\<rparr>) a = Inr ?c" by (simp add: io_at_def)
  obtain st' where post: "PostReceive (aw_recv ans) a ((io_put a ?c st)\<lparr>tellings := ?ts\<rparr>) = Inr (0, st')"
    using good by (simp add: PostReceive_def at2 Let_def)
  have "tellings st' = ?ts" "io_store st' a = Some (?c\<lparr>so := SO_READ, wsa_len := MAX_BUFFER\<rparr>)"
    using post good by (auto simp: PostReceive_def at2 Let_def)
  moreover have "ProcessReceive ans k k a n st = Inr (0, st')"
    using at read rcv io(1) put post by (simp add: ProcessReceive_def Let_def comp_def)
  ultimately show ?thesis using io(2) by (intro exI [of _ st']) auto
qed

section \<open>Starting\<close>

lemma post_accepts_queue:
  "m_hCompletionPort st \<Longrightarrow>
     post_accepts n st = st\<lparr>port_queue := port_queue st @ replicate n (Posted IOCP_SI_ACCEPT 0)\<rparr>"
  by (induction n arbitrary: st) (simp_all add: post_status_def)

lemma start_threads_all:
  "(\<And>j. i \<le> j \<Longrightarrow> j < m_dwWorkerCount st \<Longrightarrow> ok j) \<Longrightarrow>
     start_threads ok i st =
       (True, st\<lparr>m_vecWorkThread := m_vecWorkThread st + (m_dwWorkerCount st - i),
                calls := calls st @ replicate (m_dwWorkerCount st - i) CreateThread\<rparr>)"
proof (induction ok i st rule: start_threads.induct)
  case (1 ok i st)
  show ?case
  proof (cases "i < m_dwWorkerCount st")
    case True
    with 1 have "start_threads ok i st
        = start_threads ok (Suc i) (call CreateThread (st\<lparr>m_vecWorkThread := m_vecWorkThread st + 1\<rparr>))"
      by (subst start_threads.simps) simp
    also have "\<dots> = (True, st\<lparr>m_vecWorkThread := Suc (m_vecWorkThread st) + (m_dwWorkerCount st - Suc i),
                calls := (calls st @ [CreateThread]) @ replicate (m_dwWorkerCount st - Suc i) CreateThread\<rparr>)"
      using 1 True by (simp add: call_def)
    finally show ?thesis
      using True by (simp add: Suc_diff_Suc flip: replicate_Suc)
  next
    case False
    then show ?thesis by (simp add: start_threads.simps)
  qed
qed

text \<open>A start to which the system has no objection: the threads run, and every accept is posted.\<close>

lemma Start_succeeds:
  assumes "\<not> m_bRuning st" and "st_WSAStartup ans = 0" and "st_socket ans \<noteq> INVALID_SOCKET"
    and "st_bind ans" "st_listen ans" "st_port ans" "st_assoc ans" and "\<And>i. st_thread ans i"
  shows "\<exists>st'. Start ans p st = (True, st') \<and> m_bRuning st' \<and> m_hCompletionPort st'
    \<and> m_sockListen st' = st_socket ans
    \<and> m_vecWorkThread st' = m_vecWorkThread st + (st_processors ans * 2 + 2)
    \<and> port_queue st' = port_queue st @ replicate 256 (Posted IOCP_SI_ACCEPT 0)
    \<and> m_pfnAcceptEx st' = st_pfnAcceptEx ans \<and> m_dwConnID st' = m_dwConnID st"
  using assms
  by (simp add: Start_def Let_def start_threads_all post_accepts_queue m_dwAcceptSocketCount_def MAX_ACCEPT_def)

section \<open>Stopping\<close>

lemma delete_clients_none: "m_mpClientSocket st = [] \<Longrightarrow> delete_clients st = Inr st"
  by (simp add: delete_clients.simps)

text \<open>Any client that is left makes the loop follow a deleted pointer.\<close>

lemma delete_clients_left:
  assumes "m_mpClientSocket st \<noteq> []"
  shows "delete_clients st = Inl UseAfterFree"
proof -
  obtain k a m where m: "m_mpClientSocket st = (k, a) # m" using assms by (cases "m_mpClientSocket st") auto
  have dead: "delete_clients st' = Inl UseAfterFree" if "m_mpClientSocket st' = (k, a) # m" "sc_store st' a = None" for st'
    using that by (simp add: delete_clients.simps [of st'] sc_at_def)
  show ?thesis
  proof (cases "sc_store st a")
    case None
    with m show ?thesis by (rule dead)
  next
    case (Some c)
    with m show ?thesis
      by (subst delete_clients.simps) (simp add: sc_at_def Let_def ManualCloseSocket_def call_def dead)
  qed
qed

end
