(* ===== verification/TcpProperties.thy ===== *)
theory TcpProperties
  imports TcpDelivery
begin

text \<open>
  The properties of \<^verbatim>\<open>CTcpServer\<close>, each with an instance at concrete values.
\<close>

section \<open>Concrete data\<close>

text \<open>\<^verbatim>\<open>MultiByteToWideChar\<close> with no room given, on ASCII text: the characters and the final zero.\<close>

definition ascii_len :: "byte list \<Rightarrow> int" where
  "ascii_len s = int (length (takeWhile (\<lambda>b. b \<noteq> 0) s)) + 1"

lemma ascii_len_pos: "\<forall>s. 0 < ascii_len s"
  by (simp add: ascii_len_def)

definition os_good :: os_answers where
  "os_good = \<lparr>aw_result = True, aw_error = 0, aw_bytes = 0, aw_socket = 77, aw_accept = Failed 997,
     aw_recv = Failed 997, aw_assoc = True, aw_remote = any_addr, aw_alloc = (\<lambda>_. True),
     aw_wide_len = ascii_len\<rparr>"

definition start_good :: start_answers where
  "start_good = \<lparr>st_WSAStartup = 0, st_socket = 5, st_bind = True, st_listen = True,
     st_pfnAcceptEx = True, st_pfnGetAcceptExSockaddrs = True, st_pfnDisconnectEx = True,
     st_port = True, st_processors = 1, st_thread = (\<lambda>_. True), st_assoc = True\<rparr>"

text \<open>A server with one client: number 1, socket 70, and an operation of the client with the kernel.\<close>

definition one_client :: tcp_server where
  "one_client = tcp_init\<lparr>m_bRuning := True, m_hCompletionPort := True, m_pRecevier := True,
     m_dwConnID := 1, m_mpClientSocket := [(1, 0)],
     sc_store := [0 \<mapsto> socket_clean\<lparr>sc_connID := 1, sc_sock := 70\<rparr>], sc_next := 1\<rparr>"

definition one_write :: tcp_server where
  "one_write = one_client\<lparr>io_store := [0 \<mapsto> io_clean\<lparr>so := SO_WRITE, sockAccept := 60\<rparr>], io_next := 1\<rparr>"

lemma one_client_ok: "server_ok [] one_client" "server_ok [0] one_write"
  by (auto simp: server_ok_def io_ok_def io_pool_ok_def io_used_def sock_ok_def sock_pool_ok_def
      client_addrs_def one_client_def one_write_def tcp_init_def std_map_ok_def io_clean_def
      split: if_splits)

text \<open>A started server, and the state after a worker has posted its first accept.\<close>

definition started :: tcp_server where
  "started = snd (Start start_good True tcp_init)"

lemma started_facts:
  "Start start_good True tcp_init = (True, started)" "m_hCompletionPort started"
  "port_queue started = replicate 256 (Posted IOCP_SI_ACCEPT 0)" "m_pfnAcceptEx started" "m_dwConnID started = 0"
  using Start_succeeds [of tcp_init start_good True]
  by (auto simp: started_def start_good_def tcp_init_def INVALID_SOCKET_def)

lemma started_empty: "m_lsFreeIOContext started = []" "io_next started = 0" "in_flight started = []"
  "io_store started = Map.empty" "m_mpClientSocket started = []"
  using Start_same [OF started_facts(1)] by (simp_all add: same_io_def same_sock_def tcp_init_def)

lemma started_accepts:
  "\<exists>st. server_step started st \<and> io_store st = [0 \<mapsto> io_clean\<lparr>so := SO_ACCEPT, sockAccept := 77\<rparr>]
     \<and> m_lsFreeIOContext st = [] \<and> map fst (in_flight st) = [0]"
proof -
  let ?st = "started\<lparr>port_queue := replicate 255 (Posted IOCP_SI_ACCEPT 0)\<rparr>"
  have queue: "port_queue started = Posted IOCP_SI_ACCEPT 0 # replicate 255 (Posted IOCP_SI_ACCEPT 0)"
    using started_facts(3) by (simp add: numeral_eq_Suc)
  let ?c = "io_clean\<lparr>so := SO_ACCEPT, sockAccept := 77\<rparr>"
  obtain st1 where get: "GetFreeIOContext ?st = (0, st1)" "io_at st1 0 = Inr io_clean"
      "io_store st1 = [0 \<mapsto> io_clean]" "m_lsFreeIOContext st1 = []" "in_flight st1 = []" "m_pfnAcceptEx st1"
    using started_facts(4) started_empty
    by (simp add: GetFreeIOContext_def Let_def io_put_def io_at_def)
  obtain st where post: "PostAccept (Failed 997) (m_sockListen st1) 77 0 st1 = Inr (0, st)"
      "io_store st = [0 \<mapsto> ?c]" "m_lsFreeIOContext st = []" "map fst (in_flight st) = [0]"
    using get(2-)
    by (simp add: PostAccept_def Let_def io_put_def io_status_def WSA_IO_PENDING_def call_def issue_def)
  have run: "worker_pass os_good (Posted IOCP_SI_ACCEPT 0) ?st = Inr (True, st)"
    using get(1) post(1) by (simp add: worker_pass_def os_good_def)
  have "server_step started st"
    by (rule server_step.posted [OF queue _ _ run]) (simp_all add: started_facts(5) os_good_def WSA_IO_PENDING_def)
  then show ?thesis using post(2-4) by (intro exI [of _ st]) simp
qed

section \<open>The stream\<close>

text \<open>However the bytes of a list of messages are cut into pieces on their way, the receiver of the
  server is told the data of each message once, in order, and the connection's state is clean again.\<close>

theorem stream_round_trip:
  assumes "\<forall>n. alloc n" and "\<forall>s. 0 < wide_len s"
    and "concat pieces = wire msgs" and "\<forall>m \<in> set msgs. fits_packet (snd m)"
  shows "receive_pieces alloc wide_len True rcv_clean pieces
    = Inr (rcv_clean, map (\<lambda>m. delivery_of wide_len (snd m)) msgs)"
  by (rule receive_pieces_wire [OF assms(1,2) holds_pending_clean]) (use assms(3,4) in simp_all)

theorem stream_round_trip_witness:
  "receive_pieces (\<lambda>_. True) ascii_len True rcv_clean
      [take 4 (wire [(50, [104, 105]), (50, [])]), [], drop 4 (wire [(50, [104, 105]), (50, [])])]
    = Inr (rcv_clean, [([104, 105, 0], 3), ([0], 1)])"
proof -
  let ?msgs = "[(50, [104, 105]), (50, [])] :: (dword \<times> byte list) list"
  have "receive_pieces (\<lambda>_. True) ascii_len True rcv_clean [take 4 (wire ?msgs), [], drop 4 (wire ?msgs)]
      = Inr (rcv_clean, map (\<lambda>m. delivery_of ascii_len (snd m)) ?msgs)"
    by (rule stream_round_trip) (simp_all add: ascii_len_pos del: wire_simps)
  then show ?thesis by (simp add: delivery_of_def ascii_len_def del: wire_simps)
qed

text \<open>C2: on a connection with any bytes waiting, a call of SaveData does on any new bytes, well formed or
  not, what the one-pass specification does on all of them: the same messages, the same bytes left over, or
  the same fault.\<close>

theorem SaveData_refines_deframe:
  assumes "\<forall>n. alloc n" and "\<forall>s. 0 < wide_len s" and "holds_pending io r"
  shows "case deframe (r @ buf) of
      Inl e \<Rightarrow> SaveData alloc wide_len True io buf = Inl e \<and> e = BadAlloc
    | Inr (ms, rest) \<Rightarrow> (\<exists>io'. SaveData alloc wide_len True io buf
        = Inr (io', map (delivery_of wide_len) ms) \<and> holds_pending io' rest)"
  using SaveData_framed [OF assms, of buf] deframe_faults [of "r @ buf"]
  by (auto simp: framed_def split: sum.splits)

theorem SaveData_refines_deframe_witness:
  "SaveData (\<lambda>_. True) ascii_len True (rcv_clean\<lparr>tmpHeadBuf := take 2 (packet 50 [104])\<rparr>)
      (drop 2 (packet 50 [104])) = Inr (rcv_clean, [([104, 0], 2)])"
proof -
  let ?P = "packet 50 [104]"
  have pending: "holds_pending (rcv_clean\<lparr>tmpHeadBuf := take 2 ?P\<rparr>) (take 2 ?P)"
    by (simp add: holds_pending_def)
  have cut: "deframe (take 2 ?P @ drop 2 ?P) = Inr ([[104]], [])"
    using deframe_packet [of "[104]" 50 "[]"] by (simp add: deframe.simps [of "[]"])
  have "case deframe (take 2 ?P @ drop 2 ?P) of
      Inl e \<Rightarrow> SaveData (\<lambda>_. True) ascii_len True (rcv_clean\<lparr>tmpHeadBuf := take 2 ?P\<rparr>) (drop 2 ?P) = Inl e \<and> e = BadAlloc
    | Inr (ms, rest) \<Rightarrow> (\<exists>io'. SaveData (\<lambda>_. True) ascii_len True (rcv_clean\<lparr>tmpHeadBuf := take 2 ?P\<rparr>) (drop 2 ?P)
        = Inr (io', map (delivery_of ascii_len) ms) \<and> holds_pending io' rest)"
    by (rule SaveData_refines_deframe [OF _ ascii_len_pos pending]) simp
  then show ?thesis
    unfolding cut by (auto simp: holds_pending_def delivery_of_def ascii_len_def rcv_clean_def)
qed

section \<open>Senders\<close>

text \<open>Whatever list of messages (each of at most 1009 bytes) a thread sends to a client, every call
  succeeds while the system accepts the operations, and a peer that cuts the bytes given to its socket in any
  way reads exactly the messages.\<close>

theorem sent_messages_arrive:
  assumes "server_ok [] st" and "FindSocketContext k st = Some p" and "sc_store st p = Some s"
    and "io_status (ans 0) = 0" and "\<forall>m \<in> set ms. length m \<le> 1009"
    and "sent_on (sc_sock s) (calls st) = []" and "\<forall>n. alloc n" and "\<forall>x. 0 < wide_len x"
  shows "\<exists>st'. send_all ans k ms st = Inr (True, st') \<and>
    (\<forall>pieces. concat pieces = sent_on (sc_sock s) (calls st') \<longrightarrow>
       receive_pieces alloc wide_len True rcv_clean pieces
         = Inr (rcv_clean, map (delivery_of wide_len) ms))"
proof -
  from send_all_wire [of k st p s ans ms] assms(1-6) obtain st' where st':
      "send_all ans k ms st = Inr (True, st')"
      "sent_on (sc_sock s) (calls st') = wire (map (Pair 50) ms)"
    by auto
  have "receive_pieces alloc wide_len True rcv_clean pieces = Inr (rcv_clean, map (delivery_of wide_len) ms)"
    if "concat pieces = wire (map (Pair 50) ms)" for pieces
    using receive_pieces_wire [OF assms(7,8) holds_pending_clean, of pieces "map (Pair 50) ms"] that assms(5)
    by (fastforce simp: comp_def)
  with st' show ?thesis by auto
qed

theorem sent_messages_arrive_witness:
  "\<exists>st'. send_all (\<lambda>_. Failed 997) 1 [[104], [105, 106]] one_client = Inr (True, st') \<and>
    (\<forall>pieces. concat pieces = sent_on 70 (calls st') \<longrightarrow>
       receive_pieces (\<lambda>_. True) ascii_len True rcv_clean pieces
         = Inr (rcv_clean, [([104, 0], 2), ([105, 106, 0], 3)]))"
proof -
  have "\<exists>st'. send_all (\<lambda>_. Failed 997) 1 [[104], [105, 106]] one_client = Inr (True, st') \<and>
    (\<forall>pieces. concat pieces = sent_on (sc_sock (socket_clean\<lparr>sc_connID := 1, sc_sock := 70\<rparr>)) (calls st') \<longrightarrow>
       receive_pieces (\<lambda>_. True) ascii_len True rcv_clean pieces
         = Inr (rcv_clean, map (delivery_of ascii_len) [[104], [105, 106]]))"
    by (rule sent_messages_arrive [OF one_client_ok(1), of 1 0])
      (simp_all add: FindSocketContext_def one_client_def tcp_init_def io_status_def WSA_IO_PENDING_def
        ascii_len_pos)
  then show ?thesis by (simp add: delivery_of_def ascii_len_def)
qed

text \<open>A message of more than 1009 bytes makes Send write past its 1024-byte array, whoever the client is
  and whatever the system answers.\<close>

theorem Send_long_message_overflows:
  assumes "1009 < length data"
  shows "Send ans k data flag st = Inl OutOfBounds"
  using assms by (rule Send_overflow)

theorem Send_long_message_overflows_witness:
  "Send (\<lambda>_. Accepted) 7 (replicate 1010 0) True tcp_init = Inl OutOfBounds"
  by (rule Send_long_message_overflows) simp

text \<open>The receiver never looks at the check sum or at the final letter: any five bytes after the data do.\<close>

theorem trailer_is_not_checked:
  assumes "\<forall>n. alloc n" and "\<forall>s. 0 < wide_len s" and "fits_packet data" and "length trailer = 5"
  shows "SaveData alloc wide_len True rcv_clean (packet_head param data @ trailer)
    = Inr (rcv_clean, [delivery_of wide_len data])"
proof -
  have "deframe (packet_head param data @ trailer) = Inr ([data], [])"
    using deframe_head [OF assms(3,4), of param "[]"] by (simp add: deframe.simps [of "[]"])
  then show ?thesis
    using SaveData_from_clean [OF assms(1,2), of "packet_head param data @ trailer"]
    by (simp add: framed_def holds_pending_def rcv_clean_def)
qed

theorem trailer_is_not_checked_witness:
  "SaveData (\<lambda>_. True) ascii_len True rcv_clean (packet_head 50 [104] @ [0, 0, 0, 0, 0])
    = Inr (rcv_clean, [([104, 0], 2)])"
proof -
  have "SaveData (\<lambda>_. True) ascii_len True rcv_clean (packet_head 50 [104] @ [0, 0, 0, 0, 0])
      = Inr (rcv_clean, [delivery_of ascii_len [104]])"
    by (rule trailer_is_not_checked) (simp_all add: ascii_len_pos)
  then show ?thesis by (simp add: delivery_of_def ascii_len_def)
qed

text \<open>A header whose length field is \<open>2 ^ 31\<close> or more (but not all ones) makes the allocation in the worker
  throw, on any connection that has nothing waiting.\<close>

theorem huge_length_throws:
  assumes "\<forall>n. alloc n" and "\<forall>s. 0 < wide_len s"
    and "2 ^ 31 \<le> len" and "len \<noteq> -1" and "rest \<noteq> []"
  shows "SaveData alloc wide_len True rcv_clean ([83, 58] @ le32 param @ le32 len @ rest) = Inl BadAlloc"
proof -
  let ?bs = "[83, 58] @ le32 param @ le32 len @ rest"
  have "uint (-1 :: dword) = 2 ^ 32 - 1" by (simp add: unsigned_minus_1_eq_mask mask_eq_exp_minus_1)
  then have len: "2 ^ 31 \<le> uint len" "uint len < 2 ^ 32" "uint len \<noteq> 2 ^ 32 - 1"
    using assms(3,4) uint_bounded [of len] by (auto simp: word_le_def word_uint_eq_iff)
  then have neg: "sint len < -1" by (simp add: sint_dword)
  have "GetPacketLen ?bs = sint len"
    using GetPacketLen_header [OF assms(5), of param len] len by (simp add: word_le_def)
  moreover have "10 < length ?bs" using assms(5) by (cases rest) simp_all
  ultimately have "deframe ?bs = Inl BadAlloc"
    using neg by (subst deframe.simps) (simp add: Let_def)
  then show ?thesis
    using SaveData_from_clean [OF assms(1,2), of ?bs] by (simp add: framed_def)
qed

theorem huge_length_throws_witness:
  "SaveData (\<lambda>_. True) ascii_len True rcv_clean ([83, 58] @ le32 0 @ le32 0x80000000 @ [7]) = Inl BadAlloc"
  by (rule huge_length_throws) (simp_all add: ascii_len_pos)

section \<open>Servers\<close>

text \<open>C7: in every state a started server can reach, by whatever order of completions, posted packets and
  calls, each I/O context is either on the free list or with the kernel, never both and never twice, none is
  lost, and the free list never grows past its limit.\<close>

theorem io_contexts_conserved:
  assumes "Start ans has_rcv tcp_init = (b, st0)" and "server_step\<^sup>*\<^sup>* st0 st"
  shows "distinct (m_lsFreeIOContext st @ map fst (in_flight st))
    \<and> set (m_lsFreeIOContext st @ map fst (in_flight st)) = dom (io_store st)
    \<and> length (m_lsFreeIOContext st) \<le> m_dwFreeIOHold"
proof -
  have "server_ok [] st0" using Start_same [OF assms(1)] tcp_init_ok server_ok_same by blast
  with assms(2) have "server_ok [] st" by (rule reachable_ok)
  then have ok: "io_pool_ok st" "distinct (map fst (in_flight st))" "set (map fst (in_flight st)) = io_used st"
    by (simp_all add: server_ok_def io_ok_def)
  then show ?thesis unfolding io_pool_ok_def io_used_def by auto
qed

theorem io_contexts_conserved_witness:
  "\<exists>st. server_step started st \<and> map fst (in_flight st) = [0] \<and> dom (io_store st) = {0}"
proof -
  obtain st where st: "server_step started st" "m_lsFreeIOContext st = []" "map fst (in_flight st) = [0]"
    using started_accepts by (elim exE conjE) (rule that)
  have "set (m_lsFreeIOContext st @ map fst (in_flight st)) = dom (io_store st)"
    using io_contexts_conserved [OF started_facts(1) r_into_rtranclp [of server_step, OF st(1)]] by blast
  with st show ?thesis by auto
qed



text \<open>A worker that takes the failed end of a send or receive disconnects the client that owns the socket
  context NOW, whichever socket the operation was on; the client can be another one than the operation's.\<close>

theorem completion_disconnects_current_owner:
  assumes "server_ok [a] st" and "io_store st a = Some c" and "so c \<noteq> SO_ACCEPT"
    and "FindSocketContext k st = Some p" and "\<not> aw_result ans"
    and "aw_error ans \<notin> {0, WSA_IO_PENDING, WSAENOTSOCK, ERROR_OPERATION_ABORTED}"
  shows "\<exists>st'. worker_pass ans (Done n (KeySocket p) a) st = Inr (True, st') \<and> server_ok [] st'
    \<and> FindSocketContext k st' = None
    \<and> (\<forall>k'. k' \<noteq> k \<longrightarrow> FindSocketContext k' st' = FindSocketContext k' st)"
proof -
  have at: "io_at st a = Inr c" using assms(2) by (simp add: io_at_def)
  obtain s where s: "sc_store st p = Some s" "sc_connID s = k"
    using assms(1,4) unfolding server_ok_def sock_ok_def sock_pool_ok_def FindSocketContext_def by blast
  from AddFreeSocketContext_sock [of st k] assms(1) obtain st1 where st1:
      "AddFreeSocketContext k st = Inr st1" "map_of (m_mpClientSocket st1) k = None"
      "\<forall>k'. k' \<noteq> k \<longrightarrow> map_of (m_mpClientSocket st1) k' = map_of (m_mpClientSocket st) k'"
    by (auto simp: server_ok_def)
  have "worker_pass ans (Done n (KeySocket p) a) st = Inr (True, AddFreeIOContext a st1)"
    using assms(3,5,6) at s st1(1) by (simp add: worker_pass_def key_connID_def sc_at_def Let_def)
  moreover have "server_ok [] (AddFreeIOContext a st1)"
    using server_ok_disconnect [OF assms(1) st1(1)] by simp
  moreover have "m_mpClientSocket (AddFreeIOContext a st1) = m_mpClientSocket st1"
    using same_sock_calls(6) [of st1 a] by (simp add: same_sock_def)
  ultimately show ?thesis using st1(2,3) by (simp add: FindSocketContext_def)
qed

theorem completion_disconnects_current_owner_witness:
  "\<exists>st'. worker_pass (os_good\<lparr>aw_result := False, aw_error := 10054\<rparr>) (Done 0 (KeySocket 0) 0) one_write
      = Inr (True, st') \<and> FindSocketContext 1 one_write = Some 0 \<and> FindSocketContext 1 st' = None"
proof -
  have found: "FindSocketContext 1 one_write = Some 0"
    by (simp add: FindSocketContext_def one_write_def one_client_def)
  have "\<exists>st'. worker_pass (os_good\<lparr>aw_result := False, aw_error := 10054\<rparr>) (Done 0 (KeySocket 0) 0) one_write
      = Inr (True, st') \<and> server_ok [] st' \<and> FindSocketContext 1 st' = None
      \<and> (\<forall>k'. k' \<noteq> 1 \<longrightarrow> FindSocketContext k' st' = FindSocketContext k' one_write)"
    by (rule completion_disconnects_current_owner
          [OF one_client_ok(2), of "io_clean\<lparr>so := SO_WRITE, sockAccept := 60\<rparr>" 1 0])
      (simp_all add: found, simp_all add: one_write_def os_good_def WSA_IO_PENDING_def WSAENOTSOCK_def
        ERROR_OPERATION_ABORTED_def)
  with found show ?thesis by blast
qed

text \<open>An I/O context is handed out again as it was left: with no other context free, the next operation
  gets the one just freed, and the bytes that were waiting on the old connection are waiting on the new one.\<close>

theorem leftover_reaches_next_client:
  assumes "m_lsFreeIOContext st = []" and "io_store st a = Some c" and "holds_pending (rcv c) r"
  shows "\<exists>st' c'. GetFreeIOContext (AddFreeIOContext a st) = (a, st') \<and> io_store st' a = Some c'
    \<and> holds_pending (rcv c') r"
  using assms
  by (simp add: AddFreeIOContext_def trim_free_def m_dwFreeIOHold_def GetFreeIOContext_def)

theorem leftover_reaches_next_client_witness:
  "\<exists>st' c'. GetFreeIOContext (AddFreeIOContext 0
      (tcp_init\<lparr>io_store := [0 \<mapsto> io_clean\<lparr>rcv := rcv_clean\<lparr>tmpHeadBuf := [83, 58]\<rparr>\<rparr>]\<rparr>)) = (0, st')
    \<and> io_store st' 0 = Some c' \<and> holds_pending (rcv c') [83, 58]"
proof -
  let ?c = "io_clean\<lparr>rcv := rcv_clean\<lparr>tmpHeadBuf := [83, 58]\<rparr>\<rparr>"
  show ?thesis
    by (rule leftover_reaches_next_client [where c = ?c]) (simp_all add: tcp_init_def holds_pending_def io_clean_def)
qed

text \<open>A completed receive tells the receiver, under the number of the socket context, exactly the messages
  that the bytes waiting in the I/O context and the new bytes contain, and the rest waits.\<close>

theorem receive_tells_messages:
  assumes "\<forall>n. aw_alloc ans n" and "\<forall>s. 0 < aw_wide_len ans s" and "m_pRecevier st"
    and "io_store st a = Some c" and "holds_pending (rcv c) r" and "n \<le> length (szBuf c)"
    and "io_status (aw_recv ans) = 0" and "deframe (r @ take n (szBuf c)) = Inr (ms, rest)"
  shows "\<exists>st' c'. ProcessReceive ans k k a n st = Inr (0, st')
    \<and> tellings st' = tellings st @ map (\<lambda>m. (k, delivery_of (aw_wide_len ans) m)) ms
    \<and> io_store st' a = Some c' \<and> holds_pending (rcv c') rest"
  by (rule ProcessReceive_tells [OF assms])

theorem receive_tells_messages_witness:
  "\<exists>st' c'. ProcessReceive os_good 1 1 0 16
      (one_client\<lparr>io_store := [0 \<mapsto> io_clean\<lparr>szBuf := packet 50 [104] @ replicate 1008 0\<rparr>]\<rparr>) = Inr (0, st')
    \<and> tellings st' = [(1, [104, 0], 2)] \<and> io_store st' 0 = Some c' \<and> holds_pending (rcv c') []"
proof -
  let ?st = "one_client\<lparr>io_store := [0 \<mapsto> io_clean\<lparr>szBuf := packet 50 [104] @ replicate 1008 0\<rparr>]\<rparr>"
  have cut: "deframe ([] @ take 16 (packet 50 [104] @ replicate 1008 0)) = Inr ([[104]], [])"
    using deframe_packet [of "[104]" 50 "[]"] by (simp add: deframe.simps [of "[]"])
  have "\<exists>st' c'. ProcessReceive os_good 1 1 0 16 ?st = Inr (0, st')
      \<and> tellings st' = tellings ?st @ map (\<lambda>m. (1, delivery_of (aw_wide_len os_good) m)) [[104]]
      \<and> io_store st' 0 = Some c' \<and> holds_pending (rcv c') []"
    by (rule receive_tells_messages [of os_good ?st 0 "io_clean\<lparr>szBuf := packet 50 [104] @ replicate 1008 0\<rparr>" "[]" 16])
      (use cut in \<open>simp_all add: os_good_def one_client_def io_clean_def holds_pending_clean io_status_def
          WSA_IO_PENDING_def ascii_len_pos\<close>)
  then show ?thesis
    by (simp add: delivery_of_def os_good_def ascii_len_def) (simp add: one_client_def tcp_init_def)
qed

text \<open>If a client is still connected when the threads have ended, Stop follows the pointer it has just
  deleted; with no client left it ends with an empty, stopped server.\<close>

theorem Stop_clients_left:
  assumes "m_bRuning st" and "run_workers sched1 (stop_begin st) = Inr st1"
    and "run_workers sched2 (post_exits (m_vecWorkThread st1) st1) = Inr st2"
    and "m_vecWorkThread st1 \<le> exited st2"
  shows "if m_mpClientSocket st2 = []
    then \<exists>st'. Stop sched1 sched2 st = Inr (True, st') \<and> \<not> m_bRuning st' \<and> m_mpClientSocket st' = []
      \<and> m_lsFreeIOContext st' = [] \<and> m_lsFreeSocketContext st' = []
      \<and> dom (io_store st') = dom (io_store st2) - set (m_lsFreeIOContext st2)
    else Stop sched1 sched2 st = Inl UseAfterFree"
  using assms
  by (auto simp: Stop_def Let_def stop_end_def delete_clients_none delete_clients_left call_def)

theorem Stop_clients_left_witness: "Stop [] [] one_client = Inl UseAfterFree"
proof -
  have empty: "exited (stop_begin one_client) = 0" "m_vecWorkThread (stop_begin one_client) = 0"
    "m_mpClientSocket (stop_begin one_client) = [(1, 0)]" "m_bRuning one_client"
    by (simp_all add: stop_begin_def one_client_def tcp_init_def post_disconnects_def post_status_def)
  show ?thesis
    using Stop_clients_left [of one_client "[]" "stop_begin one_client" "[]" "stop_begin one_client"]
    by (simp add: empty)
qed

text \<open>A start to which the system has no objection leaves a running server: two threads per processor and
  two more, listening, with 256 accepts posted and nothing else.\<close>

theorem Start_posts_accepts:
  assumes "\<not> m_bRuning st" and "st_WSAStartup ans = 0" and "st_socket ans \<noteq> INVALID_SOCKET"
    and "st_bind ans" and "st_listen ans" and "st_port ans" and "st_assoc ans" and "\<And>i. st_thread ans i"
  shows "\<exists>st'. Start ans p st = (True, st') \<and> m_bRuning st' \<and> m_sockListen st' = st_socket ans
    \<and> m_vecWorkThread st' = m_vecWorkThread st + (st_processors ans * 2 + 2)
    \<and> port_queue st' = port_queue st @ replicate 256 (Posted IOCP_SI_ACCEPT 0)"
  using Start_succeeds [OF assms] by blast

theorem Start_posts_accepts_witness:
  "\<exists>st'. Start start_good True tcp_init = (True, st') \<and> m_vecWorkThread st' = 4
    \<and> length (port_queue st') = 256"
  using Start_posts_accepts [of tcp_init start_good True]
  by (auto simp: start_good_def tcp_init_def INVALID_SOCKET_def)

end
