(* ===== verification/TcpRun.thy ===== *)
theory TcpRun
  imports TcpProperties
begin

text \<open>
  What a running server tells its receiver over a whole run. \<open>TcpProperties\<close> has one call of \<open>SaveData\<close> and one completed receive;
  here the receives of all connections, the sends, the disconnects and the posted packets come in any order, and a trace records what
  each receive delivered and told.
\<close>

section \<open>Traces\<close>

text \<open>
  A receipt: the I/O context whose receive ended with data, the number that the worker found behind the key of the completion, the
  data, and what the receiver was told in this pass.
\<close>

record receipt =
  r_context :: nat
  r_number :: dword
  r_data :: "byte list"
  r_told :: "told list"

definition number_of :: "tcp_server \<Rightarrow> key \<Rightarrow> dword" where
  "number_of st k = (case key_connID st k of Inl e \<Rightarrow> 0 | Inr n \<Rightarrow> n)"

text \<open>The receipts of one pass: none unless a receive has ended well and with data.\<close>

definition receipts :: "os_answers \<Rightarrow> nat \<Rightarrow> key \<Rightarrow> byte list \<Rightarrow> tcp_server \<Rightarrow> tcp_server \<Rightarrow> receipt list" where
  "receipts ans a k data st st' =
     (if data \<noteq> [] \<and> (aw_result ans \<or> aw_error ans = 0) \<and> (\<exists>c. io_store st a = Some c \<and> so c = SO_READ)
      then [\<lparr>r_context = a, r_number = number_of st k, r_data = data, r_told = drop (length (tellings st)) (tellings st')\<rparr>]
      else [])"

text \<open>
  The steps of \<^const>\<open>server_step\<close>, in a system whose heap is not exhausted and whose kernel reports the bytes that it has written.
\<close>

inductive traced_step :: "(byte list \<Rightarrow> int) \<Rightarrow> tcp_server \<Rightarrow> receipt list \<Rightarrow> tcp_server \<Rightarrow> bool" for wide_len where
  posted: "port_queue st = Posted n k # ps \<Longrightarrow> m_dwConnID st \<noteq> -1 \<Longrightarrow> aw_error ans \<noteq> WSA_IO_PENDING \<Longrightarrow>
    worker_pass ans (Posted n k) (st\<lparr>port_queue := ps\<rparr>) = Inr (b, st') \<Longrightarrow> traced_step wide_len st [] st'"
| ended: "(a, k) \<in> set (in_flight st) \<Longrightarrow> length data \<le> MAX_BUFFER \<Longrightarrow> m_dwConnID st \<noteq> -1 \<Longrightarrow>
    aw_error ans \<noteq> WSA_IO_PENDING \<Longrightarrow> unat (if aw_result ans then n else aw_bytes ans) = length data \<Longrightarrow>
    \<forall>m. aw_alloc ans m \<Longrightarrow> aw_wide_len ans = wide_len \<Longrightarrow>
    worker_pass ans (Done n k a) (kernel_ends a data st) = Inr (b, st') \<Longrightarrow>
    traced_step wide_len st (receipts ans a k data st st') st'"
| sends: "Send ios k data flag st = Inr (r, st') \<Longrightarrow> traced_step wide_len st [] st'"
| sends_text: "SendEx ios acp utf8 k text st = Inr (r, st') \<Longrightarrow> traced_step wide_len st [] st'"
| disconnects: "Disconnect io k force st = Inr (r, st') \<Longrightarrow> traced_step wide_len st [] st'"

inductive traced :: "(byte list \<Rightarrow> int) \<Rightarrow> tcp_server \<Rightarrow> receipt list \<Rightarrow> tcp_server \<Rightarrow> bool" for wide_len st where
  traced_nil: "traced wide_len st [] st"
| traced_snoc: "traced wide_len st hist st' \<Longrightarrow> traced_step wide_len st' rs st'' \<Longrightarrow> traced wide_len st (hist @ rs) st''"

lemma traced_step_server: "traced_step wide_len st rs st' \<Longrightarrow> server_step st st'"
  by (induction rule: traced_step.induct) (blast intro: server_step.intros)+

text \<open>The data that came through one context, piece by piece, and what was told of it.\<close>

definition pieces_of :: "nat \<Rightarrow> receipt list \<Rightarrow> byte list list" where
  "pieces_of a hist = map r_data (filter (\<lambda>r. r_context r = a) hist)"

definition told_of :: "nat \<Rightarrow> receipt list \<Rightarrow> told list" where
  "told_of a hist = concat (map r_told (filter (\<lambda>r. r_context r = a) hist))"

lemma pieces_of_simps [simp]:
  "pieces_of a [] = []" "pieces_of a (hist @ hist') = pieces_of a hist @ pieces_of a hist'"
  "pieces_of a [r] = (if r_context r = a then [r_data r] else [])"
  by (simp_all add: pieces_of_def)

lemma told_of_simps [simp]:
  "told_of a [] = []" "told_of a (hist @ hist') = told_of a hist @ told_of a hist'"
  "told_of a [r] = (if r_context r = a then r_told r else [])"
  by (simp_all add: told_of_def)

section \<open>Specification\<close>

text \<open>Cutting a stream that comes in pieces: the messages, and what is left waiting.\<close>

fun cut_pieces :: "byte list \<Rightarrow> byte list list \<Rightarrow> (byte list list \<times> byte list) res" where
  "cut_pieces r [] = Inr ([], r)"
| "cut_pieces r (p # ps) =
     rbind (deframe (r @ p)) (\<lambda>(ms, r'). rbind (cut_pieces r' ps) (\<lambda>(ms', r''). Inr (ms @ ms', r'')))"

lemma cut_pieces_snoc:
  "cut_pieces r (ps @ [p]) =
     rbind (cut_pieces r ps) (\<lambda>(ms, r'). rbind (deframe (r' @ p)) (\<lambda>(ms', r''). Inr (ms @ ms', r'')))"
proof (induction ps arbitrary: r)
  case Nil
  show ?case by (cases "deframe (r @ p)") auto
next
  case (Cons q ps)
  show ?case
  proof (cases "deframe (r @ q)")
    case (Inr x)
    obtain ms r' where x: "x = (ms, r')" by fastforce
    show ?thesis
    proof (cases "cut_pieces r' ps")
      case (Inr y)
      obtain ms' r'' where y: "y = (ms', r'')" by fastforce
      show ?thesis using Inr \<open>deframe (r @ q) = Inr x\<close> by (cases "deframe (r'' @ p)") (auto simp: x y Cons.IH)
    qed (simp add: \<open>deframe (r @ q) = Inr x\<close> x Cons.IH)
  qed simp
qed

text \<open>
  On the bytes of a sender the messages are those that have arrived completely, whatever the pieces: the next one is not all there.
\<close>

lemma cut_pieces_wire:
  assumes "(r @ concat ps) @ rest = wire msgs" and "\<forall>m \<in> set msgs. fits_packet (snd m)"
    and "holds_pending io r"
  shows "\<exists>got todo part. msgs = got @ todo \<and> cut_pieces r ps = Inr (map snd got, part) \<and> part @ rest = wire todo
    \<and> (\<exists>io. holds_pending io part)"
  using assms
proof (induction ps arbitrary: r msgs io)
  case Nil
  then show ?case by (intro exI [of _ "[]"] exI [of _ msgs] exI [of _ r]) auto
next
  case (Cons p ps)
  obtain got todo part where 1: "msgs = got @ todo" "deframe (r @ p) = Inr (map snd got, part)" "part @ concat ps @ rest = wire todo"
    using deframe_prefix [of "r @ p" "concat ps @ rest" msgs] Cons.prems(1,2) by auto
  from SaveData_framed [of "\<lambda>_. True" "\<lambda>_. 1", OF _ _ Cons.prems(3), where buf = p] 1(2) obtain io' where "holds_pending io' part"
    by (auto simp: framed_def)
  with Cons.IH [of part todo io'] 1 Cons.prems(2) obtain got' todo' part' where 2: "todo = got' @ todo'"
      "cut_pieces part ps = Inr (map snd got', part')" "part' @ rest = wire todo'" "\<exists>io. holds_pending io part'"
    by auto
  then show ?case using 1 by (intro exI [of _ "got @ got'"] exI [of _ todo'] exI [of _ part']) simp
qed

lemma pending_incomplete:
  assumes "holds_pending io part" and "part @ rest = wire (m # todo)" and "fits_packet (snd m)"
  shows "length part < length (snd m) + 15"
proof (rule ccontr)
  obtain param data where m: "m = (param, data)" by fastforce
  assume "\<not> ?thesis"
  then have r: "length data + 15 \<le> length part" by (simp add: m)
  then have "GetPacketLen part = int (length data) + 15"
    using GetPacketLen_wire [of part rest param data todo] assms(2,3) by (simp add: m)
  with r assms(1) show False by (simp add: holds_pending_def split: if_splits)
qed

section \<open>What leaves the streams alone\<close>

text \<open>
  Nothing is told, and every context that is there has its waiting bytes as before, or is new and has none.
\<close>

definition same_rcv :: "tcp_server \<Rightarrow> tcp_server \<Rightarrow> bool" where
  "same_rcv st st' \<longleftrightarrow>
     m_pRecevier st' = m_pRecevier st \<and> tellings st' = tellings st \<and> io_next st \<le> io_next st'
     \<and> (\<forall>a c'. io_store st' a = Some c' \<longrightarrow>
           (\<exists>c. io_store st a = Some c \<and> rcv c' = rcv c) \<or> (io_next st \<le> a \<and> rcv c' = rcv_clean))"

lemma same_rcv_refl [simp]: "same_rcv st st"
  by (simp add: same_rcv_def)

lemma same_rcv_trans: "same_rcv s t \<Longrightarrow> same_rcv t u \<Longrightarrow> same_rcv s u"
proof -
  assume st: "same_rcv s t" and tu: "same_rcv t u"
  have "(\<exists>c. io_store s a = Some c \<and> rcv c' = rcv c) \<or> (io_next s \<le> a \<and> rcv c' = rcv_clean)" if u: "io_store u a = Some c'" for a c'
  proof -
    from tu u consider c where "io_store t a = Some c" "rcv c' = rcv c" | "io_next t \<le> a" "rcv c' = rcv_clean"
      unfolding same_rcv_def by blast
    then show ?thesis
    proof cases
      case 1
      then show ?thesis using st unfolding same_rcv_def by metis
    next
      case 2
      then show ?thesis using st unfolding same_rcv_def by simp
    qed
  qed
  then show ?thesis using st tu unfolding same_rcv_def by auto
qed

lemma same_rcv_calls [simp]:
  "same_rcv st (call c st)" "same_rcv st (post_status p st)" "same_rcv st (sc_put a s st)"
  "same_rcv st (ManualCloseSocket sk f g r st)" "same_rcv st (AddClientSocket k a st)" "same_rcv st (issue a sk st)"
  "same_rcv st (st\<lparr>m_dwConnID := n\<rparr>)" "same_rcv st (st\<lparr>sock_keys := ks\<rparr>)" "same_rcv st (st\<lparr>exited := e\<rparr>)"
  "same_rcv st (st\<lparr>port_queue := q\<rparr>)"
  by (simp_all add: same_rcv_def call_def post_status_def sc_put_def ManualCloseSocket_def AddClientSocket_def issue_def Let_def)

lemma same_rcv_put: "io_at st a = Inr c \<Longrightarrow> rcv c' = rcv c \<Longrightarrow> same_rcv st (io_put a c' st)"
  by (auto simp: same_rcv_def io_put_def io_at_def split: option.splits)

lemma same_rcv_AddFreeIO [simp]: "same_rcv st (AddFreeIOContext a st)"
proof -
  obtain l store where t: "trim_free m_dwFreeIOPool m_dwFreeIOHold (m_lsFreeIOContext st @ [a]) (io_store st) = (l, store)" by fastforce
  then have "store x = Some c \<Longrightarrow> io_store st x = Some c" for x c
    by (auto simp: trim_free_def restrict_map_def split: if_splits prod.splits)
  with t show ?thesis by (auto simp: same_rcv_def AddFreeIOContext_def)
qed

lemma same_rcv_GetFreeIO: "GetFreeIOContext st = (a, st') \<Longrightarrow> same_rcv st st'"
  by (auto simp: GetFreeIOContext_def same_rcv_def io_put_def io_clean_def Let_def split: list.splits if_splits)

lemma same_rcv_AddFreeSocket: "AddFreeSocketContext k st = Inr st' \<Longrightarrow> same_rcv st st'"
  by (cases "trim_free m_dwFreeSocketPool m_dwFreeSocketHold
        (m_lsFreeSocketContext st @ [the (FindSocketContext k st)]) (sc_store st)")
    (auto simp: AddFreeSocketContext_def same_rcv_def ManualCloseSocket_def call_def rbind_eq_Inr Let_def split: option.splits)

lemma same_rcv_GetFreeSocket: "GetFreeSocketContext k sk st = Inr (a, st') \<Longrightarrow> same_rcv st st'"
  by (auto simp: GetFreeSocketContext_def same_rcv_def sc_put_def rbind_eq_Inr Let_def split: list.splits)

lemma same_rcv_Post:
  shows "PostAccept ans l sk a st = Inr (r, st') \<Longrightarrow> same_rcv st st'"
    and "PostSend ans a st = Inr (r, st') \<Longrightarrow> same_rcv st st'"
    and "PostReceive ans a st = Inr (r, st') \<Longrightarrow> same_rcv st st'"
proof -
  have then_call: "same_rcv st (issue b s (call x (io_put a c' st)))" "same_rcv st (call x (io_put a c' st))"
    if "io_at st a = Inr c" "rcv c' = rcv c" for c c' b s x
    using same_rcv_trans [OF same_rcv_trans [OF same_rcv_put [OF that] same_rcv_calls(1)] same_rcv_calls(6)]
      same_rcv_trans [OF same_rcv_put [OF that] same_rcv_calls(1)] by simp_all
  show "PostAccept ans l sk a st = Inr (r, st') \<Longrightarrow> same_rcv st st'"
    by (cases "io_at st a") (auto simp: PostAccept_def Let_def then_call split: if_splits)
  show "PostSend ans a st = Inr (r, st') \<Longrightarrow> same_rcv st st'"
    by (cases "io_at st a") (auto simp: PostSend_def Let_def then_call split: if_splits)
  show "PostReceive ans a st = Inr (r, st') \<Longrightarrow> same_rcv st st'"
    by (cases "io_at st a") (auto simp: PostReceive_def Let_def then_call split: if_splits)
qed

lemma same_rcv_Accept:
  assumes "ProcessAccept ans pIO st = Inr (r, st')"
  shows "same_rcv st st'"
proof (rule ProcessAccept_steps [OF assms])
  fix c :: io_context and a st1 and s :: socket_context
  let ?k = "next_connID (m_dwConnID st)"
  assume 1: "GetFreeSocketContext ?k (sockAccept c) (accept_start st) = Inr (a, st1)" "sc_at st1 a = Inr s"
    "accept_ends ans pIO ?k (sockAccept c) a s st1 st'"
  let ?e = "accept_entered ans (sockAccept c) ?k a s st1"
  have "same_rcv st (accept_start st)" by (rule same_rcv_trans [OF same_rcv_calls(2) same_rcv_calls(7)])
  from same_rcv_trans [OF this same_rcv_GetFreeSocket [OF 1(1)]] have "same_rcv st st1" .
  from same_rcv_trans [OF same_rcv_trans [OF same_rcv_trans [OF this same_rcv_calls(3)] same_rcv_calls(5)] same_rcv_calls(1)]
  have e: "same_rcv st ?e" .
  from 1(3) show ?thesis unfolding accept_ends_def
  proof (elim exE disjE conjE, goal_cases)
    case (1 st3)
    from same_rcv_trans [OF same_rcv_trans [OF e same_rcv_AddFreeSocket [OF 1(1)]] same_rcv_AddFreeIO] 1(2) show ?case by simp
  next
    case (2 st3 keys rr)
    from same_rcv_trans [OF same_rcv_trans [OF e same_rcv_calls(8)] same_rcv_Post(3) [OF 2(1)]] have "same_rcv st st3" .
    with same_rcv_trans [OF this same_rcv_AddFreeIO] 2(2) show ?case by simp
  qed
qed

lemma send_loop_pass:
  assumes run: "send_loop False ans pSock pBuf nLen off remain st = Inr (r, st')" and some: "remain \<noteq> 0"
  obtains a st1 c buf r1 st3 and s :: socket_context where "GetFreeIOContext st = (a, st1)" "io_at st1 a = Inr c"
    "PostSend (ans off) a (io_put a (c\<lparr>szBuf := buf, wsa_len := nLen, so := SO_WRITE, sockAccept := sc_sock s\<rparr>) st1) = Inr (r1, st3)"
    "if r1 \<noteq> 0 then st' = AddFreeIOContext a st3
     else send_loop False ans pSock pBuf nLen (off + min remain MAX_BUFFER) (remain - min remain MAX_BUFFER) st3 = Inr (r, st')"
proof -
  obtain a st1 where get: "GetFreeIOContext st = (a, st1)" by fastforce
  from run some get obtain c src buf s where parts: "io_at st1 a = Inr c" "mem_read pBuf off nLen = Inr src"
      "mem_write (szBuf c) 0 src = Inr buf" "sc_at st1 pSock = Inr s"
    by (auto simp: send_loop.simps [of False ans pSock pBuf nLen off remain] rbind_eq_Inr Let_def)
  let ?st2 = "io_put a (c\<lparr>szBuf := buf, wsa_len := nLen, so := SO_WRITE, sockAccept := sc_sock s\<rparr>) st1"
  obtain r1 st3 where post: "PostSend (ans off) a ?st2 = Inr (r1, st3)"
    using run some get parts
    by (cases "PostSend (ans off) a ?st2") (auto simp: send_loop.simps [of False ans pSock pBuf nLen off remain] Let_def)
  show thesis
    by (rule that [OF get parts(1) post])
      (use run some get parts post in \<open>auto simp: send_loop.simps [of False ans pSock pBuf nLen off remain] Let_def split: if_splits\<close>)
qed

lemma same_rcv_send_loop: "send_loop False ans pSock pBuf nLen off remain st = Inr (r, st') \<Longrightarrow> same_rcv st st'"
proof (induction remain arbitrary: off st rule: less_induct)
  case (less remain)
  show ?case
  proof (cases "remain = 0")
    case True
    with less.prems show ?thesis by (simp add: send_loop.simps)
  next
    case False
    from less.prems False obtain a st1 c buf r1 st3 and s :: socket_context where parts: "GetFreeIOContext st = (a, st1)" "io_at st1 a = Inr c"
        "PostSend (ans off) a (io_put a (c\<lparr>szBuf := buf, wsa_len := nLen, so := SO_WRITE, sockAccept := sc_sock s\<rparr>) st1) = Inr (r1, st3)"
        "if r1 \<noteq> 0 then st' = AddFreeIOContext a st3
         else send_loop False ans pSock pBuf nLen (off + min remain MAX_BUFFER) (remain - min remain MAX_BUFFER) st3 = Inr (r, st')"
      by (rule send_loop_pass)
    have "same_rcv st1 (io_put a (c\<lparr>szBuf := buf, wsa_len := nLen, so := SO_WRITE, sockAccept := sc_sock s\<rparr>) st1)"
      by (rule same_rcv_put [OF parts(2)]) simp
    from same_rcv_trans [OF same_rcv_trans [OF same_rcv_GetFreeIO [OF parts(1)] this] same_rcv_Post(2) [OF parts(3)]]
    have st3: "same_rcv st st3" .
    have "remain - min remain MAX_BUFFER < remain" using False by (simp add: MAX_BUFFER_def)
    then show ?thesis
      using parts(4) less.IH same_rcv_trans [OF st3] same_rcv_trans [OF st3 same_rcv_AddFreeIO] by (cases "r1 = 0") auto
  qed
qed

lemma same_rcv_do_send: "do_send False ans k pBuf n st = Inr (r, st') \<Longrightarrow> same_rcv st st'"
  by (auto simp: do_send_def rbind_eq_Inr dest: same_rcv_send_loop split: option.splits)

lemma same_rcv_interface:
  "Send ans k pBuf flag st = Inr (r, st') \<Longrightarrow> same_rcv st st'"
  "SendEx ans acp utf8 k s st = Inr (r, st') \<Longrightarrow> same_rcv st st'"
  "Disconnect io k f st = Inr (r, st') \<Longrightarrow> same_rcv st st'"
  by (auto simp: Send_def SendEx_def Disconnect_def rbind_eq_Inr Let_def dest: same_rcv_do_send split: if_splits option.splits)

lemma same_rcv_Posted:
  assumes run: "worker_pass ans (Posted n k) st = Inr (b, st')"
  shows "same_rcv st st'"
proof (cases "n = IOCP_SI_ACCEPT")
  case True
  obtain a st1 where get: "GetFreeIOContext st = (a, st1)" by fastforce
  from True run get obtain r st2 where post: "PostAccept (aw_accept ans) (m_sockListen st1) (aw_socket ans) a st1 = Inr (r, st2)"
      "st' = (if r \<noteq> 0 then AddFreeIOContext a (ManualCloseSocket (aw_socket ans) 255 True False st2) else st2)"
    by (cases "PostAccept (aw_accept ans) (m_sockListen st1) (aw_socket ans) a st1") (auto simp: worker_pass_def)
  have "same_rcv st st2" by (rule same_rcv_trans [OF same_rcv_GetFreeIO [OF get] same_rcv_Post(1) [OF post(1)]])
  with same_rcv_trans [OF same_rcv_trans [OF this same_rcv_calls(4)] same_rcv_AddFreeIO] post(2) show ?thesis by simp
next
  case False
  with run show ?thesis
    by (auto simp: worker_pass_def rbind_eq_Inr dest: same_rcv_AddFreeSocket split: if_splits option.splits)
qed

lemma same_rcv_kernel: "same_rcv st (kernel_ends a data st)"
  by (cases "io_store st a") (auto simp: kernel_ends_def same_rcv_def io_put_def)

section \<open>A receive\<close>

text \<open>What a receive does to the streams: \<open>a\<close>'s gets the new bytes, all others stay.\<close>

definition reads_on :: "(byte list \<Rightarrow> int) \<Rightarrow> dword \<Rightarrow> nat \<Rightarrow> byte list \<Rightarrow> byte list \<Rightarrow> tcp_server \<Rightarrow> tcp_server \<Rightarrow> bool" where
  "reads_on wide_len k a r data st st' \<longleftrightarrow>
     (\<exists>ms r'. deframe (r @ data) = Inr (ms, r')
        \<and> tellings st' = tellings st @ map (\<lambda>m. (k, delivery_of wide_len m)) ms
        \<and> m_pRecevier st' \<and> io_next st \<le> io_next st'
        \<and> (\<forall>c'. io_store st' a = Some c' \<longrightarrow> holds_pending (rcv c') r')
        \<and> (\<forall>b c'. b \<noteq> a \<longrightarrow> io_store st' b = Some c' \<longrightarrow>
              (\<exists>c. io_store st b = Some c \<and> rcv c' = rcv c) \<or> (io_next st \<le> b \<and> rcv c' = rcv_clean)))"

lemma ProcessReceive_reads:
  assumes env: "\<forall>m. aw_alloc ans m" "\<forall>s. 0 < aw_wide_len ans s" and rcv: "m_pRecevier st"
    and c: "io_store st a = Some c" "holds_pending (rcv c) r" "a < io_next st"
    and run: "ProcessReceive ans k k a n st = Inr (x, st')"
  shows "reads_on (aw_wide_len ans) k a r (take n (szBuf c)) st st'"
proof -
  have at: "io_at st a = Inr c" using c(1) by (simp add: io_at_def)
  obtain buf where read: "mem_read (szBuf c) 0 n = Inr buf"
    using run at by (cases "mem_read (szBuf c) 0 n") (simp_all add: ProcessReceive_def)
  then have buf: "buf = take n (szBuf c)" by (auto simp: mem_read_def split: if_splits)
  obtain io out where save: "SaveData (aw_alloc ans) (aw_wide_len ans) True (rcv c) buf = Inr (io, out)"
    using run at read rcv by (cases "SaveData (aw_alloc ans) (aw_wide_len ans) True (rcv c) buf") (auto simp: ProcessReceive_def)
  from SaveData_framed [OF env c(2), where buf = buf] save obtain ms r' where cut: "deframe (r @ buf) = Inr (ms, r')"
      "out = map (delivery_of (aw_wide_len ans)) ms" "holds_pending io r'"
    by (auto simp: framed_def split: sum.splits)
  let ?ts = "tellings st @ map (\<lambda>m. (k, delivery_of (aw_wide_len ans) m)) ms"
  let ?c = "c\<lparr>io_connID := k, rcv := io, wsa_len := MAX_BUFFER\<rparr>"
  let ?st1 = "(io_put a ?c st)\<lparr>tellings := ?ts\<rparr>"
  have "rbind (PostReceive (aw_recv ans) a ?st1) (\<lambda>(result, st).
      if result \<noteq> 0 then rbind (AddFreeSocketContext k st) (\<lambda>st. Inr (result, AddFreeIOContext a st))
      else Inr (result, st)) = Inr (x, st')"
    using run at read rcv save by (simp add: ProcessReceive_def Let_def cut(2) comp_def delivery_of_def)
  then have same: "same_rcv ?st1 st'"
    by (cases "PostReceive (aw_recv ans) a ?st1")
      (auto simp: rbind_eq_Inr split: if_splits intro: same_rcv_Post(3)
        same_rcv_trans [OF same_rcv_trans [OF same_rcv_Post(3) same_rcv_AddFreeSocket] same_rcv_AddFreeIO])
  have store: "io_store ?st1 = (io_store st)(a \<mapsto> ?c)" "io_next ?st1 = io_next st" "tellings ?st1 = ?ts" "m_pRecevier ?st1"
    using rcv by (simp_all add: io_put_def)
  have mine: "holds_pending (rcv c') r'" if "io_store st' a = Some c'" for c'
    using same that c(3) cut(3) unfolding same_rcv_def store by fastforce
  have others: "(\<exists>c. io_store st b = Some c \<and> rcv c' = rcv c) \<or> (io_next st \<le> b \<and> rcv c' = rcv_clean)"
    if "b \<noteq> a" "io_store st' b = Some c'" for b c'
    using same that unfolding same_rcv_def store by fastforce
  have "tellings st' = ?ts" "m_pRecevier st'" "io_next st \<le> io_next st'" using same store(4) unfolding same_rcv_def store(2,3) by auto
  with cut(1) mine others show ?thesis unfolding reads_on_def buf by blast
qed

text \<open>A pass that takes the end of an operation: without a receipt it leaves the streams alone, with one it is a receive.\<close>

lemma key_connID_kernel: "key_connID (kernel_ends a data st) k = key_connID st k"
  by (cases "io_store st a")
    (auto simp: key_connID_def kernel_ends_def sc_at_def io_at_def io_put_def split: key.splits option.splits)

lemma same_rcv_Done:
  assumes run: "worker_pass ans (Done n k a) st = Inr (b, st')" and c: "io_store st a = Some c"
    and not: "so c \<noteq> SO_READ \<or> \<not> (aw_result ans \<or> aw_error ans = 0) \<or> (if aw_result ans then n else aw_bytes ans) = 0"
  shows "same_rcv st st'"
  using run c
proof (cases rule: Done_cases)
  case (freed k' st1)
  with same_rcv_trans [OF same_rcv_AddFreeSocket same_rcv_AddFreeIO] show ?thesis by blast
next
  case refused
  with same_rcv_trans [OF same_rcv_trans [OF same_rcv_calls(4) same_rcv_calls(2)] same_rcv_AddFreeIO] show ?thesis by blast
next
  case (dispatched k' n')
  then have "so c \<noteq> SO_READ" using not by auto
  with dispatched(5) show ?thesis
    by (auto simp: worker_dispatch_def rbind_eq_Inr ProcessSend_def dest: same_rcv_Accept split: socket_operation.splits)
qed simp_all

lemma reads_Done:
  assumes run: "worker_pass ans (Done n k a) st = Inr (b, st')" and c: "io_store st a = Some c" "so c = SO_READ"
    and no_error: "aw_result ans \<or> aw_error ans = 0" and some: "(if aw_result ans then n else aw_bytes ans) \<noteq> 0"
  shows "\<exists>x. ProcessReceive ans (number_of st k) (number_of st k) a (unat (if aw_result ans then n else aw_bytes ans)) st = Inr (x, st')"
proof -
  have at: "io_at st a = Inr c" using c by (simp add: io_at_def)
  from run at c(2) obtain k' where k': "key_connID st k = Inr k'"
    by (cases "key_connID st k") (simp_all add: worker_pass_def)
  let ?n = "if aw_result ans then n else aw_bytes ans"
  have "worker_dispatch ans k' ?n a SO_READ st = Inr st'"
    using run at c(2) k' no_error some
    by (cases "worker_dispatch ans k' ?n a SO_READ st") (auto simp: worker_pass_def Let_def split: if_splits)
  then show ?thesis by (auto simp: worker_dispatch_def rbind_eq_Inr number_of_def k')
qed

section \<open>The invariant\<close>

definition stream_ok :: "(byte list \<Rightarrow> int) \<Rightarrow> receipt list \<Rightarrow> tcp_server \<Rightarrow> nat \<Rightarrow> bool" where
  "stream_ok wide_len hist st a \<longleftrightarrow>
     (\<exists>ms r. cut_pieces [] (pieces_of a hist) = Inr (ms, r) \<and> map snd (told_of a hist) = map (delivery_of wide_len) ms
        \<and> (\<forall>c. io_store st a = Some c \<longrightarrow> holds_pending (rcv c) r) \<and> (io_next st \<le> a \<longrightarrow> pieces_of a hist = []))"

definition streams_ok :: "(byte list \<Rightarrow> int) \<Rightarrow> receipt list \<Rightarrow> tcp_server \<Rightarrow> bool" where
  "streams_ok wide_len hist st \<longleftrightarrow>
     server_ok [] st \<and> m_pRecevier st \<and> tellings st = concat (map r_told hist) \<and> (\<forall>a. stream_ok wide_len hist st a)
     \<and> (\<forall>r \<in> set hist. \<forall>t \<in> set (r_told r). fst t = r_number r)"

lemma stream_ok_same:
  assumes "stream_ok wide_len hist st a" and "io_next st \<le> io_next st'"
    and "\<And>c'. io_store st' a = Some c' \<Longrightarrow> (\<exists>c. io_store st a = Some c \<and> rcv c' = rcv c) \<or> (io_next st \<le> a \<and> rcv c' = rcv_clean)"
  shows "stream_ok wide_len hist st' a"
proof -
  from assms(1) obtain ms r where s: "cut_pieces [] (pieces_of a hist) = Inr (ms, r)" "map snd (told_of a hist) = map (delivery_of wide_len) ms"
      "\<And>c. io_store st a = Some c \<Longrightarrow> holds_pending (rcv c) r" "io_next st \<le> a \<Longrightarrow> pieces_of a hist = []"
    unfolding stream_ok_def by blast
  have "holds_pending (rcv c') r" if "io_store st' a = Some c'" for c'
    using assms(3) [OF that] s holds_pending_clean by auto
  moreover have "pieces_of a hist = []" if "io_next st' \<le> a" using s(4) assms(2) that by simp
  ultimately show ?thesis unfolding stream_ok_def using s(1,2) by blast
qed

lemma streams_ok_same:
  assumes ok: "streams_ok wide_len hist st" and same: "same_rcv st st'" and ok': "server_ok [] st'"
  shows "streams_ok wide_len hist st'"
proof -
  have "stream_ok wide_len hist st' a" for a
  proof (rule stream_ok_same)
    show "stream_ok wide_len hist st a" using ok by (simp add: streams_ok_def)
    show "io_next st \<le> io_next st'" using same by (simp add: same_rcv_def)
  qed (use same in \<open>simp add: same_rcv_def\<close>)
  with ok same ok' show ?thesis by (simp add: streams_ok_def same_rcv_def)
qed

lemma streams_ok_read:
  assumes ok: "streams_ok wide_len hist st" and reads: "\<And>r. stream_ok wide_len hist st a \<Longrightarrow>
      holds_pending (rcv c) r \<Longrightarrow> reads_on wide_len k a r data st st'"
    and c: "io_store st a = Some c" and a: "a < io_next st" and ok': "server_ok [] st'"
  shows "streams_ok wide_len (hist @ [\<lparr>r_context = a, r_number = k, r_data = data, r_told = drop (length (tellings st)) (tellings st')\<rparr>]) st'"
    (is "streams_ok _ (hist @ [?r]) _")
proof -
  have so: "stream_ok wide_len hist st b" for b using ok by (simp add: streams_ok_def)
  from so [of a] c obtain ms r where s: "cut_pieces [] (pieces_of a hist) = Inr (ms, r)"
      "map snd (told_of a hist) = map (delivery_of wide_len) ms" "holds_pending (rcv c) r"
    unfolding stream_ok_def by blast
  from reads [OF so s(3)] obtain ms' r' where 1: "deframe (r @ data) = Inr (ms', r')"
      "tellings st' = tellings st @ map (\<lambda>m. (k, delivery_of wide_len m)) ms'" "m_pRecevier st'" "io_next st \<le> io_next st'"
      "\<And>c'. io_store st' a = Some c' \<Longrightarrow> holds_pending (rcv c') r'"
      "\<And>b c'. b \<noteq> a \<Longrightarrow> io_store st' b = Some c' \<Longrightarrow>
         (\<exists>c. io_store st b = Some c \<and> rcv c' = rcv c) \<or> (io_next st \<le> b \<and> rcv c' = rcv_clean)"
    unfolding reads_on_def by blast
  have told: "r_told ?r = map (\<lambda>m. (k, delivery_of wide_len m)) ms'" by (simp add: 1(2))
  have "stream_ok wide_len (hist @ [?r]) st' b" for b
  proof (cases "b = a")
    case True
    have "cut_pieces [] (pieces_of a (hist @ [?r])) = Inr (ms @ ms', r')" by (simp add: cut_pieces_snoc s(1) 1(1))
    moreover have "map snd (told_of a (hist @ [?r])) = map (delivery_of wide_len) (ms @ ms')" by (simp add: s(2) 1(2) comp_def)
    ultimately show ?thesis unfolding True stream_ok_def using 1(4,5) a by (intro exI [of _ "ms @ ms'"] exI [of _ r']) auto
  next
    case False
    have "stream_ok wide_len hist st' b" by (rule stream_ok_same [OF so 1(4) 1(6) [OF False]])
    with False show ?thesis by (auto simp: stream_ok_def)
  qed
  with ok ok' 1(2,3) show ?thesis by (auto simp: streams_ok_def)
qed

lemma kernel_ends_context:
  "io_store st a = Some c \<Longrightarrow> io_store (kernel_ends a data st) a = Some (c\<lparr>szBuf := data @ drop (length data) (szBuf c)\<rparr>)"
  "tellings (kernel_ends a data st) = tellings st" "io_next (kernel_ends a data st) = io_next st"
  "m_pRecevier (kernel_ends a data st) = m_pRecevier st"
  by (cases "io_store st a"; simp add: kernel_ends_def io_put_def)+

lemma reads_on_kernel:
  assumes "reads_on wide_len k a r data (kernel_ends a d st) st'"
  shows "reads_on wide_len k a r data st st'"
proof -
  have "io_store (kernel_ends a d st) b = io_store st b" if "b \<noteq> a" for b
    using that by (cases "io_store st a") (simp_all add: kernel_ends_def io_put_def)
  with assms show ?thesis unfolding reads_on_def kernel_ends_context(2-) by metis
qed

lemma streams_ok_ended:
  assumes ok: "streams_ok wide_len hist st" and pos: "\<forall>s. 0 < wide_len s" and a: "(a, k) \<in> set (in_flight st)"
    and n: "unat (if aw_result ans then n else aw_bytes ans) = length data" and env: "\<forall>m. aw_alloc ans m" "aw_wide_len ans = wide_len"
    and run: "worker_pass ans (Done n k a) (kernel_ends a data st) = Inr (b, st')" and ok': "server_ok [] st'"
  shows "streams_ok wide_len (hist @ receipts ans a k data st st') st'"
proof -
  have io: "io_ok [] st" using ok by (simp add: streams_ok_def server_ok_def)
  then have "a \<in> dom (io_store st)" using a by (force simp: io_ok_def io_used_def)
  then obtain c where c: "io_store st a = Some c" by auto
  with io have below: "a < io_next st" by (force simp: io_ok_def io_pool_ok_def not_le)
  let ?st1 = "kernel_ends a data st" and ?c = "c\<lparr>szBuf := data @ drop (length data) (szBuf c)\<rparr>"
  let ?n = "if aw_result ans then n else aw_bytes ans"
  have c1: "io_store ?st1 a = Some ?c" by (rule kernel_ends_context(1) [OF c])
  have zero: "?n = 0 \<longleftrightarrow> data = []" using n by (metis length_0_conv unat_eq_zero)
  show ?thesis
  proof (cases "data \<noteq> [] \<and> (aw_result ans \<or> aw_error ans = 0) \<and> so c = SO_READ")
    case False
    then have none: "receipts ans a k data st st' = []" using c by (auto simp: receipts_def)
    have "same_rcv ?st1 st'" by (rule same_rcv_Done [OF run c1]) (use False zero in auto)
    from streams_ok_same [OF ok same_rcv_trans [OF same_rcv_kernel this] ok'] none show ?thesis by simp
  next
    case True
    then have one: "receipts ans a k data st st'
        = [\<lparr>r_context = a, r_number = number_of st k, r_data = data, r_told = drop (length (tellings st)) (tellings st')\<rparr>]"
      using c by (simp add: receipts_def)
    obtain x where p: "ProcessReceive ans (number_of st k) (number_of st k) a (length data) ?st1 = Inr (x, st')"
      using reads_Done [OF run c1] True zero unfolding n by (auto simp: number_of_def key_connID_kernel)
    have "reads_on wide_len (number_of st k) a r data st st'" if "holds_pending (rcv c) r" for r
    proof -
      have "reads_on (aw_wide_len ans) (number_of st k) a r (take (length data) (szBuf ?c)) ?st1 st'"
        by (rule ProcessReceive_reads [OF env(1) _ _ c1 _ _ p])
          (use pos env(2) that below ok in \<open>auto simp: kernel_ends_context streams_ok_def\<close>)
      then show ?thesis using reads_on_kernel by (simp add: env(2))
    qed
    from streams_ok_read [OF ok this c below ok'] one show ?thesis by simp
  qed
qed

lemma streams_ok_step:
  assumes "traced_step wide_len st rs st'" and "streams_ok wide_len hist st" and pos: "\<forall>s. 0 < wide_len s"
  shows "streams_ok wide_len (hist @ rs) st'"
  using assms(1,2)
proof (induction rule: traced_step.induct)
  case (posted st n k ps ans b st')
  have "same_rcv st st'" by (rule same_rcv_trans [OF same_rcv_calls(10) same_rcv_Posted [OF posted(4)]])
  moreover have "server_ok [] st'"
    using posted.prems server_step_ok [OF server_step.posted [OF posted(1-4)]] by (simp add: streams_ok_def)
  ultimately show ?case using streams_ok_same posted.prems by simp
next
  case (ended a k st data ans n b st')
  have "server_ok [] st'"
    using ended.prems server_step_ok [OF server_step.ended [OF ended(1-4,8)]] by (simp add: streams_ok_def)
  from streams_ok_ended [OF ended.prems pos ended(1,5-8) this] show ?case .
next
  case (sends ios k data flag st r st')
  have "server_ok [] st'" by (rule Send_ok [OF _ sends(1)]) (use sends.prems in \<open>simp add: streams_ok_def\<close>)
  from streams_ok_same [OF sends.prems same_rcv_interface(1) [OF sends(1)] this] show ?case by simp
next
  case (sends_text ios acp utf8 k cs st r st')
  have "server_ok [] st'" by (rule SendEx_ok [OF _ sends_text(1)]) (use sends_text.prems in \<open>simp add: streams_ok_def\<close>)
  from streams_ok_same [OF sends_text.prems same_rcv_interface(2) [OF sends_text(1)] this] show ?case by simp
next
  case (disconnects io k force st r st')
  have "server_ok [] st'" by (rule Disconnect_ok [OF _ disconnects(1)]) (use disconnects.prems in \<open>simp add: streams_ok_def\<close>)
  from streams_ok_same [OF disconnects.prems same_rcv_interface(3) [OF disconnects(1)] this] show ?case by simp
qed

lemma streams_ok_traced:
  assumes "traced wide_len st0 hist st" and "streams_ok wide_len [] st0" and "\<forall>s. 0 < wide_len s"
  shows "streams_ok wide_len hist st"
  using assms by (induction rule: traced.induct) (auto intro: streams_ok_step)

lemma streams_ok_started:
  assumes "Start ans True tcp_init = (b, st0)" and "m_pRecevier st0" and "tellings st0 = []"
  shows "streams_ok wide_len [] st0"
proof -
  have "server_ok [] st0" using Start_same [OF assms(1)] tcp_init_ok server_ok_same by blast
  moreover have "io_store st0 = Map.empty" using Start_same [OF assms(1)] by (simp add: same_io_def tcp_init_def)
  ultimately show ?thesis using assms(2,3) by (simp add: streams_ok_def stream_ok_def)
qed

lemma start_threads_rest: "start_threads ok i st = (b, st') \<Longrightarrow> m_pRecevier st' = m_pRecevier st \<and> tellings st' = tellings st"
proof (induction ok i st rule: start_threads.induct)
  case (1 ok i st)
  then show ?case by (auto simp: start_threads.simps [of ok i st] call_def split: if_splits)
qed

lemma post_accepts_rest [simp]: "m_pRecevier (post_accepts n st) = m_pRecevier st" "tellings (post_accepts n st) = tellings st"
  by (induction n arbitrary: st) (simp_all add: post_status_def)

lemma Start_rest:
  assumes "Start ans p tcp_init = (b, st)"
  shows "m_pRecevier st = p" and "tellings st = []"
proof -
  have "\<not> m_bRuning tcp_init" "tellings tcp_init = []" by (simp_all add: tcp_init_def)
  with assms show "m_pRecevier st = p" "tellings st = []"
    by (auto simp: Start_def Let_def call_def split: if_splits prod.splits dest!: start_threads_rest)
qed

section \<open>Properties\<close>

lemma streams_ok_run:
  assumes "Start ans True tcp_init = (b, st0)" and "\<forall>s. 0 < wide_len s" and "traced wide_len st0 hist st"
  shows "streams_ok wide_len hist st"
proof -
  have "streams_ok wide_len [] st0" by (rule streams_ok_started [OF assms(1)]) (simp_all add: Start_rest [OF assms(1)])
  from streams_ok_traced [OF assms(3) this assms(2)] show ?thesis .
qed

text \<open>C3: In every run of a started server, whatever the order of receives, sends, disconnects and posted packets on all connections,
  the receiver is told exactly what the receives have cut out of their streams: through each I/O context the messages of the one-pass
  specification on the pieces that came through it, in order, and in each pass under one number.\<close>

theorem streams_cut_in_every_run:
  assumes "Start ans True tcp_init = (b, st0)" and "\<forall>s. 0 < wide_len s" and "traced wide_len st0 hist st"
  shows "tellings st = concat (map r_told hist)
    \<and> (\<forall>r \<in> set hist. \<forall>t \<in> set (r_told r). fst t = r_number r)
    \<and> (\<forall>a. \<exists>ms rest. cut_pieces [] (pieces_of a hist) = Inr (ms, rest) \<and> map snd (told_of a hist) = map (delivery_of wide_len) ms)"
  using streams_ok_run [OF assms] unfolding streams_ok_def stream_ok_def by blast

lemma wire_append [simp]: "wire (ms @ ms') = wire ms @ wire ms'"
  by (simp add: wire_def)

lemma told_prefix:
  assumes ok: "streams_ok wide_len hist st"
    and stream: "concat (pieces_of a hist) @ rest = wire msgs" and fit: "\<forall>m \<in> set msgs. fits_packet (snd m)"
  shows "\<exists>got todo. msgs = got @ todo \<and> map snd (told_of a hist) = map (\<lambda>m. delivery_of wide_len (snd m)) got
    \<and> (\<forall>m todo'. todo = m # todo' \<longrightarrow> length (concat (pieces_of a hist)) < length (wire (got @ [m])))"
proof -
  from cut_pieces_wire [of "[]" "pieces_of a hist" rest msgs rcv_clean, OF _ fit holds_pending_clean] stream
  obtain got todo part io where 1: "msgs = got @ todo" "cut_pieces [] (pieces_of a hist) = Inr (map snd got, part)"
      "part @ rest = wire todo" "holds_pending io part"
    by auto
  have "stream_ok wide_len hist st a" using ok by (simp add: streams_ok_def)
  then have told: "map snd (told_of a hist) = map (\<lambda>m. delivery_of wide_len (snd m)) got" by (auto simp: stream_ok_def 1(2))
  have "concat (pieces_of a hist) @ rest = (wire got @ part) @ rest" using stream 1(1,3) by simp
  then have "concat (pieces_of a hist) = wire got @ part" by (simp only: append_same_eq)
  moreover have "length part < length (snd m) + 15" if "todo = m # todo'" for m todo'
    using pending_incomplete [OF 1(4)] 1(3) fit that by (simp add: 1(1))
  ultimately have "\<forall>m todo'. todo = m # todo' \<longrightarrow> length (concat (pieces_of a hist)) < length (wire (got @ [m]))"
    by (fastforce simp: wire_def)
  with 1(1) told show ?thesis by blast
qed

text \<open>C1: In every run of a started server: when the bytes that came through an I/O context are the beginning of what a peer has sent,
  the receiver has been told through it exactly the messages that have arrived completely, each once and in the order of the peer,
  however the network cut the bytes and whatever happened on the other connections in between.\<close>

theorem messages_told_in_every_run:
  assumes "Start ans True tcp_init = (b, st0)" and "\<forall>s. 0 < wide_len s" and "traced wide_len st0 hist st"
    and "concat (pieces_of a hist) @ rest = wire msgs" and "\<forall>m \<in> set msgs. fits_packet (snd m)"
  shows "\<exists>got todo. msgs = got @ todo \<and> map snd (told_of a hist) = map (\<lambda>m. delivery_of wide_len (snd m)) got
    \<and> (\<forall>m todo'. todo = m # todo' \<longrightarrow> length (concat (pieces_of a hist)) < length (wire (got @ [m])))"
  by (rule told_prefix [OF streams_ok_run [OF assms(1-3)] assms(4,5)])

section \<open>A run\<close>

text \<open>A worker posts an accept and a client connects.\<close>

lemma started_queue: "port_queue started = Posted IOCP_SI_ACCEPT 0 # replicate 255 (Posted IOCP_SI_ACCEPT 0)"
  using started_facts(3) by (simp add: numeral_eq_Suc)

lemma connected_client:
  obtains s1 k1 s2 where
    "worker_pass os_good (Posted IOCP_SI_ACCEPT 0) (started\<lparr>port_queue := replicate 255 (Posted IOCP_SI_ACCEPT 0)\<rparr>) = Inr (True, s1)"
    "in_flight s1 = [(0, k1)]" "m_dwConnID s1 = 0" "\<exists>c. io_store s1 0 = Some c \<and> so c = SO_ACCEPT"
    "worker_pass os_good (Done 0 k1 0) (kernel_ends 0 [] s1) = Inr (True, s2)"
    "io_store s2 = [0 \<mapsto> io_clean\<lparr>so := SO_READ, sockAccept := 77\<rparr>]" "in_flight s2 = [(0, KeySocket 0)]"
    "FindSocketContext 1 s2 = Some 0" "sc_store s2 0 = Some (socket_clean\<lparr>sc_connID := 1, sc_sock := 77, sc_addr := any_addr\<rparr>)"
    "m_dwConnID s2 = 1" "m_pRecevier s2" "tellings s2 = []" "m_bRuning s2"
proof -
  have rest: "m_pRecevier started" "tellings started = []" using Start_rest [OF started_facts(1)] by simp_all
  have fn: "m_pfnGetAcceptExSockaddrs started" "m_bRuning started"
    by (simp_all add: started_def Start_def Let_def start_good_def tcp_init_def INVALID_SOCKET_def start_threads_all post_accepts_queue)
  have socks: "m_lsFreeSocketContext started = []" "sc_next started = 0" "sc_store started = Map.empty"
    using Start_same [OF started_facts(1)] by (simp_all add: same_sock_def tcp_init_def)
  let ?st = "started\<lparr>port_queue := replicate 255 (Posted IOCP_SI_ACCEPT 0)\<rparr>"
  obtain s1 k1 where s1: "worker_pass os_good (Posted IOCP_SI_ACCEPT 0) ?st = Inr (True, s1)"
      "io_store s1 = [0 \<mapsto> io_clean\<lparr>so := SO_ACCEPT, sockAccept := 77\<rparr>]" "in_flight s1 = [(0, k1)]" "m_pfnGetAcceptExSockaddrs s1"
      "m_mpClientSocket s1 = []" "m_lsFreeSocketContext s1 = []" "sc_next s1 = 0" "sc_store s1 = Map.empty" "m_dwConnID s1 = 0"
      "m_pRecevier s1" "tellings s1 = []" "io_next s1 = 1" "m_lsFreeIOContext s1 = []" "m_hCompletionPort s1" "m_bRuning s1"
    using started_facts(2,4,5) started_empty rest fn socks
    by (auto simp: worker_pass_def os_good_def GetFreeIOContext_def io_put_def io_at_def PostAccept_def io_status_def WSA_IO_PENDING_def
        call_def issue_def Let_def)
  let ?k1 = "kernel_ends 0 [] s1"
  obtain s2 where s2: "worker_pass os_good (Done 0 k1 0) ?k1 = Inr (True, s2)"
      "io_store s2 = [0 \<mapsto> io_clean\<lparr>so := SO_READ, sockAccept := 77\<rparr>]" "in_flight s2 = [(0, KeySocket 0)]"
      "FindSocketContext 1 s2 = Some 0" "sc_store s2 0 = Some (socket_clean\<lparr>sc_connID := 1, sc_sock := 77, sc_addr := any_addr\<rparr>)"
      "m_dwConnID s2 = 1" "m_pRecevier s2" "tellings s2 = []" "m_bRuning s2"
    using s1(2-)
    by (auto simp: worker_pass_def worker_dispatch_def ProcessAccept_def post_status_def os_good_def kernel_ends_def io_put_def io_at_def
        next_connID_def GetFreeSocketContext_def sc_put_def sc_at_def AddClientSocket_def call_def PostReceive_def io_status_def
        WSA_IO_PENDING_def issue_def socket_clean_def io_clean_def FindSocketContext_def Let_def)
  show thesis by (rule that [OF s1(1,3,9) _ s2]) (simp add: s1(2))
qed

text \<open>Its packets come in one piece.\<close>

lemma one_piece_traced:
  assumes data: "0 < length data" "length data \<le> MAX_BUFFER" and cut: "deframe data = Inr (ms, [])"
  shows "\<exists>st. traced ascii_len started
      [\<lparr>r_context = 0, r_number = 1, r_data = data, r_told = map (\<lambda>m. (1, delivery_of ascii_len m)) ms\<rparr>] st"
proof -
  obtain s1 k1 s2 where
      s1: "worker_pass os_good (Posted IOCP_SI_ACCEPT 0) (started\<lparr>port_queue := replicate 255 (Posted IOCP_SI_ACCEPT 0)\<rparr>) = Inr (True, s1)"
      "in_flight s1 = [(0, k1)]" "m_dwConnID s1 = 0" "\<exists>c. io_store s1 0 = Some c \<and> so c = SO_ACCEPT"
    and s2: "worker_pass os_good (Done 0 k1 0) (kernel_ends 0 [] s1) = Inr (True, s2)"
      "io_store s2 = [0 \<mapsto> io_clean\<lparr>so := SO_READ, sockAccept := 77\<rparr>]" "in_flight s2 = [(0, KeySocket 0)]"
      "sc_store s2 0 = Some (socket_clean\<lparr>sc_connID := 1, sc_sock := 77, sc_addr := any_addr\<rparr>)"
      "m_dwConnID s2 = 1" "m_pRecevier s2" "tellings s2 = []"
    by (rule connected_client) blast
  let ?c2 = "io_clean\<lparr>so := SO_READ, sockAccept := 77\<rparr>" and ?n = "length data" and ?k2 = "kernel_ends 0 data s2"
  let ?c3 = "?c2\<lparr>szBuf := data @ drop ?n (replicate MAX_BUFFER 0)\<rparr>"
  have n: "unat (of_nat ?n :: dword) = ?n" using data(2) by (simp add: MAX_BUFFER_def unat_of_nat_dword)
  then have pos: "(of_nat ?n :: dword) \<noteq> 0" using data(1) by (metis less_numeral_extra(3) unat_0)
  have c2: "io_store ?k2 0 = Some ?c3"
    by (subst kernel_ends_context(1) [of _ _ ?c2]) (simp_all add: s2(2) io_clean_def)
  have key: "key_connID s2 (KeySocket 0) = Inr 1" by (simp add: key_connID_def sc_at_def s2(4))
  have "\<exists>s3 c'. ProcessReceive os_good 1 1 0 ?n ?k2 = Inr (0, s3)
      \<and> tellings s3 = tellings ?k2 @ map (\<lambda>m. (1, delivery_of (aw_wide_len os_good) m)) ms
      \<and> io_store s3 0 = Some c' \<and> holds_pending (rcv c') []"
    by (rule ProcessReceive_tells [where c = ?c3 and r = "[]"])
      (use c2 cut in \<open>simp_all add: os_good_def ascii_len_pos kernel_ends_context s2(6) io_clean_def holds_pending_clean io_status_def
        WSA_IO_PENDING_def\<close>)
  then obtain s3 where s3: "ProcessReceive os_good 1 1 0 ?n ?k2 = Inr (0, s3)"
      "tellings s3 = tellings ?k2 @ map (\<lambda>m. (1, delivery_of (aw_wide_len os_good) m)) ms" by blast
  have told: "tellings s3 = map (\<lambda>m. (1, delivery_of ascii_len m)) ms"
    by (simp add: s3(2) kernel_ends_context s2(7) os_good_def)
  have run3: "worker_pass os_good (Done (of_nat ?n) (KeySocket 0) 0) ?k2 = Inr (True, s3)"
    using c2 key s3(1) pos n by (simp add: worker_pass_def io_at_def key_connID_kernel worker_dispatch_def os_good_def Let_def)
  have "traced ascii_len started [] s1"
    using traced_snoc [OF traced_nil traced_step.posted [OF started_queue _ _ s1(1)]]
    by (simp add: started_facts(5) os_good_def WSA_IO_PENDING_def)
  from traced_snoc [OF this traced_step.ended [OF _ _ _ _ _ _ _ s2(1)]]
  have "traced ascii_len started (receipts os_good 0 k1 [] s1 s2) s2"
    by (simp add: s1(2,3) os_good_def WSA_IO_PENDING_def)
  then have "traced ascii_len started [] s2" by (simp add: receipts_def)
  from traced_snoc [OF this traced_step.ended [OF _ _ _ _ _ _ _ run3]]
  have "traced ascii_len started (receipts os_good 0 (KeySocket 0) data s2 s3) s3"
    using data(2) n by (simp add: s2(3,5) os_good_def WSA_IO_PENDING_def)
  moreover have "receipts os_good 0 (KeySocket 0) data s2 s3
      = [\<lparr>r_context = 0, r_number = 1, r_data = data, r_told = map (\<lambda>m. (1, delivery_of ascii_len m)) ms\<rparr>]"
    using data(1) by (simp add: receipts_def os_good_def s2(2,7) told number_of_def key)
  ultimately show ?thesis by auto
qed

lemma one_message_traced:
  "\<exists>st. traced ascii_len started [\<lparr>r_context = 0, r_number = 1, r_data = packet 50 [104], r_told = [(1, [104, 0], 2)]\<rparr>] st"
proof -
  have "deframe (packet 50 [104]) = Inr ([[104]], [])"
    using deframe_packet [of "[104]" 50 "[]"] by (simp add: deframe.simps [of "[]"])
  from one_piece_traced [OF _ _ this] show ?thesis by (simp add: MAX_BUFFER_def delivery_of_def ascii_len_def)
qed


lemma streams_cut_in_every_run_witness:
  "\<exists>hist st. traced ascii_len started hist st \<and> hist \<noteq> [] \<and> tellings st = concat (map r_told hist)"
proof -
  obtain st where st: "traced ascii_len started [\<lparr>r_context = 0, r_number = 1, r_data = packet 50 [104], r_told = [(1, [104, 0], 2)]\<rparr>] st"
      (is "traced _ _ ?hist _") using one_message_traced by blast
  have "tellings st = concat (map r_told ?hist)"
    using streams_cut_in_every_run [OF started_facts(1) ascii_len_pos st] by blast
  with st show ?thesis by blast
qed

lemma messages_told_in_every_run_witness:
  "\<exists>hist st. traced ascii_len started hist st \<and> concat (pieces_of 0 hist) = wire [(50, [104])] \<and> map snd (told_of 0 hist) = [([104, 0], 2)]"
proof -
  obtain st where st: "traced ascii_len started [\<lparr>r_context = 0, r_number = 1, r_data = packet 50 [104], r_told = [(1, [104, 0], 2)]\<rparr>] st"
      (is "traced _ _ ?hist _") using one_message_traced by blast
  have stream: "concat (pieces_of 0 ?hist) = wire [(50, [104])]" by (simp add: pieces_of_def)
  have "\<exists>got todo. [(50, [104])] = got @ todo \<and> map snd (told_of 0 ?hist) = map (\<lambda>m. delivery_of ascii_len (snd m)) got
    \<and> (\<forall>m todo'. todo = m # todo' \<longrightarrow> length (concat (pieces_of 0 ?hist)) < length (wire (got @ [m])))"
    by (rule messages_told_in_every_run [OF started_facts(1) ascii_len_pos st, of 0 "[]"]) (use stream in simp_all)
  then obtain got todo where g: "[(50, [104])] = got @ todo" "map snd (told_of 0 ?hist) = map (\<lambda>m. delivery_of ascii_len (snd m)) got"
      "\<forall>m todo'. todo = m # todo' \<longrightarrow> length (concat (pieces_of 0 ?hist)) < length (wire (got @ [m]))" by blast
  have "todo = []" using g(1,3) stream by (cases todo; cases got) auto
  with g(1,2) have "map snd (told_of 0 ?hist) = [([104, 0], 2)]" by (simp add: delivery_of_def ascii_len_def)
  with st stream show ?thesis by (intro exI conjI)
qed

end
