(* ===== verification/TcpSent.thy ===== *)
theory TcpSent
  imports TcpRun
begin

text \<open>
  What a running server puts on the sockets of its clients over a whole run: every thread that sends, the workers, the disconnects and
  the accepts take turns in any order.
\<close>

section \<open>Traces\<close>





definition sent_to :: "sock \<Rightarrow> (sock \<times> byte list) list \<Rightarrow> byte list list" where
  "sent_to sk es = map snd (filter (\<lambda>e. fst e = sk) es)"

lemma sent_to_simps [simp]: "sent_to sk [] = []" "sent_to sk (es @ es') = sent_to sk es @ sent_to sk es'"
  "sent_to sk [e] = (if fst e = sk then [snd e] else [])"
  by (simp_all add: sent_to_def)

section \<open>What sends nothing\<close>

definition same_sent :: "tcp_server \<Rightarrow> tcp_server \<Rightarrow> bool" where
  "same_sent st st' \<longleftrightarrow> (\<forall>sk. sent_on sk (calls st') = sent_on sk (calls st))"

lemma same_sent_refl [simp]: "same_sent st st"
  by (simp add: same_sent_def)










section \<open>Sends\<close>








section \<open>Runs\<close>





lemma post_accepts_sent [simp]: "calls (post_accepts n st) = calls st"
  by (induction n arbitrary: st) (simp_all add: post_status_def)






end
