(* ===== verification/TcpRace.thy ===== *)
theory TcpRace
  imports TcpSafety
begin

text \<open>
  The socket contexts under concurrency. \<open>TcpServer\<close> lets a worker run a whole pass as one step; here the operations that
  move socket contexts are cut where one critical section of \<^verbatim>\<open>TcpServer.cpp\<close> ends and the next begins, and the pieces of all
  threads come in any order.
\<close>

section \<open>Pieces\<close>

text \<open>
  What a thread holds: nothing; a pointer that \<open>FindSocketContext\<close> has returned for a number; a context that it has taken out of the
  map; a context that it has made for a new number.
\<close>

datatype holding = HoldsNothing | HoldsFound dword nat | HoldsErased nat | HoldsNew dword nat

record race =
  srv :: tcp_server
  hold_of :: "nat \<Rightarrow> holding"

text \<open>\<open>AddFreeSocketContext\<close> in three pieces.\<close>

definition close_find :: "nat \<Rightarrow> dword \<Rightarrow> race \<Rightarrow> race" where
  "close_find t dwConnID w =
     (case FindSocketContext dwConnID (srv w) of None \<Rightarrow> w | Some pSock \<Rightarrow> w\<lparr>hold_of := (hold_of w)(t := HoldsFound dwConnID pSock)\<rparr>)"

definition erase_client :: "dword \<Rightarrow> nat \<Rightarrow> tcp_server \<Rightarrow> tcp_server res" where
  "erase_client dwConnID pSock st =
     rbind (sc_at st pSock) (\<lambda>c.
     let st = ManualCloseSocket (sc_sock c) 255 True False st in
     Inr (st\<lparr>m_mpClientSocket := std_erase dwConnID (m_mpClientSocket st)\<rparr>))"

definition push_context :: "nat \<Rightarrow> tcp_server \<Rightarrow> tcp_server" where
  "push_context pSock st =
     (let (l, store) = trim_free m_dwFreeSocketPool m_dwFreeSocketHold (m_lsFreeSocketContext st @ [pSock]) (sc_store st) in
      st\<lparr>m_lsFreeSocketContext := l, sc_store := store\<rparr>)"

definition close_erase :: "nat \<Rightarrow> dword \<Rightarrow> nat \<Rightarrow> race \<Rightarrow> race res" where
  "close_erase t k a w =
     rbind (erase_client k a (srv w)) (\<lambda>st. Inr (w\<lparr>srv := st, hold_of := (hold_of w)(t := HoldsErased a)\<rparr>))"

definition close_push :: "nat \<Rightarrow> nat \<Rightarrow> race \<Rightarrow> race" where
  "close_push t a w = w\<lparr>srv := push_context a (srv w), hold_of := (hold_of w)(t := HoldsNothing)\<rparr>"

text \<open>In one go the pieces are \<open>AddFreeSocketContext\<close>.\<close>

lemma pieces_of_close:
  "AddFreeSocketContext k st =
     (case FindSocketContext k st of None \<Rightarrow> Inr st | Some a \<Rightarrow> rbind (erase_client k a st) (\<lambda>st. Inr (push_context a st)))"
  by (auto simp: AddFreeSocketContext_def erase_client_def push_context_def rbind_def ManualCloseSocket_def call_def Let_def
      split: option.splits sum.splits prod.splits)

text \<open>The new client of \<open>ProcessAccept\<close>: the number and the context with its address, then the map.\<close>

definition accept_take :: "nat \<Rightarrow> sock \<Rightarrow> sockaddr_in \<Rightarrow> race \<Rightarrow> race res" where
  "accept_take t socket pRemoteAddr w =
     (let connID = next_connID (m_dwConnID (srv w)); st = (srv w)\<lparr>m_dwConnID := connID\<rparr> in
      rbind (GetFreeSocketContext connID socket st) (\<lambda>(a, st).
      rbind (sc_at st a) (\<lambda>c.
      Inr (w\<lparr>srv := sc_put a (c\<lparr>sc_addr := pRemoteAddr\<rparr>) st, hold_of := (hold_of w)(t := HoldsNew connID a)\<rparr>))))"

definition accept_add :: "nat \<Rightarrow> dword \<Rightarrow> nat \<Rightarrow> race \<Rightarrow> race" where
  "accept_add t k a w = w\<lparr>srv := AddClientSocket k a (srv w), hold_of := (hold_of w)(t := HoldsNothing)\<rparr>"

inductive race_step :: "race \<Rightarrow> race \<Rightarrow> bool" where
  finds: "hold_of w t = HoldsNothing \<Longrightarrow> race_step w (close_find t k w)"
| erases: "hold_of w t = HoldsFound k a \<Longrightarrow> close_erase t k a w = Inr w' \<Longrightarrow> race_step w w'"
| pushes: "hold_of w t = HoldsErased a \<Longrightarrow> race_step w (close_push t a w)"
| takes: "hold_of w t = HoldsNothing \<Longrightarrow> accept_take t sk r w = Inr w' \<Longrightarrow> race_step w w'"
| adds: "hold_of w t = HoldsNew k a \<Longrightarrow> race_step w (accept_add t k a w)"

text \<open>No two threads have found the same client.\<close>

definition apart :: "race \<Rightarrow> bool" where
  "apart w \<longleftrightarrow> (\<forall>t t' k a a'. t \<noteq> t' \<and> hold_of w t = HoldsFound k a \<longrightarrow> hold_of w t' \<noteq> HoldsFound k a')"

text \<open>
  The runs from a server on which no thread holds a context; the runs in which no two threads find the same client, and the numbers
  last.
\<close>

definition race_start :: "tcp_server \<Rightarrow> race" where
  "race_start st = \<lparr>srv = st, hold_of = \<lambda>_. HoldsNothing\<rparr>"

inductive race_run :: "tcp_server \<Rightarrow> race \<Rightarrow> bool" for st where
  run_starts: "race_run st (race_start st)"
| run_goes: "race_run st w \<Longrightarrow> race_step w w' \<Longrightarrow> race_run st w'"

inductive apart_run :: "tcp_server \<Rightarrow> race \<Rightarrow> bool" for st where
  apart_starts: "apart_run st (race_start st)"
| apart_goes: "apart_run st w \<Longrightarrow> apart w \<Longrightarrow> m_dwConnID (srv w) \<noteq> -1 \<Longrightarrow> race_step w w' \<Longrightarrow> apart_run st w'"

section \<open>The pool in pieces\<close>

lemma erase_client_ok:
  assumes ok: "sock_pool_ok st" and k: "FindSocketContext k st = Some a"
  shows "\<exists>st'. erase_client k a st = Inr st' \<and> sock_pool_ok st' \<and> a \<notin> set (m_lsFreeSocketContext st' @ client_addrs st')
    \<and> m_mpClientSocket st' = std_erase k (m_mpClientSocket st) \<and> m_lsFreeSocketContext st' = m_lsFreeSocketContext st
    \<and> sc_store st' = sc_store st \<and> m_dwConnID st' = m_dwConnID st"
proof -
  have a: "a \<in> set (client_addrs st)" using k by (force simp: FindSocketContext_def client_addrs_def dest: map_of_SomeD)
  then obtain c where c: "sc_store st a = Some c" using ok by (auto simp: sock_pool_ok_def)
  have m: "std_map_ok (m_mpClientSocket st)" "distinct (map snd (m_mpClientSocket st))"
    using ok by (auto simp: sock_pool_ok_def client_addrs_def)
  note e = std_erase_values [OF m k [unfolded FindSocketContext_def]]
  let ?st = "(ManualCloseSocket (sc_sock c) 255 True False st)\<lparr>m_mpClientSocket := std_erase k (m_mpClientSocket st)\<rparr>"
  have "erase_client k a st = Inr ?st" using c by (simp add: erase_client_def sc_at_def ManualCloseSocket_def call_def)
  moreover have "sock_pool_ok ?st" using ok e std_erase_ok [OF m(1)]
    by (auto simp: sock_pool_ok_def client_addrs_def ManualCloseSocket_def call_def split: if_splits)
  moreover have "a \<notin> set (m_lsFreeSocketContext ?st @ client_addrs ?st)"
    using e a ok by (auto simp: sock_pool_ok_def client_addrs_def ManualCloseSocket_def call_def)
  ultimately show ?thesis by (auto simp: ManualCloseSocket_def call_def)
qed

lemma push_context_ok:
  assumes ok: "sock_pool_ok st" and a: "a \<notin> set (m_lsFreeSocketContext st @ client_addrs st)" "a \<in> dom (sc_store st)"
  shows "sock_pool_ok (push_context a st)" and "set (m_lsFreeSocketContext (push_context a st)) \<subseteq> insert a (set (m_lsFreeSocketContext st))"
    and "\<And>b. b \<notin> insert a (set (m_lsFreeSocketContext st)) \<Longrightarrow> sc_store (push_context a st) b = sc_store st b"
    and "m_mpClientSocket (push_context a st) = m_mpClientSocket st" "m_dwConnID (push_context a st) = m_dwConnID st"
proof -
  let ?l = "m_lsFreeSocketContext st @ [a]"
  have l: "distinct ?l" "set ?l \<subseteq> dom (sc_store st)" using ok a by (auto simp: sock_pool_ok_def)
  obtain kept store where t: "trim_free m_dwFreeSocketPool m_dwFreeSocketHold ?l (sc_store st) = (kept, store)" by fastforce
  note trimmed = trim_free_ok [OF l pool_limits(2) t]
  have p: "push_context a st = st\<lparr>m_lsFreeSocketContext := kept, sc_store := store\<rparr>" by (simp add: push_context_def t)
  show "set (m_lsFreeSocketContext (push_context a st)) \<subseteq> insert a (set (m_lsFreeSocketContext st))" using trimmed(5) by (auto simp: p)
  show same: "sc_store (push_context a st) b = sc_store st b" if "b \<notin> insert a (set (m_lsFreeSocketContext st))" for b
    using trimmed(7) that by (simp add: p)
  show "m_mpClientSocket (push_context a st) = m_mpClientSocket st" "m_dwConnID (push_context a st) = m_dwConnID st" by (simp_all add: p)
  have clients: "store x = sc_store st x" if "x \<in> set (client_addrs st)" for x
    using trimmed(7) [of x] that ok a(1) by (auto simp: sock_pool_ok_def)
  show "sock_pool_ok (push_context a st)" unfolding p
  proof (rule sock_pool_okI)
    let ?st = "st\<lparr>m_lsFreeSocketContext := kept, sc_store := store\<rparr>"
    show "std_map_ok (m_mpClientSocket ?st)" "length (m_lsFreeSocketContext ?st) \<le> m_dwFreeSocketHold"
      using ok trimmed(3) by (simp_all add: sock_pool_ok_def)
    show "distinct (m_lsFreeSocketContext ?st @ client_addrs ?st)"
      using trimmed(1,5) ok a(1) by (auto simp: client_addrs_def sock_pool_ok_def)
    have "set (client_addrs st) \<subseteq> dom store"
    proof
      fix x assume x: "x \<in> set (client_addrs st)"
      then have "x \<in> dom (sc_store st)" using ok by (auto simp: sock_pool_ok_def)
      with clients [OF x] show "x \<in> dom store" by (simp add: dom_def)
    qed
    then show "set (m_lsFreeSocketContext ?st @ client_addrs ?st) \<subseteq> dom (sc_store ?st)"
      using trimmed(2) by (auto simp: client_addrs_def)
    show "sc_store ?st x = None" if "sc_next ?st \<le> x" for x
      using that ok trimmed(6) [of x] by (cases "store x") (auto simp: sock_pool_ok_def)
    show "\<exists>c. sc_store ?st x = Some c \<and> sc_connID c = k" if "map_of (m_mpClientSocket ?st) k = Some x" for k x
    proof -
      from that have m: "map_of (m_mpClientSocket st) k = Some x" by simp
      then have "x \<in> set (client_addrs st)" by (force simp: client_addrs_def dest: map_of_SomeD)
      with clients m ok show ?thesis by (auto simp: sock_pool_ok_def)
    qed
  qed
qed

lemma GetFree_ok:
  assumes ok: "sock_pool_ok st" and g: "GetFreeSocketContext k sk st = Inr (a, st')"
  shows "sock_pool_ok st'" "a \<notin> set (m_lsFreeSocketContext st' @ client_addrs st')" "m_mpClientSocket st' = m_mpClientSocket st"
    "\<exists>c. sc_store st' a = Some c \<and> sc_connID c = k" "a \<in> set (m_lsFreeSocketContext st) \<or> sc_store st a = None"
    "set (m_lsFreeSocketContext st') \<subseteq> set (m_lsFreeSocketContext st)" "\<And>b. b \<noteq> a \<Longrightarrow> sc_store st' b = sc_store st b"
    "m_dwConnID st' = m_dwConnID st"
proof -
  from GetFreeSocketContext_ok [OF ok, of k sk] g
  show "sock_pool_ok st'" "a \<notin> set (m_lsFreeSocketContext st' @ client_addrs st')" "m_mpClientSocket st' = m_mpClientSocket st"
    "\<exists>c. sc_store st' a = Some c \<and> sc_connID c = k" by auto
  show "a \<in> set (m_lsFreeSocketContext st) \<or> sc_store st a = None" "set (m_lsFreeSocketContext st') \<subseteq> set (m_lsFreeSocketContext st)"
      "\<And>b. b \<noteq> a \<Longrightarrow> sc_store st' b = sc_store st b"
    using g ok by (auto simp: GetFreeSocketContext_def sc_put_def sock_pool_ok_def rbind_eq_Inr Let_def split: list.splits)
  show "m_dwConnID st' = m_dwConnID st" using g by (rule GetFreeSocketContext_id)
qed

lemma addressed_ok:
  assumes pool: "sock_pool_ok st" and g: "GetFreeSocketContext k sk st = Inr (a, st1)" "sc_at st1 a = Inr c"
  shows "sock_pool_ok (sc_put a (c\<lparr>sc_addr := r\<rparr>) st1)" (is "sock_pool_ok ?st2")
proof (rule sock_pool_okI)
  note f = GetFree_ok [OF pool g(1)]
  have store: "sc_store ?st2 = (sc_store st1)(a \<mapsto> c\<lparr>sc_addr := r\<rparr>)" by (simp add: sc_put_def)
  have fields: "m_mpClientSocket ?st2 = m_mpClientSocket st1" "client_addrs ?st2 = client_addrs st1"
      "m_lsFreeSocketContext ?st2 = m_lsFreeSocketContext st1" "sc_next ?st2 = sc_next st1"
    by (simp_all add: sc_put_def client_addrs_def)
  have "std_map_ok (m_mpClientSocket st1)" "distinct (m_lsFreeSocketContext st1 @ client_addrs st1)" "length (m_lsFreeSocketContext st1) \<le> m_dwFreeSocketHold"
      "set (m_lsFreeSocketContext st1 @ client_addrs st1) \<subseteq> dom (sc_store st1)"
    using f(1) by (auto simp: sock_pool_ok_def)
  then show "std_map_ok (m_mpClientSocket ?st2)" "distinct (m_lsFreeSocketContext ?st2 @ client_addrs ?st2)"
      "length (m_lsFreeSocketContext ?st2) \<le> m_dwFreeSocketHold" "set (m_lsFreeSocketContext ?st2 @ client_addrs ?st2) \<subseteq> dom (sc_store ?st2)"
    by (auto simp: fields store)
  show "sc_store ?st2 x = None" if "sc_next ?st2 \<le> x" for x
    using that f(1,4) unfolding store fields by (cases "x = a") (auto simp: sock_pool_ok_def)
  show "\<exists>c. sc_store ?st2 x = Some c \<and> sc_connID c = k" if "map_of (m_mpClientSocket ?st2) k = Some x" for k x
  proof -
    have "x \<in> set (client_addrs st1)" using that fields(1) by (force simp: client_addrs_def dest: map_of_SomeD)
    with f(2) have "x \<noteq> a" by auto
    with that f(1) show ?thesis by (auto simp: store fields sock_pool_ok_def)
  qed
qed

section \<open>The invariant\<close>

text \<open>A context that a thread holds is in no other place.\<close>

definition in_hand :: "race \<Rightarrow> nat \<Rightarrow> nat set" where
  "in_hand w t = (case hold_of w t of HoldsErased a \<Rightarrow> {a} | HoldsNew k a \<Rightarrow> {a} | _ \<Rightarrow> {})"

definition pooled :: "race \<Rightarrow> nat set" where
  "pooled w = set (m_lsFreeSocketContext (srv w) @ client_addrs (srv w))"

definition race_ok :: "race \<Rightarrow> bool" where
  "race_ok w \<longleftrightarrow> sock_ok (srv w)
     \<and> (\<forall>t. in_hand w t \<inter> pooled w = {} \<and> in_hand w t \<subseteq> dom (sc_store (srv w)))
     \<and> (\<forall>t t'. t \<noteq> t' \<longrightarrow> in_hand w t \<inter> in_hand w t' = {})
     \<and> (\<forall>t k a. hold_of w t = HoldsFound k a \<longrightarrow> FindSocketContext k (srv w) = Some a)
     \<and> (\<forall>t k a. hold_of w t = HoldsNew k a \<longrightarrow> FindSocketContext k (srv w) = None \<and> k \<le> m_dwConnID (srv w)
          \<and> (\<exists>c. sc_store (srv w) a = Some c \<and> sc_connID c = k))
     \<and> (\<forall>t t' k a a'. t \<noteq> t' \<and> hold_of w t = HoldsNew k a \<longrightarrow> hold_of w t' \<noteq> HoldsNew k a')"

lemma race_ok_find: "race_ok w \<Longrightarrow> hold_of w t = HoldsNothing \<Longrightarrow> race_ok (close_find t k w)"
  by (auto simp: race_ok_def close_find_def in_hand_def pooled_def split: option.splits)

lemma race_ok_erase:
  assumes ok: "race_ok w" and "apart w" and t: "hold_of w t = HoldsFound k a" and e: "close_erase t k a w = Inr w'"
  shows "race_ok w'"
proof -
  have f: "FindSocketContext k (srv w) = Some a" and pool: "sock_pool_ok (srv w)" using ok t by (auto simp: race_ok_def sock_ok_def)
  from erase_client_ok [OF pool f] obtain st where st: "erase_client k a (srv w) = Inr st" "sock_pool_ok st"
      "a \<notin> set (m_lsFreeSocketContext st @ client_addrs st)" "m_mpClientSocket st = std_erase k (m_mpClientSocket (srv w))"
      "m_lsFreeSocketContext st = m_lsFreeSocketContext (srv w)" "sc_store st = sc_store (srv w)" "m_dwConnID st = m_dwConnID (srv w)"
    by blast
  have w': "w' = w\<lparr>srv := st, hold_of := (hold_of w)(t := HoldsErased a)\<rparr>" using e st(1) by (simp add: close_erase_def)
  have mem: "a \<in> pooled w" using f by (force simp: pooled_def FindSocketContext_def client_addrs_def dest: map_of_SomeD)
  have sub: "set (client_addrs st) \<subseteq> set (client_addrs (srv w))" using st(4) by (auto simp: client_addrs_def std_erase_def)
  have dom: "a \<in> dom (sc_store (srv w))" using mem pool by (auto simp: pooled_def sock_pool_ok_def)
  have find: "FindSocketContext k' st = (if k' = k then None else FindSocketContext k' (srv w))" for k'
    using st(4) by (simp add: FindSocketContext_def)
  have srv: "srv w' = st" by (simp add: w')
  have held: "in_hand w' t' = (if t' = t then {a} else in_hand w t')" for t' by (simp add: in_hand_def w')
  have pooled: "pooled w' \<subseteq> pooled w" "a \<notin> pooled w'" using sub st(3,5) by (auto simp: pooled_def srv)
  have other: "hold_of w t' \<noteq> HoldsFound k a'" if "t' \<noteq> t" for t' a' using assms(2) t that by (metis apart_def)
  have h: "in_hand w t' \<inter> pooled w = {}" "in_hand w t' \<subseteq> dom (sc_store (srv w))" "t' \<noteq> t'' \<Longrightarrow> in_hand w t' \<inter> in_hand w t'' = {}" for t' t''
    using ok by (auto simp: race_ok_def)
  show ?thesis unfolding race_ok_def
  proof (intro conjI)
    show "sock_ok (srv w')" using ok st(2,4,7) by (auto simp: race_ok_def sock_ok_def w' split: if_splits)
    show "\<forall>t'. in_hand w' t' \<inter> pooled w' = {} \<and> in_hand w' t' \<subseteq> dom (sc_store (srv w'))"
    proof
      fix t'
      show "in_hand w' t' \<inter> pooled w' = {} \<and> in_hand w' t' \<subseteq> dom (sc_store (srv w'))"
        using h(1,2) [of t'] pooled dom unfolding srv st(6) held by (cases "t' = t") auto
    qed
    show "\<forall>t' t''. t' \<noteq> t'' \<longrightarrow> in_hand w' t' \<inter> in_hand w' t'' = {}" using h(1,3) mem by (auto simp: held)
  qed (use ok other find st(6,7) in \<open>auto simp: race_ok_def w'\<close>)
qed

lemma race_ok_push:
  assumes ok: "race_ok w" and t: "hold_of w t = HoldsErased a"
  shows "race_ok (close_push t a w)"
proof -
  let ?st = "push_context a (srv w)" and ?w = "close_push t a w"
  have h: "in_hand w t' \<inter> pooled w = {}" "in_hand w t' \<subseteq> dom (sc_store (srv w))" "t' \<noteq> t'' \<Longrightarrow> in_hand w t' \<inter> in_hand w t'' = {}" for t' t''
    using ok by (auto simp: race_ok_def)
  have mine: "in_hand w t = {a}" using t by (simp add: in_hand_def)
  have a: "a \<notin> set (m_lsFreeSocketContext (srv w) @ client_addrs (srv w))" "a \<in> dom (sc_store (srv w))" "sock_pool_ok (srv w)"
    using h(1,2) [of t] mine ok by (auto simp: pooled_def race_ok_def sock_ok_def)
  note p = push_context_ok [OF a(3,1,2)]
  have srv: "srv ?w = ?st" and ho: "hold_of ?w = (hold_of w)(t := HoldsNothing)" by (simp_all add: close_push_def)
  have held: "in_hand ?w t' = (if t' = t then {} else in_hand w t')" for t' by (simp add: in_hand_def close_push_def)
  have pooled: "pooled ?w \<subseteq> insert a (pooled w)" using p(2,4) by (auto simp: pooled_def close_push_def client_addrs_def)
  have same: "sc_store ?st b = sc_store (srv w) b" if "b \<in> in_hand w t'" "t' \<noteq> t" for b t'
    using h(1) [of t'] h(3) [of t' t] that mine by (intro p(3)) (auto simp: pooled_def)
  have find: "FindSocketContext k ?st = FindSocketContext k (srv w)" for k by (simp add: FindSocketContext_def p(4))
  show ?thesis unfolding race_ok_def
  proof (intro conjI)
    show "sock_ok (srv ?w)" using ok p(1,4,5) by (auto simp: race_ok_def sock_ok_def close_push_def)
    show "\<forall>t'. in_hand ?w t' \<inter> pooled ?w = {} \<and> in_hand ?w t' \<subseteq> dom (sc_store (srv ?w))"
    proof (intro allI conjI)
      fix t'
      show "in_hand ?w t' \<inter> pooled ?w = {}" using h(1) [of t'] h(3) [of t' t] mine pooled by (auto simp: held)
      show "in_hand ?w t' \<subseteq> dom (sc_store (srv ?w))"
      proof (cases "t' = t")
        case False
        show ?thesis
        proof
          fix b assume "b \<in> in_hand ?w t'"
          then have "b \<in> in_hand w t'" using False by (simp add: held)
          with h(2) [of t'] same [OF _ False] show "b \<in> dom (sc_store (srv ?w))" unfolding srv by (metis domIff subsetD)
        qed
      qed (simp add: held)
    qed
    show "\<forall>t' t''. t' \<noteq> t'' \<longrightarrow> in_hand ?w t' \<inter> in_hand ?w t'' = {}" using h(3) by (auto simp: held)
    show "\<forall>t' k b. hold_of ?w t' = HoldsNew k b \<longrightarrow> FindSocketContext k (srv ?w) = None \<and> k \<le> m_dwConnID (srv ?w)
        \<and> (\<exists>c. sc_store (srv ?w) b = Some c \<and> sc_connID c = k)"
    proof (intro allI impI)
      fix t' k b
      assume n: "hold_of ?w t' = HoldsNew k b"
      then have t': "t' \<noteq> t" "hold_of w t' = HoldsNew k b" by (auto simp: close_push_def split: if_splits)
      then have "sc_store ?st b = sc_store (srv w) b" using same [of b t'] by (simp add: in_hand_def)
      with t'(2) ok show "FindSocketContext k (srv ?w) = None \<and> k \<le> m_dwConnID (srv ?w)
        \<and> (\<exists>c. sc_store (srv ?w) b = Some c \<and> sc_connID c = k)" by (auto simp: race_ok_def close_push_def find p(5))
    qed
  qed (use ok find in \<open>auto simp: race_ok_def close_push_def\<close>)
qed

lemma race_ok_take:
  assumes ok: "race_ok w" and t: "hold_of w t = HoldsNothing" and room: "m_dwConnID (srv w) \<noteq> -1" and n: "accept_take t sk r w = Inr w'"
  shows "race_ok w'"
proof -
  let ?k = "next_connID (m_dwConnID (srv w))" let ?st = "(srv w)\<lparr>m_dwConnID := ?k\<rparr>"
  have below: "m_dwConnID (srv w) < ?k" by (rule next_connID_fresh(2) [OF room])
  have pool: "sock_pool_ok ?st" using ok by (simp add: race_ok_def sock_ok_def sock_pool_ok_def client_addrs_def)
  from n obtain a st1 c where g: "GetFreeSocketContext ?k sk ?st = Inr (a, st1)" "sc_at st1 a = Inr c"
      and w': "w' = w\<lparr>srv := sc_put a (c\<lparr>sc_addr := r\<rparr>) st1, hold_of := (hold_of w)(t := HoldsNew ?k a)\<rparr>"
    by (auto simp: accept_take_def Let_def rbind_eq_Inr)
  note f = GetFree_ok [OF pool g(1)]
  let ?st2 = "sc_put a (c\<lparr>sc_addr := r\<rparr>) st1"
  have c: "sc_store st1 a = Some c" "sc_connID c = ?k" using f(4) g(2) by (auto simp: sc_at_def)
  have fields: "m_mpClientSocket ?st2 = m_mpClientSocket (srv w)" "client_addrs ?st2 = client_addrs (srv w)" "client_addrs st1 = client_addrs (srv w)"
      "m_lsFreeSocketContext ?st2 = m_lsFreeSocketContext st1" "m_dwConnID ?st2 = ?k" "sc_next ?st2 = sc_next st1"
    using f(3,8) by (simp_all add: sc_put_def client_addrs_def)
  have store: "sc_store ?st2 = (sc_store st1)(a \<mapsto> c\<lparr>sc_addr := r\<rparr>)" by (simp add: sc_put_def)
  have free: "a \<notin> set (client_addrs (srv w))" "a \<notin> set (m_lsFreeSocketContext st1)" using f(2) fields(3) by auto
  have pool2: "sock_pool_ok ?st2" by (rule addressed_ok [OF pool g])
  have h: "in_hand w t' \<inter> pooled w = {}" "in_hand w t' \<subseteq> dom (sc_store (srv w))" "t' \<noteq> t'' \<Longrightarrow> in_hand w t' \<inter> in_hand w t'' = {}" for t' t''
    using ok by (auto simp: race_ok_def)
  have srv: "srv w' = ?st2" and ho: "hold_of w' = (hold_of w)(t := HoldsNew ?k a)" by (simp_all add: w')
  have held: "in_hand w' t' = (if t' = t then {a} else in_hand w t')" for t' by (simp add: in_hand_def ho)
  have new: "a \<notin> in_hand w t'" for t'
  proof
    assume "a \<in> in_hand w t'"
    with h(1,2) [of t'] have "a \<notin> pooled w" "a \<in> dom (sc_store (srv w))" by auto
    with f(5) show False by (auto simp: pooled_def)
  qed
  have pooled: "pooled w' \<subseteq> pooled w" "a \<notin> pooled w'" using f(6) free by (auto simp: pooled_def srv fields)
  have dom: "dom (sc_store ?st2) = insert a (dom (sc_store (srv w)))" using f(7) c(1) by (auto simp: store domIff)
  have same: "sc_store ?st2 b = sc_store (srv w) b" if "b \<noteq> a" for b using f(7) that by (simp add: store)
  have find: "FindSocketContext k ?st2 = FindSocketContext k (srv w)" for k by (simp add: FindSocketContext_def fields)
  have none: "FindSocketContext ?k (srv w) = None" using ok below by (cases "FindSocketContext ?k (srv w)") (auto simp: race_ok_def sock_ok_def FindSocketContext_def)
  show ?thesis unfolding race_ok_def
  proof (intro conjI)
    show "sock_ok (srv w')" using ok pool2 below unfolding srv by (auto simp: race_ok_def sock_ok_def fields intro: less_imp_le order_trans)
    show "\<forall>t'. in_hand w' t' \<inter> pooled w' = {} \<and> in_hand w' t' \<subseteq> dom (sc_store (srv w'))"
    proof
      fix t'
      show "in_hand w' t' \<inter> pooled w' = {} \<and> in_hand w' t' \<subseteq> dom (sc_store (srv w'))"
        using h(1,2) [of t'] pooled unfolding srv dom held by (cases "t' = t") auto
    qed
    show "\<forall>t' t''. t' \<noteq> t'' \<longrightarrow> in_hand w' t' \<inter> in_hand w' t'' = {}" using h(3) new by (auto simp: held)
    show "\<forall>t k a. hold_of w' t = HoldsFound k a \<longrightarrow> FindSocketContext k (srv w') = Some a"
      using ok unfolding srv ho find by (auto simp: race_ok_def)
    show "\<forall>t' k b. hold_of w' t' = HoldsNew k b \<longrightarrow> FindSocketContext k (srv w') = None \<and> k \<le> m_dwConnID (srv w')
        \<and> (\<exists>c. sc_store (srv w') b = Some c \<and> sc_connID c = k)"
    proof (intro allI impI)
      fix t' k b
      assume n: "hold_of w' t' = HoldsNew k b"
      show "FindSocketContext k (srv w') = None \<and> k \<le> m_dwConnID (srv w') \<and> (\<exists>c. sc_store (srv w') b = Some c \<and> sc_connID c = k)"
      proof (cases "t' = t")
        case True
        with n c(2) none show ?thesis unfolding srv find fields store by (auto simp: ho)
      next
        case False
        with n have m: "hold_of w t' = HoldsNew k b" by (simp add: ho)
        then have "b \<noteq> a" using new [of t'] by (auto simp: in_hand_def)
        from m ok have "FindSocketContext k (srv w) = None" "k \<le> m_dwConnID (srv w)" "\<exists>c. sc_store (srv w) b = Some c \<and> sc_connID c = k"
          by (simp_all add: race_ok_def)
        with below show ?thesis unfolding srv find fields same [OF \<open>b \<noteq> a\<close>] by (simp add: less_imp_le le_less_trans)
      qed
    qed
    show "\<forall>t t' k a a'. t \<noteq> t' \<and> hold_of w' t = HoldsNew k a \<longrightarrow> hold_of w' t' \<noteq> HoldsNew k a'"
    proof (intro allI impI, elim conjE)
      fix t' t'' k b b'
      assume n: "t' \<noteq> t''" "hold_of w' t' = HoldsNew k b"
      have old: "hold_of w i \<noteq> HoldsNew ?k y" for i y
      proof
        assume "hold_of w i = HoldsNew ?k y"
        with ok have "?k \<le> m_dwConnID (srv w)" unfolding race_ok_def by blast
        with below show False by simp
      qed
      have uniq: "hold_of w t'' \<noteq> HoldsNew k b'" if "hold_of w t' = HoldsNew k b" using ok n(1) that unfolding race_ok_def by blast
      show "hold_of w' t'' \<noteq> HoldsNew k b'" using n old uniq by (cases "t' = t"; cases "t'' = t") (auto simp: ho dest: sym)
    qed
  qed
qed

lemma race_ok_add:
  assumes ok: "race_ok w" and t: "hold_of w t = HoldsNew k a"
  shows "race_ok (accept_add t k a w)"
proof -
  let ?w = "accept_add t k a w" and ?st = "AddClientSocket k a (srv w)"
  have h: "in_hand w t' \<inter> pooled w = {}" "in_hand w t' \<subseteq> dom (sc_store (srv w))" "t' \<noteq> t'' \<Longrightarrow> in_hand w t' \<inter> in_hand w t'' = {}" for t' t''
    using ok by (auto simp: race_ok_def)
  have mine: "in_hand w t = {a}" using t by (simp add: in_hand_def)
  have k: "map_of (m_mpClientSocket (srv w)) k = None" "k \<le> m_dwConnID (srv w)" "\<exists>c. sc_store (srv w) a = Some c \<and> sc_connID c = k"
    using ok t by (auto simp: race_ok_def FindSocketContext_def)
  have pool: "sock_pool_ok (srv w)" and below: "\<And>k a. map_of (m_mpClientSocket (srv w)) k = Some a \<Longrightarrow> k \<le> m_dwConnID (srv w)"
    using ok by (auto simp: race_ok_def sock_ok_def)
  have m: "std_map_ok (m_mpClientSocket (srv w))" using pool by (simp add: sock_pool_ok_def)
  have a: "a \<notin> set (m_lsFreeSocketContext (srv w) @ client_addrs (srv w))" using h(1) [of t] mine by (auto simp: pooled_def)
  have srv: "srv ?w = ?st" and ho: "hold_of ?w = (hold_of w)(t := HoldsNothing)" by (simp_all add: accept_add_def)
  have fields: "m_lsFreeSocketContext ?st = m_lsFreeSocketContext (srv w)" "sc_store ?st = sc_store (srv w)" "m_dwConnID ?st = m_dwConnID (srv w)"
      "set (client_addrs ?st) = insert a (set (client_addrs (srv w)))"
    using std_put_values [OF k(1) m, of a] by (simp_all add: AddClientSocket_def client_addrs_def)
  have find: "FindSocketContext k' ?st = (if k' = k then Some a else FindSocketContext k' (srv w))" for k'
    using m by (simp add: AddClientSocket_def FindSocketContext_def)
  have held: "in_hand ?w t' = (if t' = t then {} else in_hand w t')" for t' by (simp add: in_hand_def ho)
  have pooled: "pooled ?w = insert a (pooled w)" by (auto simp: pooled_def srv fields)
  show ?thesis unfolding race_ok_def
  proof (intro conjI)
    from k(3) obtain c where c: "sc_store (srv w) a = Some c" "sc_connID c = k" by blast
    have "sock_pool_ok ?st" by (rule AddClientSocket_ok [OF pool a c]) (simp add: FindSocketContext_def k(1))
    then show "sock_ok (srv ?w)" using below k(2) m unfolding srv by (auto simp: sock_ok_def AddClientSocket_def split: if_splits)
    show "\<forall>t'. in_hand ?w t' \<inter> pooled ?w = {} \<and> in_hand ?w t' \<subseteq> dom (sc_store (srv ?w))"
    proof
      fix t'
      show "in_hand ?w t' \<inter> pooled ?w = {} \<and> in_hand ?w t' \<subseteq> dom (sc_store (srv ?w))"
        using h(1,2) [of t'] h(3) [of t' t] mine unfolding srv fields held pooled by (cases "t' = t") auto
    qed
    show "\<forall>t' t''. t' \<noteq> t'' \<longrightarrow> in_hand ?w t' \<inter> in_hand ?w t'' = {}" using h(3) by (auto simp: held)
    show "\<forall>t' k' a'. hold_of ?w t' = HoldsFound k' a' \<longrightarrow> FindSocketContext k' (srv ?w) = Some a'"
      using ok k(1) unfolding srv ho find by (auto simp: race_ok_def FindSocketContext_def)
    show "\<forall>t' k' b. hold_of ?w t' = HoldsNew k' b \<longrightarrow> FindSocketContext k' (srv ?w) = None \<and> k' \<le> m_dwConnID (srv ?w)
        \<and> (\<exists>c. sc_store (srv ?w) b = Some c \<and> sc_connID c = k')"
      using ok t unfolding srv ho find fields race_ok_def by (auto split: if_splits) metis
    show "\<forall>t t' k a a'. t \<noteq> t' \<and> hold_of ?w t = HoldsNew k a \<longrightarrow> hold_of ?w t' \<noteq> HoldsNew k a'"
      using ok unfolding ho race_ok_def by auto
  qed
qed

lemma race_ok_step:
  assumes "race_step w w'" "race_ok w" "apart w" "m_dwConnID (srv w) \<noteq> -1"
  shows "race_ok w'"
  using assms
proof (induction rule: race_step.induct)
  case finds then show ?case by (simp add: race_ok_find)
next
  case erases then show ?case by (blast intro: race_ok_erase)
next
  case pushes then show ?case by (simp add: race_ok_push)
next
  case takes then show ?case by (blast intro: race_ok_take)
next
  case adds then show ?case by (simp add: race_ok_add)
qed

lemma race_ok_run: "apart_run st w \<Longrightarrow> sock_ok st \<Longrightarrow> race_ok w"
proof (induction rule: apart_run.induct)
  case apart_starts then show ?case by (simp add: race_ok_def race_start_def in_hand_def)
next
  case (apart_goes w w') then show ?case by (simp add: race_ok_step)
qed

section \<open>Clients closed once\<close>

text \<open>C9: As long as no two threads have found the same client, and the client numbers last, in every order of the critical sections of
  all threads: a context is free, a client's or with one thread, and only one of these; the context of a client is alive and carries
  its number; and the close that a thread is in the middle of does not fault.
\<close>

theorem contexts_exclusive_in_pieces:
  assumes "sock_ok st" and "apart_run st w"
  shows "distinct (m_lsFreeSocketContext (srv w) @ client_addrs (srv w))
    \<and> (\<forall>t. in_hand w t \<inter> pooled w = {} \<and> in_hand w t \<subseteq> dom (sc_store (srv w)) \<and> (\<forall>t'. t' \<noteq> t \<longrightarrow> in_hand w t \<inter> in_hand w t' = {}))
    \<and> (\<forall>k a. FindSocketContext k (srv w) = Some a \<longrightarrow> (\<exists>c. sc_at (srv w) a = Inr c \<and> sc_connID c = k))
    \<and> (\<forall>t k a. hold_of w t = HoldsFound k a \<longrightarrow> (\<exists>w'. close_erase t k a w = Inr w'))"
proof (intro conjI)
  note ok = race_ok_run [OF assms(2,1)]
  then have pool: "sock_pool_ok (srv w)" by (simp add: race_ok_def sock_ok_def)
  show "distinct (m_lsFreeSocketContext (srv w) @ client_addrs (srv w))"
    "\<forall>k a. FindSocketContext k (srv w) = Some a \<longrightarrow> (\<exists>c. sc_at (srv w) a = Inr c \<and> sc_connID c = k)"
    using pool by (fastforce simp: sock_pool_ok_def FindSocketContext_def sc_at_def)+
  show "\<forall>t. in_hand w t \<inter> pooled w = {} \<and> in_hand w t \<subseteq> dom (sc_store (srv w)) \<and> (\<forall>t'. t' \<noteq> t \<longrightarrow> in_hand w t \<inter> in_hand w t' = {})"
    using ok unfolding race_ok_def by blast
  show "\<forall>t k a. hold_of w t = HoldsFound k a \<longrightarrow> (\<exists>w'. close_erase t k a w = Inr w')"
  proof (intro allI impI)
    fix t k a assume "hold_of w t = HoldsFound k a"
    then have "FindSocketContext k (srv w) = Some a" using ok by (simp add: race_ok_def)
    from erase_client_ok [OF pool this] show "\<exists>w'. close_erase t k a w = Inr w'" by (auto simp: close_erase_def)
  qed
qed

text \<open>A server with one client, and the thread that closes it.\<close>

definition lone_client :: tcp_server where
  "lone_client = tcp_init\<lparr>m_dwConnID := 1, m_mpClientSocket := [(1, 0)], sc_store := [0 \<mapsto> socket_clean\<lparr>sc_connID := 1, sc_sock := 7\<rparr>],
     sc_next := 1\<rparr>"

lemma lone_client_ok: "sock_ok lone_client" "FindSocketContext 1 lone_client = Some 0" "m_lsFreeSocketContext lone_client = []"
  by (auto simp: lone_client_def sock_ok_def sock_pool_ok_def tcp_init_def std_map_ok_def client_addrs_def FindSocketContext_def split: if_splits)

lemma lone_client_found: "apart_run lone_client (close_find 0 1 (race_start lone_client))"
  by (rule apart_goes [OF apart_starts _ _ finds]) (simp_all add: apart_def race_start_def lone_client_def)

lemma contexts_exclusive_in_pieces_witness:
  "\<exists>w'. close_erase 0 1 0 (close_find 0 1 (race_start lone_client)) = Inr w'"
proof -
  have "hold_of (close_find 0 1 (race_start lone_client)) 0 = HoldsFound 1 0"
    by (simp add: close_find_def race_start_def lone_client_ok)
  with contexts_exclusive_in_pieces [OF lone_client_ok(1) lone_client_found] show ?thesis by blast
qed

section \<open>Clients closed twice\<close>

lemma close_found: "FindSocketContext k (srv w) = Some a \<Longrightarrow> close_find t k w = w\<lparr>hold_of := (hold_of w)(t := HoldsFound k a)\<rparr>"
  by (simp add: close_find_def)

lemma close_erase_plain:
  assumes "sc_store (srv w) a = Some c"
  shows "\<exists>st. close_erase t k a w = Inr (w\<lparr>srv := st, hold_of := (hold_of w)(t := HoldsErased a)\<rparr>)
    \<and> m_lsFreeSocketContext st = m_lsFreeSocketContext (srv w) \<and> sc_store st = sc_store (srv w)
    \<and> m_mpClientSocket st = std_erase k (m_mpClientSocket (srv w)) \<and> m_dwConnID st = m_dwConnID (srv w)"
  by (rule exI [of _ "(call (CloseSocket (sc_sock c)) (srv w))\<lparr>m_mpClientSocket := std_erase k (m_mpClientSocket (srv w))\<rparr>"])
    (use assms in \<open>simp add: close_erase_def erase_client_def sc_at_def ManualCloseSocket_def call_def Let_def rbind_def\<close>)

lemma push_context_plain:
  "length (m_lsFreeSocketContext st) < m_dwFreeSocketHold \<Longrightarrow>
     push_context a st = st\<lparr>m_lsFreeSocketContext := m_lsFreeSocketContext st @ [a], sc_store := sc_store st\<rparr>"
  by (simp add: push_context_def trim_free_def)

lemma accept_take_plain:
  assumes "m_lsFreeSocketContext (srv w) = a # l" "sc_store (srv w) a = Some c"
  shows "\<exists>st. accept_take t sk r w = Inr (w\<lparr>srv := st, hold_of := (hold_of w)(t := HoldsNew (next_connID (m_dwConnID (srv w))) a)\<rparr>)
    \<and> m_lsFreeSocketContext st = l \<and> (\<exists>c. sc_store st a = Some c \<and> sc_connID c = next_connID (m_dwConnID (srv w)) \<and> sc_sock c = sk)
    \<and> m_mpClientSocket st = m_mpClientSocket (srv w) \<and> m_dwConnID st = next_connID (m_dwConnID (srv w))"
  using assms by (auto simp: accept_take_def GetFreeSocketContext_def sc_at_def sc_put_def Let_def)

lemma client_context:
  assumes "sock_ok st" "FindSocketContext k st = Some a"
  obtains c where "sc_store st a = Some c"
  using assms by (fastforce simp: sock_ok_def sock_pool_ok_def FindSocketContext_def)

text \<open>Two threads close the same client: both find it before either erases it.\<close>

lemma two_closes_push_twice:
  assumes ok: "sock_ok st" and f: "FindSocketContext k st = Some a" and empty: "m_lsFreeSocketContext st = []"
  shows "\<exists>w. race_run st w \<and> hold_of w = (\<lambda>_. HoldsNothing) \<and> m_lsFreeSocketContext (srv w) = [a, a] \<and> sc_store (srv w) = sc_store st
    \<and> m_mpClientSocket (srv w) = std_erase k (std_erase k (m_mpClientSocket st)) \<and> m_dwConnID (srv w) = m_dwConnID st"
proof -
  from client_context [OF ok f] obtain c where c: "sc_store st a = Some c" by blast
  define w1 where "w1 = close_find 0 k (race_start st)"
  define w2 where "w2 = close_find 1 k w1"
  have w1: "w1 = (race_start st)\<lparr>hold_of := (\<lambda>_. HoldsNothing)(0 := HoldsFound k a)\<rparr>"
    using f by (simp add: w1_def close_find_def race_start_def)
  have w2: "w2 = (race_start st)\<lparr>hold_of := (\<lambda>_. HoldsNothing)(0 := HoldsFound k a, 1 := HoldsFound k a)\<rparr>"
    using f by (simp add: w2_def w1 close_find_def race_start_def)
  have r1: "race_run st w1" unfolding w1_def by (rule run_goes [OF run_starts finds]) (simp add: race_start_def)
  have r2: "race_run st w2" unfolding w2_def by (rule run_goes [OF r1 finds]) (simp add: w1)
  have "sc_store (srv w2) a = Some c" by (simp add: w2 race_start_def c)
  from close_erase_plain [OF this, of 0 k] obtain s3 where s3: "close_erase 0 k a w2 = Inr (w2\<lparr>srv := s3, hold_of := (hold_of w2)(0 := HoldsErased a)\<rparr>)"
      (is "_ = Inr ?w3") "m_lsFreeSocketContext s3 = []" "sc_store s3 = sc_store st" "m_mpClientSocket s3 = std_erase k (m_mpClientSocket st)"
      "m_dwConnID s3 = m_dwConnID st" by (auto simp: w2 race_start_def empty)
  have r3: "race_run st ?w3" by (rule run_goes [OF r2 erases [OF _ s3(1)]]) (simp add: w2)
  have "sc_store (srv ?w3) a = Some c" by (simp add: s3 c)
  from close_erase_plain [OF this, of 1 k] obtain s4 where s4: "close_erase 1 k a ?w3 = Inr (?w3\<lparr>srv := s4, hold_of := (hold_of ?w3)(1 := HoldsErased a)\<rparr>)"
      (is "_ = Inr ?w4") "m_lsFreeSocketContext s4 = []" "sc_store s4 = sc_store st"
      "m_mpClientSocket s4 = std_erase k (std_erase k (m_mpClientSocket st))" "m_dwConnID s4 = m_dwConnID st" by (auto simp: s3)
  have r4: "race_run st ?w4" by (rule run_goes [OF r3 erases [OF _ s4(1)]]) (simp add: w2)
  define w5 where "w5 = close_push 0 a ?w4"
  have room: "0 < m_dwFreeSocketHold" "1 < m_dwFreeSocketHold" by (simp_all add: m_dwFreeSocketHold_def)
  have w5: "w5 = ?w4\<lparr>srv := s4\<lparr>m_lsFreeSocketContext := [a]\<rparr>, hold_of := (hold_of ?w4)(0 := HoldsNothing)\<rparr>"
    using s4 room by (simp add: w5_def close_push_def push_context_plain)
  have r5: "race_run st w5" unfolding w5_def by (rule run_goes [OF r4 pushes]) simp
  have r6: "race_run st (close_push 1 a w5)" by (rule run_goes [OF r5 pushes]) (simp add: w5)
  show ?thesis
    by (rule exI [of _ "close_push 1 a w5"], intro conjI r6) (use s4 room in \<open>auto simp: w5 w2 close_push_def push_context_plain fun_eq_iff\<close>)
qed

lemma next_connID_other: "next_connID n \<noteq> n"
  by (auto simp: next_connID_def Let_def)

text \<open>C38: The window is real. From any state without free contexts two threads that close the same client leave its context in the free
  list twice; the next two connections share it, and what is sent to the first of them goes to the socket of the second.
\<close>

theorem two_closes_share_context:
  assumes "sock_ok st" "FindSocketContext k st = Some a" "m_lsFreeSocketContext st = []"
  shows "\<exists>w k1 k2 c. race_run st w \<and> k1 \<noteq> k2 \<and> FindSocketContext k1 (srv w) = Some a \<and> FindSocketContext k2 (srv w) = Some a
    \<and> sc_at (srv w) a = Inr c \<and> sc_connID c = k2 \<and> sc_sock c = s2"
proof -
  from two_closes_push_twice [OF assms] obtain w where w: "race_run st w" "hold_of w = (\<lambda>_. HoldsNothing)"
      "m_lsFreeSocketContext (srv w) = [a, a]" "sc_store (srv w) = sc_store st"
      "m_mpClientSocket (srv w) = std_erase k (std_erase k (m_mpClientSocket st))" by blast
  from client_context [OF assms(1,2)] obtain c where c: "sc_store (srv w) a = Some c" by (auto simp: w)
  define k1 where "k1 = next_connID (m_dwConnID (srv w))"
  define k2 where "k2 = next_connID k1"
  from accept_take_plain [OF w(3) c, of 0 s1 r] obtain st1 c1
    where 1: "accept_take 0 s1 r w = Inr (w\<lparr>srv := st1, hold_of := (hold_of w)(0 := HoldsNew k1 a)\<rparr>)" (is "_ = Inr ?w1")
      "m_lsFreeSocketContext st1 = [a]" "sc_store st1 a = Some c1" "m_mpClientSocket st1 = m_mpClientSocket (srv w)" "m_dwConnID st1 = k1"
    unfolding k1_def by blast
  have r1: "race_run st ?w1" by (rule run_goes [OF w(1) takes [OF _ 1(1)]]) (simp add: w(2))
  have p: "m_lsFreeSocketContext (srv ?w1) = [a]" "sc_store (srv ?w1) a = Some c1" using 1 by simp_all
  from accept_take_plain [OF p, of 1 s2 r] obtain st2 c2
    where 2: "accept_take 1 s2 r ?w1 = Inr (?w1\<lparr>srv := st2, hold_of := (hold_of ?w1)(1 := HoldsNew k2 a)\<rparr>)" (is "_ = Inr ?w2")
      "sc_store st2 a = Some c2" "sc_connID c2 = k2" "sc_sock c2 = s2" "m_mpClientSocket st2 = m_mpClientSocket (srv w)"
    using 1(4,5) unfolding k2_def by auto
  have r2: "race_run st ?w2" by (rule run_goes [OF r1 takes [OF _ 2(1)]]) (simp add: w(2))
  let ?w3 = "accept_add 0 k1 a ?w2" let ?w4 = "accept_add 1 k2 a ?w3"
  have r3: "race_run st ?w3" by (rule run_goes [OF r2 adds]) simp
  have r4: "race_run st ?w4" by (rule run_goes [OF r3 adds]) (simp add: accept_add_def)
  have m: "std_map_ok (m_mpClientSocket st2)" using assms(1) by (simp add: 2(5) w(5) std_erase_ok sock_ok_def sock_pool_ok_def)
  have k: "k1 \<noteq> k2" using next_connID_other [of k1] by (simp add: k2_def)
  have "FindSocketContext k1 (srv ?w4) = Some a" "FindSocketContext k2 (srv ?w4) = Some a" "sc_at (srv ?w4) a = Inr c2"
    using m k 2(2) by (simp_all add: accept_add_def AddClientSocket_def FindSocketContext_def std_put_ok sc_at_def)
  with r4 k 2(3,4) show ?thesis by blast
qed

lemma two_closes_share_context_witness:
  "\<exists>w k1 k2 c. race_run lone_client w \<and> k1 \<noteq> k2 \<and> FindSocketContext k1 (srv w) = Some 0 \<and> FindSocketContext k2 (srv w) = Some 0
    \<and> sc_at (srv w) 0 = Inr c \<and> sc_connID c = k2 \<and> sc_sock c = 9"
  by (rule two_closes_share_context [OF lone_client_ok])

end
