(* ===== verification/TcpStop.thy ===== *)
theory TcpStop
  imports TcpSent TcpRace
begin

text \<open>
  Stopping a running server: no socket context is ever lost, and when the workers take the packets that \<open>Stop\<close> posts, it ends with every
  client closed.
\<close>

section \<open>No socket context is lost\<close>













section \<open>The packets of a stop\<close>














end
