(* ===== verification/ByteQueue.thy ===== *)
theory ByteQueue
  imports Prelude
begin

text \<open>
  What users of a byte buffer rely on: bytes come out in the order they went in. The contract is a
  locale; its client lemma is about every interleaving of writes and reads.
\<close>

datatype queue_op = Put "byte list" | Get nat

fun queue_run ::
    "(byte list \<Rightarrow> 's \<Rightarrow> 's res) \<Rightarrow> (nat \<Rightarrow> 's \<Rightarrow> (byte list \<times> 's) res) \<Rightarrow> queue_op list \<Rightarrow> 's
      \<Rightarrow> (byte list \<times> 's) res" where
  "queue_run put get [] s = Inr ([], s)"
| "queue_run put get (Put d # ops) s = rbind (put d s) (queue_run put get ops)"
| "queue_run put get (Get n # ops) s =
     rbind (get n s) (\<lambda>(d, s). rbind (queue_run put get ops s) (\<lambda>(out, s). Inr (d @ out, s)))"

fun bytes_put :: "queue_op list \<Rightarrow> byte list" where
  "bytes_put [] = []"
| "bytes_put (Put d # ops) = d @ bytes_put ops"
| "bytes_put (Get n # ops) = bytes_put ops"

locale byte_queue =
  fixes holds :: "'s \<Rightarrow> byte list \<Rightarrow> bool"
    and put :: "byte list \<Rightarrow> 's \<Rightarrow> 's res"
    and get :: "nat \<Rightarrow> 's \<Rightarrow> (byte list \<times> 's) res"
    and room :: nat
  assumes put_holds: "holds s xs \<Longrightarrow> length xs + length d < room \<Longrightarrow> \<exists>s'. put d s = Inr s' \<and> holds s' (xs @ d)"
    and get_holds: "holds s xs \<Longrightarrow> length xs < room \<Longrightarrow> n < room \<Longrightarrow>
      \<exists>d s' ys. get n s = Inr (d, s') \<and> holds s' ys \<and> xs = d @ ys"
begin

lemma run_in_order:
  "holds s xs \<Longrightarrow> length (xs @ bytes_put ops) < room \<Longrightarrow> \<forall>n. Get n \<in> set ops \<longrightarrow> n < room \<Longrightarrow>
     \<exists>out s' ys. queue_run put get ops s = Inr (out, s') \<and> holds s' ys \<and> xs @ bytes_put ops = out @ ys"
proof (induction ops arbitrary: s xs)
  case (Cons op ops)
  show ?case
  proof (cases op)
    case (Put d)
    from put_holds [OF Cons.prems(1), of d] Cons.prems(2) Put obtain s1
      where s1: "put d s = Inr s1" "holds s1 (xs @ d)" by auto
    from Cons.IH [OF s1(2)] Cons.prems(2,3) Put s1(1) show ?thesis by auto
  next
    case (Get n)
    from get_holds [OF Cons.prems(1), of n] Cons.prems(2,3) Get obtain d s1 zs
      where s1: "get n s = Inr (d, s1)" "holds s1 zs" "xs = d @ zs" by auto
    from Cons.IH [OF s1(2)] Cons.prems(2,3) Get s1(3) obtain out s' ys
      where "queue_run put get ops s1 = Inr (out, s')" "holds s' ys" "zs @ bytes_put ops = out @ ys" by auto
    with Get s1 show ?thesis by auto
  qed
qed auto

end

end
