(* ===== verification/Buffer.thy ===== *)
theory Buffer
  imports ByteQueue
begin

text \<open>
  \<^verbatim>\<open>CBuffer\<close> of \<^verbatim>\<open>socket/tcpserver/Buffer.cpp\<close>: a growing block of bytes that is written at its end and
  read or deleted at its start. Its sizes are 32-bit and wrap; the block is a list of cells. The
  buffer implements a byte queue as long as its contents stay under \<open>2 ^ 32 - 1024\<close> bytes.
\<close>

section \<open>The class\<close>

text \<open>\<^verbatim>\<open>m_pData\<close> is the offset from \<^verbatim>\<open>m_pBase\<close>; \<^term>\<open>None\<close> is the null \<^verbatim>\<open>m_pBase\<close>.\<close>

record cbuffer =
  m_pBase :: "byte option list option"
  m_pData :: nat
  m_nSize :: dword

definition CBuffer :: cbuffer where
  "CBuffer = \<lparr>m_pBase = None, m_pData = 0, m_nSize = 0\<rparr>"

definition GetMemorySize :: "cbuffer \<Rightarrow> dword" where
  "GetMemorySize b = m_nSize b"

definition GetBufferLen :: "cbuffer \<Rightarrow> dword" where
  "GetBufferLen b = (if m_pBase b = None then 0 else of_nat (m_pData b))"

text \<open>\<^verbatim>\<open>(UINT)ceil(n / 1024.0) * 1024\<close>; the quotient is exact in a double, the product is a \<^verbatim>\<open>UINT\<close>.\<close>

definition round_up :: "dword \<Rightarrow> dword" where
  "round_up n = of_nat ((unat n + 1023) div 1024) * 1024"

text \<open>The common end of both allocation functions: a new block with the old contents.\<close>

definition new_block :: "dword \<Rightarrow> cbuffer \<Rightarrow> cbuffer res" where
  "new_block nNewSize b =
     (let pNewBuffer = replicate (unat nNewSize) None; nBufferLen = unat (GetBufferLen b) in
      rbind (mem_read (case m_pBase b of None \<Rightarrow> [] | Some blk \<Rightarrow> blk) 0 nBufferLen) (\<lambda>src.
      rbind (mem_write pNewBuffer 0 src) (\<lambda>blk.
        Inr \<lparr>m_pBase = Some blk, m_pData = nBufferLen, m_nSize = nNewSize\<rparr>)))"

definition ReAllocateBuffer :: "dword \<Rightarrow> cbuffer \<Rightarrow> cbuffer res" where
  "ReAllocateBuffer nRequestSize b =
     (if nRequestSize < GetMemorySize b then Inr b else new_block (round_up nRequestSize) b)"

definition DeAllocateBuffer :: "dword \<Rightarrow> cbuffer \<Rightarrow> cbuffer res" where
  "DeAllocateBuffer nRequestSize b =
     (if nRequestSize < GetBufferLen b then Inr b
      else
        let nNewSize = round_up nRequestSize in
        if nNewSize < GetMemorySize b then Inr b else new_block nNewSize b)"

text \<open>\<^verbatim>\<open>m_pBase + off\<close> as the target of a copy.\<close>

definition base_write :: "nat \<Rightarrow> byte option list \<Rightarrow> cbuffer \<Rightarrow> cbuffer res" where
  "base_write off cells b =
     (case m_pBase b of
        None \<Rightarrow> if cells = [] then Inr b else Inl NullPointer
      | Some blk \<Rightarrow> rbind (mem_write blk off cells) (\<lambda>blk. Inr (b\<lparr>m_pBase := Some blk\<rparr>)))"

definition base_read :: "nat \<Rightarrow> nat \<Rightarrow> cbuffer \<Rightarrow> byte option list res" where
  "base_read off n b =
     (case m_pBase b of
        None \<Rightarrow> if n = 0 then Inr [] else Inl NullPointer
      | Some blk \<Rightarrow> mem_read blk off n)"

definition Write :: "byte list \<Rightarrow> cbuffer \<Rightarrow> cbuffer res" where
  "Write pData b =
     rbind (ReAllocateBuffer (of_nat (length pData) + GetBufferLen b) b) (\<lambda>b.
     rbind (base_write (m_pData b) (map Some pData) b) (\<lambda>b.
       Inr (b\<lparr>m_pData := m_pData b + length pData\<rparr>)))"

definition Insert :: "byte list \<Rightarrow> cbuffer \<Rightarrow> cbuffer res" where
  "Insert pData b =
     (let nSize = of_nat (length pData) in
      rbind (ReAllocateBuffer (nSize + GetBufferLen b) b) (\<lambda>b.
      rbind (base_read 0 (unat (GetMemorySize b - nSize)) b) (\<lambda>moved.
      rbind (base_write (length pData) moved b) (\<lambda>b.
      rbind (base_write 0 (map Some pData) b) (\<lambda>b.
        Inr (b\<lparr>m_pData := m_pData b + length pData\<rparr>))))))"

text \<open>\<open>Read\<close> and \<open>Delete\<close> move the rest of the memory to the front.\<close>

definition shift_down :: "dword \<Rightarrow> cbuffer \<Rightarrow> cbuffer res" where
  "shift_down nSize b =
     rbind (base_read (unat nSize) (unat (GetMemorySize b - nSize)) b) (\<lambda>moved.
     rbind (base_write 0 moved b) (\<lambda>b. Inr (b\<lparr>m_pData := m_pData b - unat nSize\<rparr>)))"

definition Read :: "dword \<Rightarrow> cbuffer \<Rightarrow> (byte list \<times> cbuffer) res" where
  "Read nSize b =
     (if GetMemorySize b < nSize then Inr ([], b)
      else
        let nSize = (if GetBufferLen b < nSize then GetBufferLen b else nSize) in
        rbind (if nSize \<noteq> 0
               then rbind (base_read 0 (unat nSize) b) (\<lambda>cells.
                    rbind (cells_read cells) (\<lambda>out.
                    rbind (shift_down nSize b) (\<lambda>b. Inr (out, b))))
               else Inr ([], b)) (\<lambda>(out, b).
        rbind (DeAllocateBuffer (GetBufferLen b) b) (\<lambda>b. Inr (out, b))))"

definition Delete :: "dword \<Rightarrow> cbuffer \<Rightarrow> (dword \<times> cbuffer) res" where
  "Delete nSize b =
     (if GetMemorySize b < nSize then Inr (0, b)
      else
        let nSize = (if GetBufferLen b < nSize then GetBufferLen b else nSize) in
        rbind (if nSize \<noteq> 0 then shift_down nSize b else Inr b) (\<lambda>b.
        rbind (DeAllocateBuffer (GetBufferLen b) b) (\<lambda>b. Inr (nSize, b))))"

definition ClearBuffer :: "cbuffer \<Rightarrow> cbuffer res" where
  "ClearBuffer b = DeAllocateBuffer 1024 (b\<lparr>m_pData := 0\<rparr>)"

text \<open>\<open>Copy\<close> from another buffer; its sizes pass through \<^verbatim>\<open>int\<close>, which keeps their 32 bits.\<close>

definition Copy :: "cbuffer \<Rightarrow> cbuffer \<Rightarrow> cbuffer res" where
  "Copy buffer b =
     (let nReSize = GetMemorySize buffer; nSize = GetBufferLen buffer in
      rbind (ClearBuffer b) (\<lambda>b.
      rbind (ReAllocateBuffer nReSize b) (\<lambda>b.
      let b = b\<lparr>m_pData := unat nSize\<rparr> in
      rbind (base_read 0 (unat nSize) buffer) (\<lambda>cells. base_write 0 cells b))))"

text \<open>A C string that starts at a cell: up to the first zero byte, which must lie inside the block.\<close>

fun c_string :: "byte option list \<Rightarrow> byte list res" where
  "c_string [] = Inl OutOfBounds"
| "c_string (None # cs) = Inl Uninitialised"
| "c_string (Some x # cs) = (if x = 0 then Inr [] else rbind (c_string cs) (\<lambda>s. Inr (x # s)))"

fun strstr :: "byte list \<Rightarrow> byte list \<Rightarrow> nat option" where
  "strstr [] pat = (if pat = [] then Some 0 else None)"
| "strstr (x # xs) pat =
     (if take (length pat) (x # xs) = pat then Some 0 else map_option Suc (strstr xs pat))"

definition Scan :: "byte list \<Rightarrow> dword \<Rightarrow> cbuffer \<Rightarrow> int res" where
  "Scan pScan nPos b =
     (if GetBufferLen b < nPos then Inr (-1)
      else
        (case m_pBase b of
           None \<Rightarrow> Inl NullPointer
         | Some blk \<Rightarrow>
             rbind (c_string (drop (unat nPos) blk)) (\<lambda>s.
               Inr (case strstr s pScan of
                      None \<Rightarrow> 0
                    | Some k \<Rightarrow> int (unat nPos + k) + int (length pScan)))))"

section \<open>Contents\<close>

text \<open>The buffer holds \<open>xs\<close>: its first cells are \<open>xs\<close>, and its size is the block's.\<close>

definition buf_holds :: "cbuffer \<Rightarrow> byte list \<Rightarrow> bool" where
  "buf_holds b xs \<longleftrightarrow>
     (case m_pBase b of
        None \<Rightarrow> xs = [] \<and> m_pData b = 0 \<and> m_nSize b = 0
      | Some blk \<Rightarrow>
          m_pData b = length xs \<and> length blk = unat (m_nSize b) \<and> length xs \<le> length blk
          \<and> take (length xs) blk = map Some xs)
     \<and> 1024 dvd unat (m_nSize b)"

abbreviation buf_room :: nat where
  "buf_room \<equiv> 2 ^ 32 - 1024"

lemma round_up_unat:
  assumes "unat n \<le> buf_room"
  shows "unat (round_up n) = (unat n + 1023) div 1024 * 1024"
proof -
  have "(unat n + 1023) div 1024 * 1024 \<le> unat n + 1023" by (rule div_times_less_eq_dividend)
  also have "\<dots> < 2 ^ 32" using assms by simp
  finally show ?thesis
    using unat_of_nat_dword [of "(unat n + 1023) div 1024 * 1024"] by (simp add: round_up_def)
qed

lemma round_up_ge: "unat n \<le> buf_room \<Longrightarrow> unat n \<le> unat (round_up n)"
  unfolding round_up_unat by (simp add: algebra_simps)

lemma round_up_dvd: "unat n \<le> buf_room \<Longrightarrow> 1024 dvd unat (round_up n)"
  by (simp add: round_up_unat)

lemma buf_len: "buf_holds b xs \<Longrightarrow> unat (GetBufferLen b) = length xs"
  unfolding buf_holds_def GetBufferLen_def
  using unat_dword_less [of "m_nSize b"] by (auto split: option.splits intro!: unat_of_nat_dword)

lemma new_block_holds:
  assumes h: "buf_holds b xs" and n: "length xs \<le> unat n" "1024 dvd unat n"
  shows "\<exists>b'. new_block n b = Inr b' \<and> buf_holds b' xs \<and> m_nSize b' = n \<and> m_pBase b' \<noteq> None"
proof -
  have "mem_read (case m_pBase b of None \<Rightarrow> [] | Some blk \<Rightarrow> blk) 0 (length xs) = Inr (map Some xs)"
    using h by (auto simp: buf_holds_def mem_read_def split: option.splits)
  with n show ?thesis
    by (auto simp: new_block_def Let_def buf_len [OF h] mem_write_def buf_holds_def)
qed

lemma ReAllocateBuffer_holds:
  assumes h: "buf_holds b xs" and n: "length xs \<le> unat n" "unat n \<le> buf_room"
  shows "\<exists>b'. ReAllocateBuffer n b = Inr b' \<and> buf_holds b' xs \<and> unat n \<le> unat (m_nSize b')
    \<and> (m_pBase b' \<noteq> None)"
proof (cases "n < GetMemorySize b")
  case True
  then have "m_pBase b \<noteq> None" using h by (auto simp: buf_holds_def GetMemorySize_def split: option.splits)
  with True h show ?thesis
    by (simp add: ReAllocateBuffer_def GetMemorySize_def word_less_nat_alt)
next
  case False
  from new_block_holds [OF h, of "round_up n"] round_up_ge [OF n(2)] round_up_dvd [OF n(2)] n(1)
  show ?thesis using False by (fastforce simp: ReAllocateBuffer_def)
qed

lemma DeAllocateBuffer_holds:
  assumes h: "buf_holds b xs" and n: "unat n \<le> buf_room"
  shows "\<exists>b'. DeAllocateBuffer n b = Inr b' \<and> buf_holds b' xs"
proof (cases "n < GetBufferLen b \<or> round_up n < GetMemorySize b")
  case True
  with h show ?thesis by (auto simp: DeAllocateBuffer_def Let_def)
next
  case False
  then have "length xs \<le> unat n" using buf_len [OF h] by (simp add: word_less_nat_alt)
  with new_block_holds [OF h, of "round_up n"] round_up_ge [OF n] round_up_dvd [OF n] False
  show ?thesis by (auto simp: DeAllocateBuffer_def Let_def)
qed

lemma Write_holds:
  assumes h: "buf_holds b xs" and room: "length xs + length d < buf_room"
  shows "\<exists>b'. Write d b = Inr b' \<and> buf_holds b' (xs @ d)"
proof -
  let ?n = "of_nat (length d) + GetBufferLen b :: dword"
  have n: "unat ?n = length d + length xs"
    using room buf_len [OF h] unat_of_nat_dword [of "length d"] by (simp add: unat_word_ariths)
  from ReAllocateBuffer_holds [OF h, of ?n] n room obtain b1 blk where b1: "ReAllocateBuffer ?n b = Inr b1"
      "buf_holds b1 xs" "unat ?n \<le> unat (m_nSize b1)" "m_pBase b1 = Some blk" by auto
  then have "m_pData b1 = length xs" "length blk = unat (m_nSize b1)" "take (length xs) blk = map Some xs"
    by (simp_all add: buf_holds_def)
  then show ?thesis
    using b1 n by (simp add: Write_def base_write_def mem_write_def buf_holds_def)
qed

lemma Insert_holds:
  assumes h: "buf_holds b xs" and room: "length xs + length d < buf_room"
  shows "\<exists>b'. Insert d b = Inr b' \<and> buf_holds b' (d @ xs)"
proof -
  let ?n = "of_nat (length d) + GetBufferLen b :: dword"
  have d: "unat (of_nat (length d) :: dword) = length d" using room unat_of_nat_dword by simp
  have n: "unat ?n = length d + length xs"
    using room buf_len [OF h] d by (simp add: unat_word_ariths)
  from ReAllocateBuffer_holds [OF h, of ?n] n room obtain b1 blk where b1: "ReAllocateBuffer ?n b = Inr b1"
      "buf_holds b1 xs" "unat ?n \<le> unat (m_nSize b1)" "m_pBase b1 = Some blk" by auto
  then have blk: "m_pData b1 = length xs" "length blk = unat (m_nSize b1)" "take (length xs) blk = map Some xs"
    by (simp_all add: buf_holds_def)
  have diff: "unat (GetMemorySize b1 - of_nat (length d)) = length blk - length d"
    using d b1(3) n blk by (simp add: GetMemorySize_def unat_sub word_le_nat_alt)
  have fits: "length d + length xs \<le> length blk" using blk b1(3) n by simp
  have "take (length xs) (take (length blk - length d) blk) = map Some xs"
    using blk(3) fits by (simp add: min_absorb1)
  with fits show ?thesis
    using b1 n blk
    by (simp add: Insert_def Let_def base_write_def base_read_def mem_write_def mem_read_def diff buf_holds_def
        take_append)
qed

lemma shift_down_holds:
  assumes h: "buf_holds b xs" and n: "unat n \<le> length xs" "n \<noteq> 0"
  shows "\<exists>b'. shift_down n b = Inr b' \<and> buf_holds b' (drop (unat n) xs)"
proof -
  have "xs \<noteq> []" using n by (auto simp: unat_eq_0)
  then obtain blk where blk: "m_pBase b = Some blk" "m_pData b = length xs" "length blk = unat (m_nSize b)"
      "length xs \<le> length blk" "take (length xs) blk = map Some xs" "1024 dvd unat (m_nSize b)"
    using h by (auto simp: buf_holds_def split: option.splits)
  have diff: "unat (GetMemorySize b - n) = length blk - unat n"
    using n blk by (simp add: GetMemorySize_def unat_sub word_le_nat_alt)
  have "take (length xs - unat n) (drop (unat n) blk) = drop (unat n) (take (length xs) blk)"
    by (simp add: drop_take)
  then have "take (length xs - unat n) (drop (unat n) blk) = map Some (drop (unat n) xs)"
    using blk(5) by (simp add: drop_map)
  then show ?thesis
    using blk n
    by (simp add: shift_down_def base_read_def base_write_def mem_read_def mem_write_def diff buf_holds_def)
qed

lemma Read_holds:
  assumes h: "buf_holds b xs" and room: "length xs < buf_room"
  shows "\<exists>b'. Read n b = Inr (if GetMemorySize b < n then [] else take (unat n) xs, b')
    \<and> buf_holds b' (if GetMemorySize b < n then xs else drop (unat n) xs)"
proof (cases "GetMemorySize b < n")
  case True
  with h show ?thesis by (simp add: Read_def)
next
  case False
  let ?n = "if GetBufferLen b < n then GetBufferLen b else n"
  have len: "unat ?n = min (unat n) (length xs)"
    using buf_len [OF h] by (auto simp: word_less_nat_alt)
  show ?thesis
  proof (cases "?n = 0")
    case True
    then have "unat n = 0 \<or> xs = []" using len by (auto simp: min_def split: if_splits)
    then have "take (unat n) xs = []" "drop (unat n) xs = xs" by auto
    moreover have "unat (GetBufferLen b) \<le> buf_room" using buf_len [OF h] room by simp
    ultimately show ?thesis
      using DeAllocateBuffer_holds [OF h, of "GetBufferLen b"] False True by (auto simp: Read_def Let_def)
  next
    case no: False
    obtain b1 where b1: "shift_down ?n b = Inr b1" "buf_holds b1 (drop (unat ?n) xs)"
      using shift_down_holds [OF h, of ?n] no len by auto
    have cells: "base_read 0 (unat ?n) b = Inr (map Some (take (unat n) xs))"
    proof -
      have "xs \<noteq> []" using no len by (auto simp: unat_eq_0)
      then obtain blk where "m_pBase b = Some blk" "length xs \<le> length blk" "take (length xs) blk = map Some xs"
        using h by (auto simp: buf_holds_def split: option.splits)
      then show ?thesis
        unfolding len base_read_def mem_read_def by (simp add: take_map flip: take_take)
    qed
    have "unat (GetBufferLen b1) \<le> buf_room" using buf_len [OF b1(2)] room by simp
    from DeAllocateBuffer_holds [OF b1(2) this] obtain b2 where
      b2: "DeAllocateBuffer (GetBufferLen b1) b1 = Inr b2" "buf_holds b2 (drop (unat ?n) xs)" by auto
    have "drop (unat ?n) xs = drop (unat n) xs" unfolding len by (simp add: min_def)
    then show ?thesis
      using False no b1 b2 cells by (simp add: Read_def Let_def)
  qed
qed

lemma Delete_holds:
  assumes h: "buf_holds b xs" and room: "length xs < buf_room"
  shows "\<exists>k b'. Delete n b = Inr (k, b') \<and> unat k = (if GetMemorySize b < n then 0 else min (unat n) (length xs))
    \<and> buf_holds b' (drop (unat k) xs)"
proof (cases "GetMemorySize b < n")
  case True
  with h show ?thesis by (simp add: Delete_def)
next
  case False
  let ?n = "if GetBufferLen b < n then GetBufferLen b else n"
  have len: "unat ?n = min (unat n) (length xs)"
    using buf_len [OF h] by (auto simp: word_less_nat_alt)
  obtain b1 where b1: "(if ?n \<noteq> 0 then shift_down ?n b else Inr b) = Inr b1" "buf_holds b1 (drop (unat ?n) xs)"
    using shift_down_holds [OF h, of ?n] h len by (cases "?n = 0") auto
  have "unat (GetBufferLen b1) \<le> buf_room" using buf_len [OF b1(2)] room by simp
  from DeAllocateBuffer_holds [OF b1(2) this] obtain b2 where
    b2: "DeAllocateBuffer (GetBufferLen b1) b1 = Inr b2" "buf_holds b2 (drop (unat ?n) xs)" by auto
  have "Delete n b = Inr (?n, b2)" using False b1(1) b2(1) by (simp add: Delete_def Let_def)
  with b2(2) len False show ?thesis by auto
qed

lemma buf_holds_clear: "buf_holds b xs \<Longrightarrow> buf_holds (b\<lparr>m_pData := 0\<rparr>) []"
  by (auto simp: buf_holds_def split: option.splits)

lemma ClearBuffer_holds: "buf_holds b xs \<Longrightarrow> \<exists>b'. ClearBuffer b = Inr b' \<and> buf_holds b' []"
  unfolding ClearBuffer_def by (rule DeAllocateBuffer_holds [OF buf_holds_clear]) simp_all

lemma Copy_holds:
  assumes src: "buf_holds src xs" and b: "buf_holds b ys" and room: "unat (m_nSize src) \<le> buf_room"
  shows "\<exists>b'. Copy src b = Inr b' \<and> buf_holds b' xs"
proof -
  from ClearBuffer_holds [OF b] obtain b1 where b1: "ClearBuffer b = Inr b1" "buf_holds b1 []" by auto
  from ReAllocateBuffer_holds [OF b1(2), of "m_nSize src"] room obtain b2 blk where b2:
      "ReAllocateBuffer (m_nSize src) b1 = Inr b2" "buf_holds b2 []" "unat (m_nSize src) \<le> unat (m_nSize b2)"
      "m_pBase b2 = Some blk" by auto
  have "length xs \<le> unat (m_nSize src)" using src by (auto simp: buf_holds_def split: option.splits)
  then have fits: "length xs \<le> length blk" "length blk = unat (m_nSize b2)"
    using b2 by (auto simp: buf_holds_def)
  have "base_read 0 (length xs) src = Inr (map Some xs)"
    using src by (auto simp: base_read_def mem_read_def buf_holds_def split: option.splits)
  then show ?thesis
    using b1(1) b2 fits
    by (simp add: Copy_def Let_def GetMemorySize_def buf_len [OF src] base_write_def mem_write_def buf_holds_def)
qed

section \<open>The queue\<close>

interpretation cbuffer: byte_queue buf_holds Write "\<lambda>n. Read (of_nat n)" buf_room
proof
  fix s xs and d :: "byte list"
  assume "buf_holds s xs" "length xs + length d < buf_room"
  then show "\<exists>s'. Write d s = Inr s' \<and> buf_holds s' (xs @ d)" by (rule Write_holds)
next
  fix s xs n
  assume h: "buf_holds s xs" "length xs < buf_room" and "n < buf_room"
  define w :: dword where "w = of_nat n"
  let ?big = "GetMemorySize s < w"
  from Read_holds [OF h, of w] obtain b' where
      "Read w s = Inr (if ?big then [] else take (unat w) xs, b')"
      "buf_holds b' (if ?big then xs else drop (unat w) xs)" by blast
  then have "\<exists>d s' ys. Read w s = Inr (d, s') \<and> buf_holds s' ys \<and> xs = d @ ys"
    by (intro exI conjI) (assumption, assumption, simp)
  then show "\<exists>d s' ys. Read (of_nat n) s = Inr (d, s') \<and> buf_holds s' ys \<and> xs = d @ ys"
    by (simp only: w_def)
qed

lemma CBuffer_empty: "buf_holds CBuffer []"
  by (simp add: buf_holds_def CBuffer_def)

section \<open>Properties\<close>

text \<open>C30: for every sequence of writes and reads on a new buffer that takes fewer than \<open>2 ^ 32 - 1024\<close> bytes,
  no access leaves the block, and the bytes read, followed by the bytes still inside, are the bytes written,
  in their order.\<close>

theorem CBuffer_keeps_order:
  assumes "length (bytes_put ops) < buf_room" and "\<forall>n. Get n \<in> set ops \<longrightarrow> n < buf_room"
  shows "\<exists>out b ys. queue_run Write (\<lambda>n. Read (of_nat n)) ops CBuffer = Inr (out, b)
    \<and> buf_holds b ys \<and> bytes_put ops = out @ ys"
  using cbuffer.run_in_order [OF CBuffer_empty, of ops] assms by simp

theorem CBuffer_keeps_order_witness:
  "\<exists>out b ys. queue_run Write (\<lambda>n. Read (of_nat n)) [Put [1, 2, 3], Get 2, Put [4], Get 5] CBuffer = Inr (out, b)
    \<and> buf_holds b ys \<and> [1, 2, 3, 4] = out @ ys"
  using CBuffer_keeps_order [of "[Put [1, 2, 3], Get 2, Put [4], Get 5]"] by auto

text \<open>Read gives the first bytes, as many as asked for and there, and removes them; but a request for more
  than the size of the block gives nothing, however many bytes there are.\<close>

theorem CBuffer_Read:
  assumes "buf_holds b xs" and "length xs < buf_room"
  shows "\<exists>b'. Read n b = Inr (if m_nSize b < n then [] else take (unat n) xs, b')
    \<and> buf_holds b' (if m_nSize b < n then xs else drop (unat n) xs)"
  using Read_holds [OF assms, of n] by (simp add: GetMemorySize_def)

theorem CBuffer_Read_witness:
  "\<exists>b'. Read 2 \<lparr>m_pBase = Some (map Some [7, 8, 9] @ replicate 1021 None), m_pData = 3, m_nSize = 1024\<rparr>
      = Inr ([7, 8], b') \<and> buf_holds b' [9]"
proof -
  have "buf_holds \<lparr>m_pBase = Some (map Some [7, 8, 9] @ replicate 1021 None), m_pData = 3, m_nSize = 1024\<rparr> [7, 8, 9]"
    by (simp add: buf_holds_def)
  from CBuffer_Read [OF this, of 2] show ?thesis by simp
qed

text \<open>Insert puts its bytes before the contents, Copy makes the contents those of the other buffer.\<close>

theorem CBuffer_Insert_Copy:
  assumes "buf_holds b xs" and "length xs + length d < buf_room"
    and "buf_holds src ys" and "unat (m_nSize src) \<le> buf_room"
  shows "(\<exists>b'. Insert d b = Inr b' \<and> buf_holds b' (d @ xs)) \<and> (\<exists>b'. Copy src b = Inr b' \<and> buf_holds b' ys)"
  using Insert_holds [OF assms(1,2)] Copy_holds [OF assms(3,1,4)] by blast

theorem CBuffer_Insert_Copy_witness:
  "(\<exists>b'. Insert [1, 2] CBuffer = Inr b' \<and> buf_holds b' [1, 2]) \<and> (\<exists>b'. Copy CBuffer CBuffer = Inr b' \<and> buf_holds b' [])"
  using CBuffer_Insert_Copy [OF CBuffer_empty, of "[1, 2]" CBuffer "[]"] CBuffer_empty
  by (simp add: CBuffer_def)

end
