(* ===== verification/MemPool.thy ===== *)
theory MemPool
  imports Recycler
begin

text \<open>
  \<^verbatim>\<open>CMem\<close>, \<^verbatim>\<open>CMemPool\<close> and \<^verbatim>\<open>CMemAlloctor\<close> of \<^verbatim>\<open>IOCompletePort/MemAlloctor.cpp\<close>: the pool that the
  overlapped operations of the completion port are allocated from. A block is an array of ten
  kilobytes with a flag and a size. For requests that fit a block the pool is a recycling pool, and
  what it hands out is zero; a larger request writes past the array.
\<close>

section \<open>A block\<close>

definition nTenKB :: nat where "nTenKB = 1024 * 10"

record cmem =
  m_byte :: "byte option list"
  m_bFree :: bool
  mem_size :: nat

text \<open>Both constructors; \<open>_NewBuf\<close> clears as many bytes as were asked for, whatever the array has.\<close>

definition NewBuf :: "nat \<Rightarrow> byte option list \<Rightarrow> byte option list res" where
  "NewBuf nsize buf = mem_write buf 0 (replicate nsize (Some 0))"

definition CMem :: "nat \<Rightarrow> cmem res" where
  "CMem nsize =
     (let size = (if nsize = 0 then 1 else nsize) in
      rbind (NewBuf size (replicate nTenKB None)) (\<lambda>buf.
        Inr \<lparr>m_byte = buf, m_bFree = True, mem_size = size\<rparr>))"

definition UseMem :: "nat \<Rightarrow> cmem \<Rightarrow> bool \<times> cmem" where
  "UseMem nsize m = (if nsize \<le> mem_size m then (True, m\<lparr>m_bFree := False\<rparr>) else (False, m))"

definition UnUseMem :: "cmem \<Rightarrow> (bool \<times> cmem) res" where
  "UnUseMem m =
     (if \<not> m_bFree m then
        rbind (mem_write (m_byte m) 0 (replicate (mem_size m) (Some 0))) (\<lambda>buf.
          Inr (True, m\<lparr>m_bFree := True, m_byte := buf\<rparr>))
      else Inr (False, m))"

section \<open>The pool\<close>

text \<open>
  The pointer a caller gets is \<^verbatim>\<open>m_byte\<close>, and \<^verbatim>\<open>CONTAINING_RECORD\<close> leads from it back to its block: both
  are the block's address here.
\<close>

record mem_pool =
  m_vecMemBuf :: "nat list"
  m_vecOtherMembuf :: "nat list"
  m_listFreeMem :: "nat list"
  m_listBusyMem :: "nat list"
  mems :: "nat \<rightharpoonup> cmem"
  mem_next :: nat

definition pool_empty :: mem_pool where
  "pool_empty = \<lparr>m_vecMemBuf = [], m_vecOtherMembuf = [], m_listFreeMem = [], m_listBusyMem = [],
     mems = Map.empty, mem_next = 0\<rparr>"

definition mem_at :: "mem_pool \<Rightarrow> nat \<Rightarrow> cmem res" where
  "mem_at p a = (case mems p a of None \<Rightarrow> Inl UseAfterFree | Some m \<Rightarrow> Inr m)"

definition new_mem :: "nat \<Rightarrow> mem_pool \<Rightarrow> (nat \<times> mem_pool) res" where
  "new_mem nsize p =
     rbind (CMem nsize) (\<lambda>m.
       Inr (mem_next p, p\<lparr>mems := (mems p)(mem_next p \<mapsto> m), mem_next := Suc (mem_next p)\<rparr>))"

definition nInitMaxCount :: nat where "nInitMaxCount = 100"

fun initMemBuf :: "nat \<Rightarrow> mem_pool \<Rightarrow> mem_pool res" where
  "initMemBuf 0 p = Inr p"
| "initMemBuf (Suc i) p =
     rbind (new_mem nTenKB p) (\<lambda>(a, p).
       initMemBuf i (p\<lparr>m_vecMemBuf := m_vecMemBuf p @ [a], m_listFreeMem := m_listFreeMem p @ [a]\<rparr>))"

definition CMemPool :: "mem_pool res" where
  "CMemPool = initMemBuf nInitMaxCount pool_empty"

text \<open>\<open>_clearMemBuf\<close>: one loop over each vector. A block that is gone already is deleted twice.\<close>

fun clear_loop :: "nat list \<Rightarrow> (nat \<rightharpoonup> cmem) \<Rightarrow> (nat \<rightharpoonup> cmem) res" where
  "clear_loop [] ms = Inr ms"
| "clear_loop (a # as) ms = (if ms a = None then Inl UseAfterFree else clear_loop as (ms(a := None)))"

definition clearMemBuf :: "mem_pool \<Rightarrow> mem_pool res" where
  "clearMemBuf p =
     rbind (clear_loop (m_vecMemBuf p) (mems p)) (\<lambda>ms.
     rbind (clear_loop (m_vecOtherMembuf p) ms) (\<lambda>ms.
       Inr (p\<lparr>m_vecMemBuf := [], m_vecOtherMembuf := [], mems := ms\<rparr>)))"

text \<open>The search: the first block of the free list that is large enough, with the list without it.\<close>

fun find_free :: "nat \<Rightarrow> mem_pool \<Rightarrow> nat list \<Rightarrow> (nat \<times> nat list) option res" where
  "find_free nsize p [] = Inr None"
| "find_free nsize p (a # as) =
     rbind (mem_at p a) (\<lambda>m.
       if nsize \<le> mem_size m then Inr (Some (a, as))
       else rbind (find_free nsize p as) (\<lambda>r.
              Inr (case r of None \<Rightarrow> None | Some (b, bs) \<Rightarrow> Some (b, a # bs))))"

definition use_at :: "nat \<Rightarrow> nat \<Rightarrow> mem_pool \<Rightarrow> mem_pool res" where
  "use_at nsize a p =
     rbind (mem_at p a) (\<lambda>m. Inr (p\<lparr>mems := (mems p)(a \<mapsto> snd (UseMem nsize m))\<rparr>))"

definition NewMem :: "nat \<Rightarrow> mem_pool \<Rightarrow> (nat \<times> mem_pool) res" where
  "NewMem nsize p =
     rbind (find_free nsize p (m_listFreeMem p)) (\<lambda>found.
     case found of
       Some (a, rest) \<Rightarrow>
         rbind (use_at nsize a p) (\<lambda>p.
           Inr (a, p\<lparr>m_listFreeMem := rest, m_listBusyMem := m_listBusyMem p @ [a]\<rparr>))
     | None \<Rightarrow>
         rbind (if nsize \<le> nTenKB
                then rbind (new_mem nTenKB p) (\<lambda>(a, p). Inr (a, p\<lparr>m_vecMemBuf := m_vecMemBuf p @ [a]\<rparr>))
                else rbind (new_mem nsize p) (\<lambda>(a, p). Inr (a, p\<lparr>m_vecOtherMembuf := m_vecOtherMembuf p @ [a]\<rparr>)))
           (\<lambda>(a, p).
         rbind (use_at nsize a p) (\<lambda>p. Inr (a, p\<lparr>m_listBusyMem := m_listBusyMem p @ [a]\<rparr>))))"

definition DeleteMem :: "nat \<Rightarrow> mem_pool \<Rightarrow> mem_pool res" where
  "DeleteMem a p =
     rbind (mem_at p a) (\<lambda>m.
     rbind (UnUseMem m) (\<lambda>(_, m).
       Inr (p\<lparr>mems := (mems p)(a \<mapsto> m), m_listBusyMem := removeAll a (m_listBusyMem p),
              m_listFreeMem := m_listFreeMem p @ [a]\<rparr>)))"

text \<open>The operators of \<^verbatim>\<open>CMemAlloctor\<close>.\<close>

definition operator_new :: "nat \<Rightarrow> mem_pool \<Rightarrow> (nat \<times> mem_pool) res" where
  "operator_new nsize p = NewMem nsize p"

definition operator_delete :: "nat \<Rightarrow> mem_pool \<Rightarrow> mem_pool res" where
  "operator_delete a p = DeleteMem a p"

section \<open>Invariant\<close>

definition zeroed :: "byte option list" where
  "zeroed = replicate nTenKB (Some 0)"

lemma length_zeroed [simp]: "length zeroed = nTenKB"
  by (simp add: zeroed_def)

text \<open>Every block is on one of the two lists, once; a free one is marked free and zero.\<close>

definition pool_ok :: "mem_pool \<Rightarrow> bool" where
  "pool_ok p \<longleftrightarrow>
     distinct (m_listFreeMem p @ m_listBusyMem p) \<and> set (m_listFreeMem p @ m_listBusyMem p) = dom (mems p)
     \<and> (\<forall>a. mem_next p \<le> a \<longrightarrow> mems p a = None)
     \<and> (\<forall>a m. mems p a = Some m \<longrightarrow> mem_size m = nTenKB \<and> length (m_byte m) = nTenKB
           \<and> (a \<in> set (m_listFreeMem p) \<longleftrightarrow> m_bFree m) \<and> (m_bFree m \<longrightarrow> m_byte m = zeroed))"

definition pool_used :: "mem_pool \<Rightarrow> nat set" where
  "pool_used p = set (m_listBusyMem p)"

lemma CMem_ten: "CMem nTenKB = Inr \<lparr>m_byte = zeroed, m_bFree = True, mem_size = nTenKB\<rparr>"
  by (simp add: CMem_def NewBuf_def mem_write_def zeroed_def nTenKB_def)

lemma CMem_overflow: "nTenKB < n \<Longrightarrow> CMem n = Inl OutOfBounds"
  by (simp add: CMem_def NewBuf_def mem_write_def)

lemma pool_ok_block:
  "pool_ok p \<Longrightarrow> a \<in> set (m_listFreeMem p) \<Longrightarrow>
     \<exists>m. mems p a = Some m \<and> mem_size m = nTenKB \<and> m_bFree m \<and> m_byte m = zeroed"
  unfolding pool_ok_def by (metis UnI1 domD set_append)

lemma find_free_first:
  assumes "pool_ok p" and "nsize \<le> nTenKB" and "m_listFreeMem p = a # as"
  shows "find_free nsize p (a # as) = Inr (Some (a, as))"
  using pool_ok_block [OF assms(1), of a] assms(2,3) by (auto simp: mem_at_def)

lemma NewMem_ok:
  assumes ok: "pool_ok p" and n: "nsize \<le> nTenKB"
  shows "\<exists>a p'. NewMem nsize p = Inr (a, p') \<and> pool_ok p' \<and> a \<notin> pool_used p \<and> pool_used p' = insert a (pool_used p)
    \<and> (\<exists>m. mems p' a = Some m \<and> m_byte m = zeroed \<and> nsize \<le> mem_size m)"
proof (cases "m_listFreeMem p")
  case Nil
  let ?a = "mem_next p"
  let ?m = "\<lparr>m_byte = zeroed, m_bFree = False, mem_size = nTenKB\<rparr>"
  let ?p = "p\<lparr>mems := (mems p)(?a \<mapsto> ?m), mem_next := Suc ?a, m_vecMemBuf := m_vecMemBuf p @ [?a],
      m_listBusyMem := m_listBusyMem p @ [?a]\<rparr>"
  have "NewMem nsize p = Inr (?a, ?p)"
    using Nil n by (simp add: NewMem_def new_mem_def CMem_ten use_at_def mem_at_def UseMem_def)
  moreover have "?a \<notin> dom (mems p)" using ok by (auto simp: pool_ok_def)
  ultimately show ?thesis
    using ok Nil n by (auto simp: pool_ok_def pool_used_def)
next
  case (Cons a as)
  obtain m where m: "mems p a = Some m" "mem_size m = nTenKB" "m_bFree m" "m_byte m = zeroed"
    using pool_ok_block [OF ok, of a] Cons by auto
  let ?p = "p\<lparr>mems := (mems p)(a \<mapsto> m\<lparr>m_bFree := False\<rparr>), m_listFreeMem := as,
      m_listBusyMem := m_listBusyMem p @ [a]\<rparr>"
  have run: "NewMem nsize p = Inr (a, ?p)"
    using Cons n m by (simp add: NewMem_def find_free_first [OF ok n Cons] use_at_def mem_at_def UseMem_def)
  have "pool_ok ?p" using ok Cons m unfolding pool_ok_def by (auto simp: insert_absorb)
  moreover have "a \<notin> pool_used p" using ok Cons by (auto simp: pool_ok_def pool_used_def)
  ultimately show ?thesis using run m n by (auto simp: pool_used_def)
qed

lemma DeleteMem_ok:
  assumes ok: "pool_ok p" and a: "a \<in> pool_used p"
  shows "\<exists>p'. DeleteMem a p = Inr p' \<and> pool_ok p' \<and> pool_used p' = pool_used p - {a}"
proof -
  have "a \<in> dom (mems p)" "a \<notin> set (m_listFreeMem p)" using ok a by (auto simp: pool_ok_def pool_used_def)
  then obtain m where m: "mems p a = Some m" "mem_size m = nTenKB" "length (m_byte m) = nTenKB" "\<not> m_bFree m"
    using ok by (auto simp: pool_ok_def)
  let ?p = "p\<lparr>mems := (mems p)(a \<mapsto> m\<lparr>m_bFree := True, m_byte := zeroed\<rparr>),
      m_listBusyMem := removeAll a (m_listBusyMem p), m_listFreeMem := m_listFreeMem p @ [a]\<rparr>"
  have "DeleteMem a p = Inr ?p"
    using m by (simp add: DeleteMem_def mem_at_def UnUseMem_def mem_write_def zeroed_def)
  moreover have "pool_ok ?p"
  proof -
    have "distinct (m_listFreeMem ?p @ m_listBusyMem ?p)"
      using ok \<open>a \<notin> set (m_listFreeMem p)\<close> by (auto simp: pool_ok_def distinct_removeAll)
    moreover have "set (m_listFreeMem ?p @ m_listBusyMem ?p) = dom (mems ?p)"
      using ok \<open>a \<in> dom (mems p)\<close> by (auto simp: pool_ok_def)
    ultimately show ?thesis using ok m unfolding pool_ok_def by auto
  qed
  ultimately show ?thesis by (auto simp: pool_used_def)
qed

interpretation mem_pool: recycler pool_ok pool_used "\<lambda>n. n \<le> nTenKB" NewMem DeleteMem
proof
  show "\<exists>a p'. NewMem n p = Inr (a, p') \<and> pool_ok p' \<and> a \<notin> pool_used p \<and> pool_used p' = insert a (pool_used p)"
    if "pool_ok p" "n \<le> nTenKB" for p n
    using NewMem_ok [OF that] by blast
qed (rule DeleteMem_ok)

lemma initMemBuf_ok:
  assumes "pool_ok p" and "pool_used p = {}"
  shows "\<exists>p'. initMemBuf n p = Inr p' \<and> pool_ok p' \<and> pool_used p' = {}
    \<and> length (m_listFreeMem p') = length (m_listFreeMem p) + n"
  using assms
proof (induction n arbitrary: p)
  case (Suc n)
  let ?a = "mem_next p"
  let ?p = "p\<lparr>mems := (mems p)(?a \<mapsto> \<lparr>m_byte = zeroed, m_bFree = True, mem_size = nTenKB\<rparr>), mem_next := Suc ?a,
      m_vecMemBuf := m_vecMemBuf p @ [?a], m_listFreeMem := m_listFreeMem p @ [?a]\<rparr>"
  have "?a \<notin> dom (mems p)" using Suc.prems by (auto simp: pool_ok_def)
  then have "pool_ok ?p" "pool_used ?p = {}"
    using Suc.prems by (auto simp: pool_ok_def pool_used_def domI)
  from Suc.IH [OF this] show ?case by (auto simp: new_mem_def CMem_ten)
qed simp

lemma CMemPool_ok:
  "\<exists>p. CMemPool = Inr p \<and> pool_ok p \<and> pool_used p = {} \<and> length (m_listFreeMem p) = 100"
proof -
  have "pool_ok pool_empty" "pool_used pool_empty = {}"
    by (simp_all add: pool_ok_def pool_used_def pool_empty_def)
  from initMemBuf_ok [OF this, of nInitMaxCount] show ?thesis
    by (simp add: CMemPool_def nInitMaxCount_def pool_empty_def)
qed

lemma NewMem_large:
  assumes "pool_ok p" and "nTenKB < nsize"
  shows "NewMem nsize p = Inl OutOfBounds"
proof -
  have "find_free nsize p l = Inr None" if "set l \<subseteq> set (m_listFreeMem p)" for l
    using that
  proof (induction l)
    case (Cons a l)
    then obtain m where "mems p a = Some m" "mem_size m = nTenKB"
      using pool_ok_block [OF assms(1), of a] by auto
    with Cons assms(2) show ?case by (simp add: mem_at_def)
  qed simp
  then show ?thesis using assms(2) by (simp add: NewMem_def new_mem_def CMem_overflow)
qed

section \<open>Properties\<close>

text \<open>C29: whatever blocks of up to 10240 bytes the program asks of the pool and gives back, in any order,
  nothing faults and no two pointers it holds are the same block.\<close>

theorem pool_blocks_exclusive:
  assumes "CMemPool = Inr p" and "\<forall>n. Take n \<in> set ops \<longrightarrow> n \<le> nTenKB"
  shows "\<exists>p' held. pool_run NewMem DeleteMem ops (p, []) = Inr (p', held) \<and> distinct held
    \<and> set held \<subseteq> set (m_listBusyMem p')"
proof -
  have "pool_ok p" using CMemPool_ok assms(1) by (metis sum.inject(2))
  from mem_pool.run_exclusive [OF this, of "[]" ops] assms(2) show ?thesis by (auto simp: pool_used_def)
qed

theorem pool_blocks_exclusive_witness:
  "\<exists>p p' held. CMemPool = Inr p
    \<and> pool_run NewMem DeleteMem [Take 100, Take 10240, Give 0, Take 1] (p, []) = Inr (p', held) \<and> distinct held"
proof -
  obtain p where p: "CMemPool = Inr p" using CMemPool_ok by blast
  have "\<forall>n. Take n \<in> set [Take 100, Take 10240, Give 0, Take 1] \<longrightarrow> n \<le> nTenKB"
    by (auto simp: nTenKB_def)
  from pool_blocks_exclusive [OF p this] p show ?thesis by blast
qed

text \<open>A block the pool hands out is all zero, however it was used before, and is as large as asked for.\<close>

theorem pool_memory_is_zero:
  assumes "pool_ok p" and "n \<le> nTenKB"
  shows "\<exists>a p' m. NewMem n p = Inr (a, p') \<and> mems p' a = Some m \<and> m_byte m = replicate 10240 (Some 0) \<and> n \<le> mem_size m"
  using NewMem_ok [OF assms] by (auto simp: zeroed_def nTenKB_def)

theorem pool_memory_is_zero_witness:
  "\<exists>a p' m. NewMem 24 pool_empty = Inr (a, p') \<and> mems p' a = Some m \<and> m_byte m = replicate 10240 (Some 0)"
proof -
  have "pool_ok pool_empty" "24 \<le> nTenKB" by (simp_all add: pool_ok_def pool_empty_def nTenKB_def)
  from pool_memory_is_zero [OF this] show ?thesis by blast
qed

text \<open>A request for more than 10240 bytes makes the constructor of the block write past its array.\<close>

theorem pool_large_request_overflows:
  assumes "pool_ok p" and "nTenKB < n"
  shows "NewMem n p = Inl OutOfBounds"
  by (rule NewMem_large [OF assms])

theorem pool_large_request_overflows_witness: "NewMem 10241 pool_empty = Inl OutOfBounds"
  by (rule pool_large_request_overflows) (simp_all add: pool_ok_def pool_empty_def nTenKB_def)

end
