(* ===== verification/UseCount.thy ===== *)
theory UseCount
  imports Prelude
begin

text \<open>
  \<^verbatim>\<open>CUseCount\<close> of \<^verbatim>\<open>common/UseCount.cpp\<close>: a use count shared by handles. Handles are numbered objects
  that point to counters on the heap. The specification is the number of handles of each counter; every
  public operation keeps it, the private assignment operator does not.
\<close>

record use_state =
  handles :: "nat \<rightharpoonup> nat"
  counters :: "nat \<rightharpoonup> int"
  counter_next :: nat

definition use_init :: use_state where
  "use_init = \<lparr>handles = Map.empty, counters = Map.empty, counter_next = 0\<rparr>"

definition m_pCount :: "use_state \<Rightarrow> nat \<Rightarrow> nat res" where
  "m_pCount st u = (case handles st u of None \<Rightarrow> Inl UseAfterFree | Some a \<Rightarrow> Inr a)"

definition count_at :: "use_state \<Rightarrow> nat \<Rightarrow> int res" where
  "count_at st a = (case counters st a of None \<Rightarrow> Inl UseAfterFree | Some n \<Rightarrow> Inr n)"

definition atomic_add :: "int \<Rightarrow> nat \<Rightarrow> use_state \<Rightarrow> use_state res" where
  "atomic_add d a st = rbind (count_at st a) (\<lambda>n. Inr (st\<lparr>counters := (counters st)(a \<mapsto> n + d)\<rparr>))"

abbreviation atomic_inc :: "nat \<Rightarrow> use_state \<Rightarrow> use_state res" where "atomic_inc \<equiv> atomic_add 1"

abbreviation atomic_dec :: "nat \<Rightarrow> use_state \<Rightarrow> use_state res" where "atomic_dec \<equiv> atomic_add (-1)"

definition delete_counter :: "nat \<Rightarrow> use_state \<Rightarrow> use_state" where
  "delete_counter a st = st\<lparr>counters := (counters st)(a := None)\<rparr>"

section \<open>Operations\<close>

text \<open>The constructors and the destructor take the number of the object they run on.\<close>

definition CUseCount :: "nat \<Rightarrow> use_state \<Rightarrow> use_state" where
  "CUseCount this st =
     (let a = counter_next st in
      st\<lparr>handles := (handles st)(this \<mapsto> a), counters := (counters st)(a \<mapsto> 1), counter_next := Suc a\<rparr>)"






text \<open>The private assignment: both the increment and the decrement are on the counter of \<open>u\<close>.\<close>

definition assign :: "nat \<Rightarrow> nat \<Rightarrow> use_state \<Rightarrow> use_state res" where
  "assign this u st =
     rbind (m_pCount st u) (\<lambda>b.
     rbind (m_pCount st this) (\<lambda>a.
     rbind (atomic_inc b st) (\<lambda>st.
     rbind (atomic_dec b st) (\<lambda>st.
     rbind (count_at st a) (\<lambda>n.
     let st = (if n \<le> 0 then delete_counter a st else st)
     in Inr (st\<lparr>handles := (handles st)(this \<mapsto> b)\<rparr>))))))"

section \<open>Specification\<close>

text \<open>The handles of a counter.\<close>

definition refs :: "use_state \<Rightarrow> nat \<Rightarrow> nat set" where
  "refs st a = {h. handles st h = Some a}"

definition counts_ok :: "use_state \<Rightarrow> bool" where
  "counts_ok st \<longleftrightarrow>
     finite (dom (handles st)) \<and> (\<forall>a. counter_next st \<le> a \<longrightarrow> counters st a = None)
     \<and> (\<forall>a. counters st a = (if refs st a = {} then None else Some (int (card (refs st a)))))"



lemma counts_init: "counts_ok use_init"
  by (simp add: counts_ok_def use_init_def refs_def)

lemma finite_refs: "counts_ok st \<Longrightarrow> finite (refs st a)"
  by (rule finite_subset [of _ "dom (handles st)"]) (auto simp: refs_def counts_ok_def)

lemma handle_alive:
  assumes "counts_ok st" and "handles st h = Some a"
  shows "counters st a = Some (int (card (refs st a)))" and "0 < card (refs st a)" and "a < counter_next st"
proof -
  have h: "h \<in> refs st a" using assms(2) by (simp add: refs_def)
  then show "counters st a = Some (int (card (refs st a)))" using assms(1) by (auto simp: counts_ok_def)
  then show "a < counter_next st" using assms(1) by (force simp: counts_ok_def not_le)
  show "0 < card (refs st a)" using h finite_refs [OF assms(1)] by (auto simp: card_gt_0_iff)
qed

lemma refs_update:
  "refs (st\<lparr>handles := (handles st)(h := p)\<rparr>) a = (if p = Some a then insert h (refs st a) else refs st a - {h})"
  by (auto simp: refs_def)

lemma refs_counters [simp]:
  "refs (st\<lparr>counters := c\<rparr>) = refs st" "refs (st\<lparr>counter_next := n\<rparr>) = refs st"
  by (simp_all add: refs_def fun_eq_iff)

lemma refs_beyond: "counts_ok st \<Longrightarrow> counter_next st \<le> a \<Longrightarrow> refs st a = {} \<and> counters st a = None"
  unfolding counts_ok_def by (metis option.distinct(1))

lemma CUseCount_ok:
  assumes ok: "counts_ok st" and new: "handles st this = None"
  shows "counts_ok (CUseCount this st)"
proof -
  have "this \<notin> refs st a" for a using new by (simp add: refs_def)
  then show ?thesis
    using ok refs_beyond [OF ok] by (auto simp: CUseCount_def Let_def counts_ok_def refs_update)
qed

text \<open>The counters of the handles that an operation does not touch stay right.\<close>

lemma not_in_other_refs: "handles st h = Some a \<Longrightarrow> b \<noteq> a \<Longrightarrow> h \<notin> refs st b"
  by (simp add: refs_def)





section \<open>Properties\<close>







text \<open>Assigning a handle to one of another counter leaves both counters as they were, so the old counter of
  the assigned handle stays one too high and the new one is one too low.\<close>

theorem assign_loses_count:
  assumes "counts_ok st" and "handles st this = Some a" and "handles st u = Some b" and "a \<noteq> b"
  shows "\<exists>st'. assign this u st = Inr st' \<and> counters st' = counters st \<and> \<not> counts_ok st'"
proof -
  note alive = handle_alive [OF assms(1,2)] and alive_u = handle_alive [OF assms(1,3)]
  let ?st = "st\<lparr>handles := (handles st)(this \<mapsto> b)\<rparr>"
  have "(counters st)(b \<mapsto> int (card (refs st b))) = counters st" using alive_u(1) by (rule fun_upd_idem)
  then have run: "assign this u st = Inr ?st"
    using assms(2-4) alive alive_u
    by (simp add: assign_def m_pCount_def atomic_add_def count_at_def Let_def)
  have "refs ?st b = insert this (refs st b)" "this \<notin> refs st b"
    using assms(2,4) by (auto simp: refs_def)
  then have "card (refs ?st b) = Suc (card (refs st b))" using finite_refs [OF assms(1)] by simp
  then have "\<not> counts_ok ?st" using alive_u(1) by (auto simp: counts_ok_def split: if_splits)
  with run show ?thesis by simp
qed

theorem assign_loses_count_witness:
  "\<exists>st'. assign 0 1 (CUseCount 1 (CUseCount 0 use_init)) = Inr st' \<and> \<not> counts_ok st'"
proof -
  have "counts_ok (CUseCount 1 (CUseCount 0 use_init))"
    by (intro CUseCount_ok counts_init) (simp_all add: use_init_def CUseCount_def)
  from assign_loses_count [OF this, of 0 0 1 1] show ?thesis by (auto simp: CUseCount_def use_init_def)
qed

end
