(* ===== verification/SqlManager.thy ===== *)
theory SqlManager
  imports TextConv
begin

text \<open>
  \<^verbatim>\<open>CDBSqlManager\<close> (\<^verbatim>\<open>DataBase/DBSqlManager.cpp\<close>) with the SQLite proxy it calls
  (\<^verbatim>\<open>VerifyServer/DBSqlite3Proxy.cpp\<close>): statements are queued by any thread and executed by one. The
  thread is at the head of its loop or waiting for the event; SQLite is a parameter.
\<close>

section \<open>The proxy\<close>

text \<open>
  Both functions convert the statement into an array of 1024 bytes and execute what is in it;
  \<open>sqlite3_exec\<close> answers a result and the database afterwards.
\<close>

definition proxy_ExecSql ::
    "(wchar list \<Rightarrow> byte list) \<Rightarrow> (byte list \<Rightarrow> 'cb \<Rightarrow> 'db \<Rightarrow> int \<times> 'db) \<Rightarrow> wchar list \<Rightarrow> 'cb \<Rightarrow> 'db
      \<Rightarrow> (int \<times> 'db) res" where
  "proxy_ExecSql to_utf8 sqlite3_exec sql callback db =
     rbind (GlobalUnicodeToUtf8 to_utf8 sql (replicate 1024 0) 1023) (\<lambda>(strSql, _).
       Inr (sqlite3_exec (c_text strSql) callback db))"

text \<open>
  The constructor converts the name into an array of \<^verbatim>\<open>MAX_PATH\<close> bytes and opens what is in it; the destructor closes
  the handle, also if there is none. \<open>sqlite3_open\<close> answers a result and a handle.
\<close>

definition CDBSqlite3Proxy ::
    "(wchar list \<Rightarrow> byte list) \<Rightarrow> (byte list \<Rightarrow> int \<times> nat option) \<Rightarrow> wchar list \<Rightarrow> nat option res" where
  "CDBSqlite3Proxy to_utf8 sqlite3_open name =
     rbind (GlobalUnicodeToUtf8 to_utf8 name (replicate 260 0) 260) (\<lambda>(str, _). Inr (snd (sqlite3_open (c_text str))))"

definition CDBSqlite3Proxy_destroy :: "(nat option \<Rightarrow> 'db \<Rightarrow> 'db) \<Rightarrow> nat option \<Rightarrow> 'db \<Rightarrow> 'db" where
  "CDBSqlite3Proxy_destroy sqlite3_close m_pdb = sqlite3_close m_pdb"

text \<open>A name that is too long opens the empty name, which is a temporary database.\<close>

lemma CDBSqlite3Proxy_name:
  assumes "0 \<notin> set (to_utf8 name)"
  shows "CDBSqlite3Proxy to_utf8 sqlite3_open name
    = Inr (snd (sqlite3_open (if length (to_utf8 name) < 260 then to_utf8 name else [])))"
proof (cases "length (to_utf8 name) < 260")
  case True
  then show ?thesis
    using GlobalUnicodeToUtf8_fits [of to_utf8 name 260 "replicate 260 0"] c_text_terminated [OF assms] by (simp add: CDBSqlite3Proxy_def)
next
  case False
  then show ?thesis using GlobalUnicodeToUtf8_long [of 260 to_utf8 name "replicate 260 0"] by (simp add: CDBSqlite3Proxy_def c_text_def)
qed

section \<open>State\<close>

record sql_node =
  m_sql :: "wchar list"
  node_callback :: "nat option"
  node_data :: nat

datatype sql_thread = NoThread | AtLoop | Waiting | Ended

record sql_manager =
  m_pDB :: bool
  m_stackThread :: bool
  m_bthreadRunning :: bool
  m_sql_exec_queue :: "nat list"
  m_hEvent :: bool
  sql_nodes :: "nat \<rightharpoonup> sql_node"
  sql_next :: nat
  sql_at :: sql_thread
  executed :: "sql_node list"

definition CDBSqlManager :: sql_manager where
  "CDBSqlManager = \<lparr>m_pDB = False, m_stackThread = False, m_bthreadRunning = False, m_sql_exec_queue = [],
     m_hEvent = False, sql_nodes = Map.empty, sql_next = 0, sql_at = NoThread, executed = []\<rparr>"

definition AttachDB :: "bool \<Rightarrow> sql_manager \<Rightarrow> sql_manager" where
  "AttachDB pDB st = st\<lparr>m_pDB := pDB\<rparr>"

definition DetachDB :: "sql_manager \<Rightarrow> sql_manager" where
  "DetachDB st = st\<lparr>m_pDB := False\<rparr>"

text \<open>They take no lock.\<close>

definition sql_Lock :: "sql_manager \<Rightarrow> int \<times> sql_manager" where "sql_Lock st = (-1, st)"
definition sql_Unlock :: "sql_manager \<Rightarrow> int \<times> sql_manager" where "sql_Unlock st = (-1, st)"

section \<open>Operations\<close>

text \<open>Both \<open>ExecSql\<close>; \<open>answer\<close> is what the proxy returns.\<close>

definition ExecSql :: "int \<Rightarrow> sql_node \<Rightarrow> sql_manager \<Rightarrow> int \<times> sql_manager" where
  "ExecSql answer nd st =
     (if m_pDB st then (answer, st\<lparr>executed := executed st @ [nd]\<rparr>) else (-1, st))"

text \<open>Both \<open>ExecSqlInStack\<close>; without a callback the node has none. The result is always \<open>-1\<close>.\<close>

definition ExecSqlInStack :: "sql_node \<Rightarrow> sql_manager \<Rightarrow> int \<times> sql_manager" where
  "ExecSqlInStack nd st =
     (-1,
      if m_bthreadRunning st then
        let a = sql_next st in
        st\<lparr>sql_nodes := (sql_nodes st)(a \<mapsto> nd), sql_next := Suc a,
           m_sql_exec_queue := m_sql_exec_queue st @ [a], m_hEvent := True\<rparr>
      else st)"

definition OpenStack :: "bool \<Rightarrow> sql_manager \<Rightarrow> int \<times> sql_manager" where
  "OpenStack created st =
     (-1,
      if \<not> m_stackThread st then
        (if created then st\<lparr>m_stackThread := True, m_bthreadRunning := True, sql_at := AtLoop\<rparr>
         else st\<lparr>m_bthreadRunning := False\<rparr>)
      else st)"

text \<open>The rest of a pass: the node at the back is executed, the one at the front is removed.\<close>

definition take_node :: "int \<Rightarrow> sql_manager \<Rightarrow> sql_manager res" where
  "take_node answer st =
     (if m_sql_exec_queue st = [] then Inl OutOfBounds
      else
        (case sql_nodes st (last (m_sql_exec_queue st)) of
           None \<Rightarrow> Inl UseAfterFree
         | Some nd \<Rightarrow>
             Inr (snd (ExecSql answer nd
               (st\<lparr>m_sql_exec_queue := tl (m_sql_exec_queue st), sql_at := AtLoop\<rparr>)))))"

text \<open>One move of the thread; a wait for an event that is not set makes no progress.\<close>

definition thread_move :: "int \<Rightarrow> sql_manager \<Rightarrow> sql_manager res" where
  "thread_move answer st =
     (case sql_at st of
        AtLoop \<Rightarrow>
          if \<not> m_bthreadRunning st then Inr (st\<lparr>sql_at := Ended\<rparr>)
          else if m_sql_exec_queue st = [] then Inr (st\<lparr>sql_at := Waiting\<rparr>)
          else take_node answer st
      | Waiting \<Rightarrow> if m_hEvent st then take_node answer (st\<lparr>m_hEvent := False\<rparr>) else Inr st
      | _ \<Rightarrow> Inr st)"

fun thread_moves :: "nat \<Rightarrow> int \<Rightarrow> sql_manager \<Rightarrow> sql_manager res" where
  "thread_moves 0 answer st = Inr st"
| "thread_moves (Suc n) answer st = rbind (thread_move answer st) (thread_moves n answer)"

text \<open>The clearing loop of \<open>CloseStack\<close>: it deletes the node at the back and removes the one at the front.\<close>

function clear_queue :: "sql_manager \<Rightarrow> sql_manager res" where
  "clear_queue st =
     (if m_sql_exec_queue st = [] then Inr st
      else
        let p = last (m_sql_exec_queue st); st = st\<lparr>m_sql_exec_queue := tl (m_sql_exec_queue st)\<rparr> in
        if sql_nodes st p = None then Inl UseAfterFree
        else clear_queue (st\<lparr>sql_nodes := (sql_nodes st)(p := None)\<rparr>))"
  by pat_completeness auto
termination by (relation "measure (\<lambda>st. length (m_sql_exec_queue st))") auto

declare clear_queue.simps [simp del]

text \<open>\<open>moves\<close> is how far the thread gets while \<open>CloseStack\<close> waits for it, at most five seconds.\<close>

definition CloseStack :: "nat \<Rightarrow> int \<Rightarrow> sql_manager \<Rightarrow> (int \<times> sql_manager) res" where
  "CloseStack moves answer st =
     rbind (if m_stackThread st \<and> m_bthreadRunning st
            then thread_moves moves answer (st\<lparr>m_hEvent := True, m_bthreadRunning := False\<rparr>)
            else Inr st) (\<lambda>st.
     rbind (clear_queue (st\<lparr>m_stackThread := False\<rparr>)) (\<lambda>st. Inr (-1, st)))"

section \<open>One statement at a time\<close>





section \<open>Several statements\<close>

text \<open>A thread at the head of its loop that finds several nodes.\<close>

lemma burst:
  assumes "sql_at st = AtLoop" and "m_bthreadRunning st" and "m_pDB st" and "m_sql_exec_queue st \<noteq> []"
    and "sql_nodes st (last (m_sql_exec_queue st)) = Some nd"
  shows "\<exists>st'. thread_moves (length (m_sql_exec_queue st)) answer st = Inr st'
    \<and> executed st' = executed st @ replicate (length (m_sql_exec_queue st)) nd
    \<and> m_sql_exec_queue st' = [] \<and> sql_at st' = AtLoop \<and> m_hEvent st' = m_hEvent st \<and> m_bthreadRunning st'"
proof -
  define q where "q = m_sql_exec_queue st"
  have "\<exists>st'. thread_moves (length q) answer st = Inr st'
    \<and> executed st' = executed st @ replicate (length q) nd
    \<and> m_sql_exec_queue st' = [] \<and> sql_at st' = AtLoop \<and> m_hEvent st' = m_hEvent st \<and> m_bthreadRunning st'"
    if "m_sql_exec_queue st = q" "q \<noteq> [] \<longrightarrow> sql_nodes st (last q) = Some nd"
      "sql_at st = AtLoop" "m_bthreadRunning st" "m_pDB st" for st
    using that
  proof (induction q arbitrary: st)
    case (Cons a q)
    let ?st = "st\<lparr>m_sql_exec_queue := q, executed := executed st @ [nd]\<rparr>"
    have move: "thread_move answer st = Inr ?st"
      using Cons.prems by (simp add: thread_move_def take_node_def ExecSql_def)
    have "\<exists>st'. thread_moves (length q) answer ?st = Inr st'
        \<and> executed st' = executed ?st @ replicate (length q) nd
        \<and> m_sql_exec_queue st' = [] \<and> sql_at st' = AtLoop \<and> m_hEvent st' = m_hEvent ?st \<and> m_bthreadRunning st'"
      by (rule Cons.IH) (use Cons.prems in \<open>auto split: if_splits\<close>)
    with move show ?case by (auto simp: replicate_append_same)
  qed simp
  with assms show ?thesis unfolding q_def by blast
qed

section \<open>Concrete states\<close>

definition some_node :: sql_node where
  "some_node = \<lparr>m_sql = [65], node_callback = None, node_data = 0\<rparr>"


definition two_queued :: sql_manager where
  "two_queued = snd (ExecSqlInStack some_node (snd (ExecSqlInStack (some_node\<lparr>node_data := 1\<rparr>)
     (snd (OpenStack True (AttachDB True CDBSqlManager))))))"

section \<open>Properties\<close>



text \<open>If several statements are queued when the thread comes back to its loop, it executes the LAST one once
  for each of them, and none of the others; after that the event is still set, so the thread takes a node
  from the empty queue.\<close>

theorem burst_repeats_last:
  assumes "sql_at st = AtLoop" and "m_bthreadRunning st" and "m_pDB st" and "m_sql_exec_queue st = q @ [a]"
    and "sql_nodes st a = Some nd" and "m_hEvent st"
  shows "(\<exists>st'. thread_moves (length q + 1) answer st = Inr st'
      \<and> executed st' = executed st @ replicate (length q + 1) nd)
    \<and> thread_moves (length q + 3) answer st = Inl OutOfBounds"
proof -
  from burst [OF assms(1-3), of nd answer] assms(4,5) obtain st' where st':
      "thread_moves (length q + 1) answer st = Inr st'" "executed st' = executed st @ replicate (length q + 1) nd"
      "m_sql_exec_queue st' = []" "sql_at st' = AtLoop" "m_hEvent st'" "m_bthreadRunning st'"
    using assms(6) by auto
  have add: "thread_moves (m + n) answer s = rbind (thread_moves m answer s) (thread_moves n answer)" for m n s
    by (induction m arbitrary: s) (auto simp: rbind_def split: sum.splits)
  have "thread_moves 2 answer st' = Inl OutOfBounds"
    using st'(3-) by (simp add: numeral_2_eq_2 thread_move_def take_node_def)
  then have "thread_moves (length q + 1 + 2) answer st = Inl OutOfBounds"
    using add [of "length q + 1" 2 st] st'(1) by simp
  with st'(1,2) show ?thesis by (simp add: numeral_3_eq_3)
qed

theorem burst_repeats_last_witness:
  "(\<exists>st'. thread_moves 2 0 two_queued = Inr st' \<and> executed st' = [some_node, some_node])
    \<and> thread_moves 4 0 two_queued = Inl OutOfBounds"
  using burst_repeats_last [of two_queued "[0]" 1 some_node 0]
  by (simp add: two_queued_def ExecSqlInStack_def OpenStack_def AttachDB_def CDBSqlManager_def Let_def
      numeral_2_eq_2)

text \<open>Closing with two or more statements still queued deletes the same node twice.\<close>

theorem CloseStack_double_delete:
  assumes "\<not> m_stackThread st" and "m_sql_exec_queue st = a # q @ [b]"
  shows "CloseStack moves answer st = Inl UseAfterFree"
proof (cases "sql_nodes st b")
  case None
  with assms show ?thesis by (simp add: CloseStack_def clear_queue.simps Let_def)
next
  case (Some nd)
  with assms show ?thesis by (simp add: CloseStack_def clear_queue.simps Let_def)
qed

theorem CloseStack_double_delete_witness:
  "CloseStack 0 0 (two_queued\<lparr>m_stackThread := False\<rparr>) = Inl UseAfterFree"
  by (rule CloseStack_double_delete [where q = "[]" and a = 0 and b = 1])
    (simp_all add: two_queued_def ExecSqlInStack_def OpenStack_def AttachDB_def CDBSqlManager_def Let_def)

text \<open>A statement whose UTF-8 form and zero take more than 1023 bytes is dropped: the proxy executes the empty
  text instead and returns SQLite's answer to that.\<close>

theorem long_statement_is_dropped:
  assumes "1023 \<le> length (to_utf8 sql)"
  shows "proxy_ExecSql to_utf8 sqlite3_exec sql callback db = Inr (sqlite3_exec [] callback db)"
  using GlobalUnicodeToUtf8_long [of 1023 to_utf8 sql "replicate 1024 0"] assms
  by (simp add: proxy_ExecSql_def c_text_def)

theorem long_statement_is_dropped_witness:
  "proxy_ExecSql (map ucast) (\<lambda>s cb db. (0, db @ [s])) (replicate 1023 65) () [] = Inr (0, [[]])"
  using long_statement_is_dropped [of "map ucast" "replicate 1023 65" "\<lambda>s cb db. (0, db @ [s])" "()" "[]"]
  by simp

text \<open>A shorter statement reaches SQLite as its UTF-8 form.\<close>

theorem statement_reaches_sqlite:
  assumes "length (to_utf8 sql) < 1023" and "0 \<notin> set (to_utf8 sql)"
  shows "proxy_ExecSql to_utf8 sqlite3_exec sql callback db = Inr (sqlite3_exec (to_utf8 sql) callback db)"
  using GlobalUnicodeToUtf8_fits [of to_utf8 sql 1023 "replicate 1024 0"] assms
  by (simp add: proxy_ExecSql_def c_text_terminated)

theorem statement_reaches_sqlite_witness:
  "proxy_ExecSql (map ucast) (\<lambda>s cb db. (0, db @ [s])) [65, 66] () [] = Inr (0, [[65, 66]])"
  using statement_reaches_sqlite [of "map ucast" "[65, 66]" "\<lambda>s cb db. (0, db @ [s])" "()" "[]"]
  by simp

end
