(* ===== verification/SqlQueue.thy ===== *)
theory SqlQueue
  imports SqlManager
begin

text \<open>
  The queue of \<^verbatim>\<open>CDBSqlManager\<close> under concurrency. \<open>SqlManager\<close> runs the thread from wait to wait; here every access that
  no lock joins to the next is a step of its own, and the steps of the callers and of the threads come in any order. Any number of
  callers may queue, open and close at once. \<open>CloseStack\<close> gives up its wait after five seconds, so a thread may outlive it and meet
  the thread of the next \<open>OpenStack\<close>. One call of \<open>OpenStack\<close> and one pass of the clearing loop are not cut further.
\<close>

section \<open>Positions\<close>

text \<open>
  A thread: before the test of the loop, before the test of the queue, before the wait, before it takes a node, holding a node, ended.
\<close>

datatype sql_pos = LoopTest | QueueTest | EventWait | TakeNode | Execute nat | ThreadEnded

text \<open>
  \<open>positions\<close> has the threads in the order they were begun. \<open>setting\<close> callers have queued a statement and not yet set the event. Of
  the callers of \<open>CloseStack\<close>, \<open>ending\<close> have set the event and not yet cleared the flag of the loop, \<open>awaiting\<close> are before
  \<open>CloseHandle\<close> and \<open>clearing\<close> in the clearing loop. \<open>pushed\<close> are the statements that were queued.
\<close>

record sql_run =
  mgr :: sql_manager
  positions :: "sql_pos list"
  setting :: nat
  ending :: nat
  awaiting :: nat
  clearing :: nat
  pushed :: "sql_node list"

definition run_start :: sql_run where
  "run_start = \<lparr>mgr = CDBSqlManager, positions = [], setting = 0, ending = 0, awaiting = 0, clearing = 0, pushed = []\<rparr>"

section \<open>Steps\<close>

text \<open>A caller of \<open>ExecSqlInStack\<close>: the test and the critical section, then the event.\<close>

definition caller_push :: "sql_node \<Rightarrow> sql_run \<Rightarrow> sql_run" where
  "caller_push nd w =
     (let st = mgr w; a = sql_next st in
      if m_bthreadRunning st
      then w\<lparr>mgr := st\<lparr>sql_nodes := (sql_nodes st)(a \<mapsto> nd), sql_next := Suc a, m_sql_exec_queue := m_sql_exec_queue st @ [a]\<rparr>,
             setting := setting w + 1, pushed := pushed w @ [nd]\<rparr>
      else w)"

definition caller_event :: "sql_run \<Rightarrow> sql_run" where
  "caller_event w = w\<lparr>mgr := (mgr w)\<lparr>m_hEvent := True\<rparr>, setting := setting w - 1\<rparr>"

text \<open>A caller of \<open>OpenStack\<close>.\<close>

definition caller_open :: "bool \<Rightarrow> sql_run \<Rightarrow> sql_run" where
  "caller_open created w =
     w\<lparr>mgr := snd (OpenStack created (mgr w)),
       positions := positions w @ (if \<not> m_stackThread (mgr w) \<and> created then [LoopTest] else [])\<rparr>"

text \<open>A caller of \<open>CloseStack\<close>: the test and the event, the flag, the end of the wait and the handle, a pass of the clearing loop.\<close>

definition caller_close :: "sql_run \<Rightarrow> sql_run" where
  "caller_close w =
     (if m_stackThread (mgr w) \<and> m_bthreadRunning (mgr w)
      then w\<lparr>mgr := (mgr w)\<lparr>m_hEvent := True\<rparr>, ending := ending w + 1\<rparr>
      else w\<lparr>awaiting := awaiting w + 1\<rparr>)"

definition caller_flag :: "sql_run \<Rightarrow> sql_run" where
  "caller_flag w = w\<lparr>mgr := (mgr w)\<lparr>m_bthreadRunning := False\<rparr>, ending := ending w - 1, awaiting := awaiting w + 1\<rparr>"

definition caller_handle :: "sql_run \<Rightarrow> sql_run" where
  "caller_handle w = w\<lparr>mgr := (mgr w)\<lparr>m_stackThread := False\<rparr>, awaiting := awaiting w - 1, clearing := clearing w + 1\<rparr>"

definition caller_clear :: "sql_run \<Rightarrow> sql_run res" where
  "caller_clear w =
     (let st = mgr w; q = m_sql_exec_queue st; p = last q in
      if q = [] then Inr (w\<lparr>clearing := clearing w - 1\<rparr>)
      else if sql_nodes st p = None then Inl UseAfterFree
      else Inr (w\<lparr>mgr := st\<lparr>m_sql_exec_queue := tl q, sql_nodes := (sql_nodes st)(p := None)\<rparr>\<rparr>))"

text \<open>The \<open>k\<close>-th thread.\<close>

definition move_to :: "nat \<Rightarrow> sql_pos \<Rightarrow> sql_run \<Rightarrow> sql_run" where
  "move_to k p w = w\<lparr>positions := (positions w)[k := p]\<rparr>"

definition thread_loop :: "nat \<Rightarrow> sql_run \<Rightarrow> sql_run" where
  "thread_loop k w = move_to k (if m_bthreadRunning (mgr w) then QueueTest else ThreadEnded) w"

definition thread_test :: "nat \<Rightarrow> sql_run \<Rightarrow> sql_run" where
  "thread_test k w = move_to k (if m_sql_exec_queue (mgr w) = [] then EventWait else TakeNode) w"

definition thread_wait :: "nat \<Rightarrow> sql_run \<Rightarrow> sql_run option" where
  "thread_wait k w =
     (if m_hEvent (mgr w) then Some (move_to k TakeNode (w\<lparr>mgr := (mgr w)\<lparr>m_hEvent := False\<rparr>\<rparr>)) else None)"

definition thread_take :: "nat \<Rightarrow> sql_run \<Rightarrow> sql_run res" where
  "thread_take k w =
     (let q = m_sql_exec_queue (mgr w) in
      if q = [] then Inl OutOfBounds
      else Inr (move_to k (Execute (last q)) (w\<lparr>mgr := (mgr w)\<lparr>m_sql_exec_queue := tl q\<rparr>\<rparr>)))"

definition thread_execute :: "int \<Rightarrow> nat \<Rightarrow> nat \<Rightarrow> sql_run \<Rightarrow> sql_run res" where
  "thread_execute answer k p w =
     (case sql_nodes (mgr w) p of
        None \<Rightarrow> Inl UseAfterFree
      | Some nd \<Rightarrow> Inr (move_to k LoopTest (w\<lparr>mgr := snd (ExecSql answer nd (mgr w))\<rparr>)))"

definition stands :: "nat \<Rightarrow> sql_pos \<Rightarrow> sql_run \<Rightarrow> bool" where
  "stands k p w \<longleftrightarrow> k < length (positions w) \<and> positions w ! k = p"

inductive thread_step :: "sql_run \<Rightarrow> sql_run \<Rightarrow> bool" where
  loops: "stands k LoopTest w \<Longrightarrow> thread_step w (thread_loop k w)"
| tests: "stands k QueueTest w \<Longrightarrow> thread_step w (thread_test k w)"
| wakes: "stands k EventWait w \<Longrightarrow> thread_wait k w = Some w' \<Longrightarrow> thread_step w w'"
| takes: "stands k TakeNode w \<Longrightarrow> thread_take k w = Inr w' \<Longrightarrow> thread_step w w'"
| executes: "stands k (Execute p) w \<Longrightarrow> thread_execute answer k p w = Inr w' \<Longrightarrow> thread_step w w'"

inductive sql_step :: "sql_run \<Rightarrow> sql_run \<Rightarrow> bool" where
  pushes: "sql_step w (caller_push nd w)"
| sets: "setting w > 0 \<Longrightarrow> sql_step w (caller_event w)"
| opens: "sql_step w (caller_open created w)"
| closes: "sql_step w (caller_close w)"
| flags: "ending w > 0 \<Longrightarrow> sql_step w (caller_flag w)"
| handles: "awaiting w > 0 \<Longrightarrow> sql_step w (caller_handle w)"
| clears: "clearing w > 0 \<Longrightarrow> caller_clear w = Inr w' \<Longrightarrow> sql_step w w'"
| attaches: "sql_step w (w\<lparr>mgr := AttachDB db (mgr w)\<rparr>)"
| detaches: "sql_step w (w\<lparr>mgr := DetachDB (mgr w)\<rparr>)"
| threads: "thread_step w w' \<Longrightarrow> sql_step w w'"

lemmas run_defs = caller_push_def caller_event_def caller_open_def caller_close_def caller_flag_def caller_handle_def
  thread_loop_def thread_test_def thread_wait_def thread_take_def thread_execute_def move_to_def OpenStack_def AttachDB_def
  DetachDB_def ExecSql_def Let_def

section \<open>The invariant\<close>

text \<open>
  While the flag of the loop is set and something is queued, a thread is awake or the event is set, now or when the callers have gone
  on; and a thread is there to wake. Nodes that were not deleted are nodes of queued statements; every execution has used up a statement.
\<close>

fun awake :: "sql_pos \<Rightarrow> bool" where
  "awake EventWait = False" | "awake ThreadEnded = False" | "awake _ = True"

lemma awake_iff: "awake p \<longleftrightarrow> p \<noteq> EventWait \<and> p \<noteq> ThreadEnded"
  by (cases p) auto

fun held :: "sql_pos \<Rightarrow> nat set" where
  "held (Execute p) = {p}" | "held _ = {}"

abbreviation holding :: "sql_pos list \<Rightarrow> nat" where
  "holding ps \<equiv> sum_list (map (card \<circ> held) ps)"

definition wake_ok :: "sql_run \<Rightarrow> bool" where
  "wake_ok w \<longleftrightarrow> (m_bthreadRunning (mgr w) \<longrightarrow>
     (\<exists>p \<in> set (positions w). p \<noteq> ThreadEnded)
     \<and> (m_sql_exec_queue (mgr w) \<noteq> [] \<longrightarrow> m_hEvent (mgr w) \<or> setting w > 0 \<or> (\<exists>p \<in> set (positions w). awake p)))"

definition ids :: "sql_run \<Rightarrow> nat set" where
  "ids w = set (m_sql_exec_queue (mgr w)) \<union> \<Union> (held ` set (positions w))"

definition nodes_ok :: "sql_run \<Rightarrow> bool" where
  "nodes_ok w \<longleftrightarrow> ids w \<subseteq> {..<sql_next (mgr w)}
     \<and> (\<forall>a nd. sql_nodes (mgr w) a = Some nd \<longrightarrow> a < sql_next (mgr w) \<and> nd \<in> set (pushed w))
     \<and> set (executed (mgr w)) \<subseteq> set (pushed w)
     \<and> length (executed (mgr w)) + length (m_sql_exec_queue (mgr w)) + holding (positions w) \<le> length (pushed w)"

lemma wake_ok_start: "wake_ok run_start"
  by (simp add: wake_ok_def run_start_def CDBSqlManager_def)

lemma nodes_ok_start: "nodes_ok run_start"
  by (simp add: nodes_ok_def ids_def run_start_def CDBSqlManager_def)

lemma moved_in: "stands k q w \<Longrightarrow> p \<in> set ((positions w)[k := p])"
  by (auto simp: stands_def set_update_memI)

lemma moved_subset: "p \<in> set (ps[k := q]) \<Longrightarrow> p = q \<or> p \<in> set ps"
  using set_update_subset_insert [of ps k q] by auto

lemma holding_moved: "stands k q w \<Longrightarrow> holding ((positions w)[k := p]) + card (held q) = holding (positions w) + card (held p)"
proof -
  assume "stands k q w"
  then have k: "k < length (positions w)" and q: "positions w ! k = q" by (auto simp: stands_def)
  have "sum_list ((map (card \<circ> held) (positions w))[k := card (held p)]) + map (card \<circ> held) (positions w) ! k
      = holding (positions w) + card (held p)"
    using k elem_le_sum_list [of k "map (card \<circ> held) (positions w)"] by (simp add: sum_list_update)
  then show ?thesis using k q by (simp add: map_update)
qed

lemma wake_ok_thread: "thread_step w w' \<Longrightarrow> wake_ok w \<Longrightarrow> wake_ok w'"
proof -
  have moved: "wake_ok (move_to k p w1)"
    if "stands k q w" "positions w1 = positions w" "awake p" for k p q w1
  proof -
    have "p \<in> set (positions (move_to k p w1))" using moved_in [OF that(1), of p] that(2) by (simp add: move_to_def)
    moreover have "p \<noteq> ThreadEnded" using that(3) by auto
    ultimately show ?thesis using that(3) unfolding wake_ok_def by blast
  qed
  assume "thread_step w w'" and ok: "wake_ok w"
  then show ?thesis
  proof (cases rule: thread_step.cases)
    case (loops k)
    then show ?thesis using moved [of k LoopTest w QueueTest] by (auto simp: thread_loop_def wake_ok_def move_to_def)
  next
    case (tests k)
    then show ?thesis using moved [of k QueueTest w TakeNode] moved_in [of k QueueTest w EventWait]
      by (auto simp: thread_test_def wake_ok_def move_to_def)
  next
    case (wakes k)
    then show ?thesis using moved [of k EventWait _ TakeNode] by (auto simp: thread_wait_def split: if_splits)
  next
    case (takes k)
    then show ?thesis using moved [of k TakeNode] by (auto simp: thread_take_def Let_def split: if_splits)
  next
    case (executes k p answer)
    then show ?thesis using moved [of k "Execute p"] by (auto simp: thread_execute_def split: option.splits)
  qed
qed

lemma wake_ok_step: "sql_step w w' \<Longrightarrow> wake_ok w \<Longrightarrow> wake_ok w'"
proof (induction rule: sql_step.induct)
  case (threads w w')
  then show ?case using wake_ok_thread by blast
qed (auto simp: wake_ok_def run_defs caller_clear_def split: if_splits)

text \<open>A thread that moves and holds what it held, one that takes a node, and one that lets it go.\<close>

lemma nodes_okI:
  assumes "nodes_ok w" and "ids w' \<subseteq> ids w" and "sql_nodes (mgr w') \<subseteq>\<^sub>m sql_nodes (mgr w)" and "sql_next (mgr w') = sql_next (mgr w)"
    and "pushed w' = pushed w" and "set (executed (mgr w')) \<subseteq> set (pushed w)"
    and "length (executed (mgr w')) + length (m_sql_exec_queue (mgr w')) + holding (positions w')
      \<le> length (executed (mgr w)) + length (m_sql_exec_queue (mgr w)) + holding (positions w)"
  shows "nodes_ok w'"
proof -
  have "sql_nodes (mgr w) a = Some nd" if "sql_nodes (mgr w') a = Some nd" for a nd
    using assms(3) that by (metis domI map_le_def)
  then show ?thesis using assms unfolding nodes_ok_def by (metis (no_types, lifting) le_trans order_trans)
qed

lemma held_moved: "\<Union> (held ` set (ps[k := p])) \<subseteq> held p \<union> \<Union> (held ` set ps)"
  using moved_subset [of _ ps k p] by blast

lemma nodes_ok_moved:
  assumes "nodes_ok w" and "stands k q w" and "held p = held q"
  shows "nodes_ok (move_to k p w)"
proof (rule nodes_okI [OF assms(1)])
  have "held q \<subseteq> \<Union> (held ` set (positions w))" using assms(2) nth_mem by (auto simp: stands_def)
  then show "ids (move_to k p w) \<subseteq> ids w" using held_moved [of "positions w" k p] assms(3) by (auto simp: ids_def move_to_def)
qed (use assms holding_moved [OF assms(2), of p] in \<open>auto simp: move_to_def nodes_ok_def\<close>)

lemma nodes_ok_take:
  assumes ok: "nodes_ok w" and st: "stands k TakeNode w" and take: "thread_take k w = Inr w'"
  shows "nodes_ok w'"
proof (rule nodes_okI [OF ok])
  let ?q = "m_sql_exec_queue (mgr w)" let ?p = "Execute (last ?q)"
  have w': "?q \<noteq> []" "w' = move_to k ?p (w\<lparr>mgr := (mgr w)\<lparr>m_sql_exec_queue := tl ?q\<rparr>\<rparr>)"
    using take by (auto simp: thread_take_def Let_def split: if_splits)
  have "last ?q \<in> set ?q" "set (tl ?q) \<subseteq> set ?q" using w'(1) by (auto dest: list.set_sel(2))
  then show "ids w' \<subseteq> ids w" using held_moved [of "positions w" k ?p] by (auto simp: ids_def move_to_def w'(2))
  have "length ?q = Suc (length (tl ?q))" using w'(1) by simp
  then show "length (executed (mgr w')) + length (m_sql_exec_queue (mgr w')) + holding (positions w')
      \<le> length (executed (mgr w)) + length ?q + holding (positions w)"
    using holding_moved [OF st, of ?p] by (simp add: w'(2) move_to_def)
qed (use ok take in \<open>auto simp: thread_take_def move_to_def nodes_ok_def Let_def split: if_splits\<close>)

lemma nodes_ok_execute:
  assumes ok: "nodes_ok w" and st: "stands k (Execute p) w" and exec: "thread_execute answer k p w = Inr w'"
  shows "nodes_ok w'"
proof (rule nodes_okI [OF ok])
  obtain nd where nd: "sql_nodes (mgr w) p = Some nd" and w': "w' = move_to k LoopTest (w\<lparr>mgr := snd (ExecSql answer nd (mgr w))\<rparr>)"
    using exec by (auto simp: thread_execute_def split: option.splits)
  show "ids w' \<subseteq> ids w" using held_moved [of "positions w" k LoopTest] by (auto simp: ids_def move_to_def w' ExecSql_def)
  show "set (executed (mgr w')) \<subseteq> set (pushed w)" using ok nd by (auto simp: w' nodes_ok_def move_to_def ExecSql_def)
  show "length (executed (mgr w')) + length (m_sql_exec_queue (mgr w')) + holding (positions w')
      \<le> length (executed (mgr w)) + length (m_sql_exec_queue (mgr w)) + holding (positions w)"
    using holding_moved [OF st, of LoopTest] by (simp add: w' move_to_def ExecSql_def)
qed (use exec in \<open>auto simp: thread_execute_def move_to_def ExecSql_def split: option.splits\<close>)

lemma nodes_ok_thread: "thread_step w w' \<Longrightarrow> nodes_ok w \<Longrightarrow> nodes_ok w'"
proof (induction rule: thread_step.induct)
  case (loops k w)
  then show ?case unfolding thread_loop_def by (intro nodes_ok_moved [of w k LoopTest]) auto
next
  case (tests k w)
  then show ?case unfolding thread_test_def by (intro nodes_ok_moved [of w k QueueTest]) auto
next
  case (wakes k w w')
  let ?w = "w\<lparr>mgr := (mgr w)\<lparr>m_hEvent := False\<rparr>\<rparr>"
  have "nodes_ok ?w" using wakes(3) by (simp add: nodes_ok_def ids_def)
  moreover have "stands k EventWait ?w" using wakes(1) by (simp add: stands_def)
  ultimately have "nodes_ok (move_to k TakeNode ?w)" by (rule nodes_ok_moved) simp
  then show ?case using wakes(2) by (simp add: thread_wait_def split: if_splits)
qed (rule nodes_ok_take nodes_ok_execute; assumption)+

lemma nodes_ok_clear:
  assumes ok: "nodes_ok w" and clear: "caller_clear w = Inr w'"
  shows "nodes_ok w'"
proof (rule nodes_okI [OF ok])
  show "ids w' \<subseteq> ids w" using clear list.set_sel(2) [of "m_sql_exec_queue (mgr w)"]
    by (auto simp: ids_def caller_clear_def Let_def split: if_splits)
qed (use ok clear in \<open>auto simp: nodes_ok_def caller_clear_def Let_def map_le_def split: if_splits\<close>)

lemma nodes_ok_push: "nodes_ok w \<Longrightarrow> nodes_ok (caller_push nd w)"
  by (auto simp: nodes_ok_def ids_def caller_push_def Let_def intro: less_SucI)

lemma nodes_ok_step: "sql_step w w' \<Longrightarrow> nodes_ok w \<Longrightarrow> nodes_ok w'"
proof (induction rule: sql_step.induct)
  case (pushes w nd)
  then show ?case by (rule nodes_ok_push)
next
  case (clears w w')
  then show ?case using nodes_ok_clear by blast
next
  case (threads w w')
  then show ?case using nodes_ok_thread by blast
qed (simp_all add: nodes_ok_def ids_def caller_event_def caller_open_def caller_close_def caller_flag_def caller_handle_def
      OpenStack_def AttachDB_def DetachDB_def)

lemma run_reachable: "sql_step\<^sup>*\<^sup>* run_start w \<Longrightarrow> wake_ok w \<and> nodes_ok w"
  by (induction rule: rtranclp_induct) (auto intro: wake_ok_start nodes_ok_start wake_ok_step nodes_ok_step)

text \<open>A thread that is awake can go on, unless it finds the queue empty or its node deleted.\<close>

lemma awake_steps:
  assumes "p \<in> set (positions w)" and "awake p" and "m_sql_exec_queue (mgr w) \<noteq> []" and "\<forall>a \<in> held p. sql_nodes (mgr w) a \<noteq> None"
  shows "\<exists>w'. thread_step w w'"
proof -
  obtain k where k: "stands k p w" using assms(1) by (auto simp: in_set_conv_nth stands_def)
  show ?thesis
  proof (cases p)
    case TakeNode
    then show ?thesis using k assms(3) thread_step.takes [of k w] by (auto simp: thread_take_def Let_def)
  next
    case (Execute a)
    then obtain nd where "sql_nodes (mgr w) a = Some nd" using assms(4) by auto
    then show ?thesis using k Execute thread_step.executes [of k a w 0] by (auto simp: thread_execute_def)
  next
    case LoopTest
    then show ?thesis using k thread_step.loops by blast
  next
    case QueueTest
    then show ?thesis using k thread_step.tests by blast
  qed (use assms(2) in auto)
qed

section \<open>Properties\<close>

text \<open>C32: whatever the order of callers and threads: as long as the manager runs and a statement is queued, no caller is between
  queuing and setting the event and no closing has deleted a node, some thread can go on (no wake-up is lost); and only statements
  that were queued are executed: those executed, those still queued and those a thread holds are never more than were queued.\<close>

theorem queued_statements_wake_thread:
  assumes "sql_step\<^sup>*\<^sup>* run_start w"
  shows "(m_bthreadRunning (mgr w) \<and> m_sql_exec_queue (mgr w) \<noteq> [] \<and> setting w = 0
      \<and> (\<forall>a < sql_next (mgr w). sql_nodes (mgr w) a \<noteq> None) \<longrightarrow> (\<exists>w'. thread_step w w'))
    \<and> set (executed (mgr w)) \<subseteq> set (pushed w)
    \<and> length (executed (mgr w)) + length (m_sql_exec_queue (mgr w)) + holding (positions w) \<le> length (pushed w)"
proof -
  have ok: "wake_ok w" "nodes_ok w" using run_reachable [OF assms] by auto
  have "\<exists>w'. thread_step w w'"
    if run: "m_bthreadRunning (mgr w)" "m_sql_exec_queue (mgr w) \<noteq> []" "setting w = 0"
      and kept: "\<forall>a < sql_next (mgr w). sql_nodes (mgr w) a \<noteq> None"
  proof (cases "\<exists>p \<in> set (positions w). awake p")
    case True
    then obtain p where p: "p \<in> set (positions w)" "awake p" by blast
    then have "\<forall>a \<in> held p. a < sql_next (mgr w)" using ok(2) by (auto simp: nodes_ok_def ids_def)
    then show ?thesis using awake_steps [OF p run(2)] kept by blast
  next
    case False
    then have "m_hEvent (mgr w)" using ok(1) run by (auto simp: wake_ok_def)
    moreover obtain p where "p \<in> set (positions w)" "p \<noteq> ThreadEnded" using ok(1) run(1) by (auto simp: wake_ok_def)
    moreover from this False have "p = EventWait" using awake_iff by blast
    ultimately obtain k where "stands k EventWait w" "m_hEvent (mgr w)" by (auto simp: in_set_conv_nth stands_def)
    then show ?thesis using thread_step.wakes [of k w] by (auto simp: thread_wait_def)
  qed
  then show ?thesis using ok(2) by (auto simp: nodes_ok_def)
qed

text \<open>A manager whose thread waits when a statement comes.\<close>

definition run_waiting :: sql_run where
  "run_waiting = thread_test 0 (thread_loop 0 (caller_open True (run_start\<lparr>mgr := AttachDB True (mgr run_start)\<rparr>)))"

lemmas run_concrete = run_defs stands_def run_start_def CDBSqlManager_def

lemma run_waiting_fields:
  "positions run_waiting = [EventWait]" "m_sql_exec_queue (mgr run_waiting) = []" "m_stackThread (mgr run_waiting)"
  "m_bthreadRunning (mgr run_waiting)" "setting run_waiting = 0" "sql_next (mgr run_waiting) = 0"
  by (simp_all add: run_waiting_def run_concrete)

lemma run_waiting_reached: "sql_step\<^sup>*\<^sup>* run_start run_waiting"
proof -
  let ?a = "run_start\<lparr>mgr := AttachDB True (mgr run_start)\<rparr>" let ?o = "caller_open True ?a"
  have "sql_step run_start ?a" "sql_step ?a ?o" by (rule sql_step.attaches, rule sql_step.opens)
  moreover have "sql_step ?o (thread_loop 0 ?o)"
    by (rule sql_step.threads, rule thread_step.loops) (simp add: run_concrete)
  moreover have "sql_step (thread_loop 0 ?o) run_waiting" unfolding run_waiting_def
    by (rule sql_step.threads, rule thread_step.tests) (simp add: run_concrete)
  ultimately show ?thesis by (meson rtranclp.rtrancl_into_rtrancl rtranclp.rtrancl_refl)
qed

theorem queued_statements_wake_thread_witness:
  "\<exists>w'. thread_step (caller_event (caller_push some_node run_waiting)) w'"
proof -
  let ?w = "caller_event (caller_push some_node run_waiting)"
  have f: "setting (caller_push some_node run_waiting) > 0" "m_bthreadRunning (mgr ?w)" "m_sql_exec_queue (mgr ?w) \<noteq> []" "setting ?w = 0"
      "\<forall>a < sql_next (mgr ?w). sql_nodes (mgr ?w) a \<noteq> None"
    using run_waiting_fields by (simp_all add: caller_event_def caller_push_def Let_def)
  have "sql_step\<^sup>*\<^sup>* run_start ?w"
    using run_waiting_reached sql_step.pushes [of run_waiting some_node] sql_step.sets [OF f(1)]
    by (meson rtranclp.rtrancl_into_rtrancl)
  from queued_statements_wake_thread [OF this] f show ?thesis by blast
qed

text \<open>Closing a manager whose thread waits, with nothing queued, wakes the thread, which then takes a node from the empty queue.\<close>

theorem closing_idle_queue_faults:
  assumes "stands k EventWait w" and "m_sql_exec_queue (mgr w) = []" and "m_stackThread (mgr w)" and "m_bthreadRunning (mgr w)"
  shows "\<exists>w'. thread_step (caller_close w) w' \<and> stands k TakeNode w' \<and> thread_take k w' = Inl OutOfBounds"
proof -
  let ?w = "move_to k TakeNode ((caller_close w)\<lparr>mgr := (mgr (caller_close w))\<lparr>m_hEvent := False\<rparr>\<rparr>)"
  have "thread_wait k (caller_close w) = Some ?w" using assms by (simp add: run_defs)
  moreover have "stands k EventWait (caller_close w)" using assms by (simp add: caller_close_def stands_def)
  ultimately have "thread_step (caller_close w) ?w" by (rule thread_step.wakes [rotated])
  moreover have "stands k TakeNode ?w" using assms by (simp add: run_defs stands_def)
  moreover have "thread_take k ?w = Inl OutOfBounds" using assms by (simp add: run_defs)
  ultimately show ?thesis by blast
qed

theorem closing_idle_queue_faults_witness:
  "\<exists>w'. thread_step (caller_close run_waiting) w' \<and> stands 0 TakeNode w' \<and> thread_take 0 w' = Inl OutOfBounds"
  by (rule closing_idle_queue_faults) (use run_waiting_fields in \<open>simp_all add: stands_def\<close>)

text \<open>
  The clearing loop does not know what the thread holds. When two statements are queued, the thread takes the one at the back and
  leaves it queued; a closing that gives up its wait deletes it, and the thread executes a deleted node.
\<close>

theorem closing_deletes_held_node:
  assumes "stands k (Execute p) w" and "last (m_sql_exec_queue (mgr w)) = p" and "m_sql_exec_queue (mgr w) \<noteq> []"
    and "sql_nodes (mgr w) p \<noteq> None"
  shows "\<exists>w'. caller_clear w = Inr w' \<and> stands k (Execute p) w' \<and> thread_execute answer k p w' = Inl UseAfterFree"
  using assms by (simp add: caller_clear_def thread_execute_def stands_def Let_def)

definition run_holding :: sql_run where
  "run_holding = (case thread_take 0 (thread_test 0 (thread_loop 0 (caller_push (some_node\<lparr>node_data := 1\<rparr>) (caller_push some_node
     (caller_open True run_start))))) of Inr w \<Rightarrow> caller_handle (caller_flag (caller_close w)) | Inl _ \<Rightarrow> run_start)"

lemma run_holding_reached: "sql_step\<^sup>*\<^sup>* run_start run_holding"
proof -
  let ?o = "caller_open True run_start" let ?p = "caller_push some_node ?o"
  let ?q = "caller_push (some_node\<lparr>node_data := 1\<rparr>) ?p" let ?l = "thread_loop 0 ?q" let ?t = "thread_test 0 ?l"
  obtain h where h: "thread_take 0 ?t = Inr h" by (simp add: run_concrete)
  have "sql_step run_start ?o" "sql_step ?o ?p" "sql_step ?p ?q" by (rule sql_step.intros)+
  moreover have "sql_step ?q ?l" by (rule sql_step.threads, rule thread_step.loops) (simp add: run_concrete)
  moreover have "sql_step ?l ?t" by (rule sql_step.threads, rule thread_step.tests) (simp add: run_concrete)
  moreover have "sql_step ?t h" by (rule sql_step.threads, rule thread_step.takes [OF _ h]) (simp add: run_concrete)
  moreover have "sql_step h (caller_close h)" by (rule sql_step.closes)
  moreover have "sql_step (caller_close h) (caller_flag (caller_close h))"
    by (rule sql_step.flags) (use h in \<open>auto simp: run_concrete\<close>)
  moreover have "sql_step (caller_flag (caller_close h)) run_holding"
    unfolding run_holding_def h by simp (rule sql_step.handles, simp add: caller_flag_def)
  ultimately show ?thesis by (meson rtranclp.rtrancl_into_rtrancl rtranclp.rtrancl_refl)
qed

theorem closing_deletes_held_node_witness:
  "\<exists>w'. caller_clear run_holding = Inr w' \<and> stands 0 (Execute 1) w' \<and> thread_execute 0 0 1 w' = Inl UseAfterFree"
  by (rule closing_deletes_held_node) (simp_all add: run_holding_def run_concrete some_node_def)

end
