(* ===== verification/OmniTime.thy ===== *)
theory OmniTime
  imports Prelude "HOL-Library.Signed_Division"
begin

text \<open>
  The time functions of \<^verbatim>\<open>omnithread/nt.cpp\<close>: the current time from the calendar date, absolute times,
  the time-out of \<^verbatim>\<open>timedwait\<close> and long sleeps. \<^verbatim>\<open>unsigned long\<close> and \<^verbatim>\<open>DWORD\<close> are 32-bit words, and the
  calendar of the specification is the Gregorian one.
\<close>

section \<open>The program's functions\<close>

record system_time =
  wYear :: nat
  wMonth :: nat
  wDay :: nat
  wHour :: nat
  wMinute :: nat
  wSecond :: nat
  wMilliseconds :: nat

definition days_in_preceding_months :: "int list" where
  "days_in_preceding_months = [0, 31, 59, 90, 120, 151, 181, 212, 243, 273, 304, 334]"

definition days_in_preceding_months_leap :: "int list" where
  "days_in_preceding_months_leap = [0, 31, 60, 91, 121, 152, 182, 213, 244, 274, 305, 335]"

text \<open>The fields are \<^verbatim>\<open>WORD\<close>s, which C turns into \<^verbatim>\<open>int\<close>s; \<open>days\<close> is a \<^verbatim>\<open>DWORD\<close>, and so is the last sum.\<close>

definition get_time_now :: "system_time \<Rightarrow> dword \<times> dword" where
  "get_time_now st =
     (let year = int (wYear st);
          preceding = (if year smod 4 \<noteq> 0 then days_in_preceding_months else days_in_preceding_months_leap);
          days = (word_of_int ((year - 1970) * 365 + (year - 1969) sdiv 4
                    + preceding ! (wMonth st - 1) + int (wDay st) - 1) :: dword)
      in (of_nat (wSecond st) + 60 * (of_nat (wMinute st) + 60 * (of_nat (wHour st) + 24 * days)),
          of_nat (wMilliseconds st) * 1000000))"

definition get_time :: "system_time \<Rightarrow> dword \<Rightarrow> dword \<Rightarrow> dword \<times> dword" where
  "get_time st rel_sec rel_nsec =
     (let (abs_sec, abs_nsec) = get_time_now st;
          abs_nsec = abs_nsec + rel_nsec;
          abs_sec = abs_sec + (rel_sec + abs_nsec div 1000000000)
      in (abs_sec, abs_nsec mod 1000000000))"

text \<open>The time-out \<^verbatim>\<open>timedwait\<close> gives to \<^verbatim>\<open>WaitForSingleObject\<close>, with its test \<^verbatim>\<open>abs_nsec < abs_nsec\<close>.\<close>

definition timedwait_timeout :: "dword \<Rightarrow> dword \<Rightarrow> dword \<Rightarrow> dword \<Rightarrow> dword" where
  "timedwait_timeout abs_sec abs_nsec now_sec now_nsec =
     (let timeout = (abs_sec - now_sec) * 1000 + (abs_nsec - now_nsec) div 1000000 in
      if abs_sec \<le> now_sec \<and> (abs_sec < now_sec \<or> abs_nsec < abs_nsec) then 0 else timeout)"

definition MAX_SLEEP_SECONDS :: dword where "MAX_SLEEP_SECONDS = 4294966"

text \<open>The arguments of the calls of \<^verbatim>\<open>Sleep\<close>.\<close>

definition omni_sleep :: "dword \<Rightarrow> dword \<Rightarrow> dword list" where
  "omni_sleep secs nanosecs =
     (if secs \<le> MAX_SLEEP_SECONDS then [secs * 1000 + nanosecs div 1000000]
      else
        replicate (unat (secs div MAX_SLEEP_SECONDS)) (MAX_SLEEP_SECONDS * 1000)
        @ [secs mod MAX_SLEEP_SECONDS * 1000 + nanosecs div 1000000])"

section \<open>The calendar\<close>

definition leap_year :: "nat \<Rightarrow> bool" where
  "leap_year y \<longleftrightarrow> 4 dvd y \<and> \<not> 100 dvd y \<or> 400 dvd y"

definition month_days :: "nat \<Rightarrow> nat \<Rightarrow> nat" where
  "month_days y m =
     [31, if leap_year y then 29 else 28, 31, 30, 31, 30, 31, 31, 30, 31, 30, 31] ! (m - 1)"

definition year_days :: "nat \<Rightarrow> nat" where
  "year_days y = (if leap_year y then 366 else 365)"

text \<open>The days from the first of January 1970 to a date, counted year by year and month by month.\<close>

definition day_number :: "nat \<Rightarrow> nat \<Rightarrow> nat \<Rightarrow> nat" where
  "day_number y m d = (\<Sum>k\<leftarrow>[1970..<y]. year_days k) + (\<Sum>k\<leftarrow>[1..<m]. month_days y k) + (d - 1)"

definition valid_time :: "system_time \<Rightarrow> bool" where
  "valid_time st \<longleftrightarrow>
     1970 \<le> wYear st \<and> wMonth st \<in> {1..12} \<and> wDay st \<in> {1..month_days (wYear st) (wMonth st)}
     \<and> wHour st < 24 \<and> wMinute st < 60 \<and> wSecond st < 60 \<and> wMilliseconds st < 1000"

definition before_march_2100 :: "system_time \<Rightarrow> bool" where
  "before_march_2100 st \<longleftrightarrow> wYear st < 2100 \<or> wYear st = 2100 \<and> wMonth st < 3"

text \<open>Seconds since the epoch.\<close>

definition epoch_seconds :: "system_time \<Rightarrow> nat" where
  "epoch_seconds st =
     ((day_number (wYear st) (wMonth st) (wDay st) * 24 + wHour st) * 60 + wMinute st) * 60 + wSecond st"

section \<open>The formula\<close>

lemma leap_until_2100: "1970 \<le> y \<Longrightarrow> y < 2100 \<Longrightarrow> leap_year y \<longleftrightarrow> 4 dvd y"
proof -
  assume y: "1970 \<le> y" "y < 2100"
  have "100 dvd y \<longrightarrow> y = 2000"
  proof
    assume "100 dvd y"
    then obtain k where "y = 100 * k" ..
    with y show "y = 2000" by presburger
  qed
  then show ?thesis by (auto simp: leap_year_def)
qed

lemma year_sum: "1970 \<le> y \<Longrightarrow> y \<le> 2100 \<Longrightarrow> (\<Sum>k\<leftarrow>[1970..<y]. year_days k) = (y - 1970) * 365 + (y - 1969) div 4"
proof (induction y rule: nat_induct_at_least)
  case (Suc y)
  then have IH: "(\<Sum>k\<leftarrow>[1970..<y]. year_days k) = (y - 1970) * 365 + (y - 1969) div 4" by simp
  have "year_days y = 365 + (if 4 dvd y then 1 else 0)"
    using leap_until_2100 [of y] Suc by (simp add: year_days_def)
  moreover have "(Suc y - 1969) div 4 = (y - 1969) div 4 + (if 4 dvd y then 1 else 0)"
  proof -
    have "y = Suc (y - 1969) + 4 * 492 - 0" using Suc(1) by simp
    then have "4 dvd y \<longleftrightarrow> 4 dvd Suc (y - 1969)" by (metis dvd_add_times_triv_right_iff diff_zero mult.commute)
    moreover have "Suc y - 1969 = Suc (y - 1969)" using Suc(1) by simp
    ultimately show ?thesis by (simp add: div_Suc dvd_eq_mod_eq_0)
  qed
  ultimately show ?case using IH Suc(1) by simp
qed simp

lemma month_sum:
  assumes "m \<in> {1..12}"
  shows "int (\<Sum>k\<leftarrow>[1..<m]. month_days y k)
    = (if leap_year y then days_in_preceding_months_leap else days_in_preceding_months) ! (m - 1)"
proof -
  have "m = 1 \<or> m = 2 \<or> m = 3 \<or> m = 4 \<or> m = 5 \<or> m = 6 \<or> m = 7 \<or> m = 8 \<or> m = 9 \<or> m = 10 \<or> m = 11 \<or> m = 12"
    using assms by (simp, presburger)
  then show ?thesis
    by (elim disjE)
      (simp_all add: upt_rec month_days_def days_in_preceding_months_def days_in_preceding_months_leap_def)
qed

text \<open>In January and February both tables agree, so the year 2100 is right until its March.\<close>

lemma table_2100:
  assumes "before_march_2100 st" and "valid_time st"
  shows "(if int (wYear st) smod 4 \<noteq> 0 then days_in_preceding_months else days_in_preceding_months_leap) ! (wMonth st - 1)
    = int (\<Sum>k\<leftarrow>[1..<wMonth st]. month_days (wYear st) k)"
proof -
  have m: "wMonth st \<in> {1..12}" and y: "1970 \<le> wYear st" using assms(2) by (auto simp: valid_time_def)
  have mod: "int (wYear st) smod 4 = 0 \<longleftrightarrow> 4 dvd wYear st"
    by (simp add: signed_modulo_int_def sgn_if dvd_eq_mod_eq_0) presburger
  show ?thesis
  proof (cases "wYear st < 2100")
    case True
    then show ?thesis using leap_until_2100 [OF y True] month_sum [OF m] mod by simp
  next
    case False
    then have "wMonth st = 1 \<or> wMonth st = 2" using assms(1) m by (auto simp: before_march_2100_def)
    then show ?thesis
      using month_sum [OF m, of "wYear st"]
      by (auto simp: days_in_preceding_months_def days_in_preceding_months_leap_def month_days_def upt_rec)
  qed
qed

lemma day_formula:
  assumes valid: "valid_time st" and early: "before_march_2100 st"
  shows "(int (wYear st) - 1970) * 365 + (int (wYear st) - 1969) sdiv 4
      + (if int (wYear st) smod 4 \<noteq> 0 then days_in_preceding_months else days_in_preceding_months_leap) ! (wMonth st - 1)
      + int (wDay st) - 1
    = int (day_number (wYear st) (wMonth st) (wDay st))"
proof -
  have y: "1970 \<le> wYear st" "wYear st \<le> 2100" "1 \<le> wDay st"
    using assms by (auto simp: valid_time_def before_march_2100_def)
  have "(int (wYear st) - 1969) sdiv 4 = int ((wYear st - 1969) div 4)"
    using y by (simp add: signed_divide_int_def of_nat_diff)
  then show ?thesis
    using y year_sum [of "wYear st"] table_2100 [OF early valid]
    by (simp add: day_number_def of_nat_diff algebra_simps)
qed

lemma month_sum_bound: "m \<in> {1..12} \<Longrightarrow> (\<Sum>k\<leftarrow>[1..<m]. month_days y k) \<le> 335"
proof -
  assume m: "m \<in> {1..12}"
  then have "m = 1 \<or> m = 2 \<or> m = 3 \<or> m = 4 \<or> m = 5 \<or> m = 6 \<or> m = 7 \<or> m = 8 \<or> m = 9 \<or> m = 10 \<or> m = 11 \<or> m = 12"
    by (simp, presburger)
  then have "(if leap_year y then days_in_preceding_months_leap else days_in_preceding_months) ! (m - 1) \<le> 335"
    by (elim disjE) (simp_all add: days_in_preceding_months_def days_in_preceding_months_leap_def)
  with month_sum [OF m, of y] show ?thesis by linarith
qed

lemma epoch_bound:
  assumes valid: "valid_time st" and early: "before_march_2100 st"
  shows "epoch_seconds st < 2 ^ 32"
proof -
  have y: "1970 \<le> wYear st" "wYear st \<le> 2100" using assms by (auto simp: valid_time_def before_march_2100_def)
  have "(\<Sum>k\<leftarrow>[1970..<wYear st]. year_days k) \<le> 130 * 365 + 32" using y by (simp add: year_sum)
  moreover have "(\<Sum>k\<leftarrow>[1..<wMonth st]. month_days (wYear st) k) \<le> 335"
    using valid by (intro month_sum_bound) (simp add: valid_time_def)
  moreover have "wDay st - 1 \<le> 30"
  proof -
    have "wMonth st \<in> {1..12}" using valid by (simp add: valid_time_def)
    then have "wMonth st = 1 \<or> wMonth st = 2 \<or> wMonth st = 3 \<or> wMonth st = 4 \<or> wMonth st = 5 \<or> wMonth st = 6
        \<or> wMonth st = 7 \<or> wMonth st = 8 \<or> wMonth st = 9 \<or> wMonth st = 10 \<or> wMonth st = 11 \<or> wMonth st = 12"
      by (simp, presburger)
    then have "month_days (wYear st) (wMonth st) \<le> 31" by (elim disjE) (simp_all add: month_days_def)
    moreover have "wDay st \<le> month_days (wYear st) (wMonth st)" using valid by (simp add: valid_time_def)
    ultimately show ?thesis by linarith
  qed
  ultimately have "day_number (wYear st) (wMonth st) (wDay st) \<le> 48000" by (simp add: day_number_def)
  moreover have "wHour st < 24" "wMinute st < 60" "wSecond st < 60" using valid by (simp_all add: valid_time_def)
  ultimately have d: "day_number (wYear st) (wMonth st) (wDay st) \<le> 48000" and h: "wHour st \<le> 23"
    and m: "wMinute st \<le> 59" and sec: "wSecond st \<le> 59" by linarith+
  have scale: "x \<le> a \<Longrightarrow> y \<le> b \<Longrightarrow> x * k + y \<le> a * k + b" for x y a b k :: nat
    by (intro add_mono mult_le_mono1)
  have "epoch_seconds st \<le> ((48000 * 24 + 23) * 60 + 59) * 60 + 59"
    unfolding epoch_seconds_def by (intro scale d h m sec)
  then show ?thesis by simp
qed

lemma get_time_now_exact:
  assumes valid: "valid_time st" and early: "before_march_2100 st"
  shows "get_time_now st = (of_nat (epoch_seconds st), of_nat (wMilliseconds st * 1000000))"
proof -
  have "(word_of_int (int (day_number (wYear st) (wMonth st) (wDay st))) :: dword)
      = of_nat (day_number (wYear st) (wMonth st) (wDay st))" by simp
  then show ?thesis
    unfolding get_time_now_def Let_def day_formula [OF assms]
    by (simp add: epoch_seconds_def algebra_simps)
qed

lemma unat_thousand: "unat d \<le> 4294966 \<Longrightarrow> unat (d * 1000 :: dword) = unat d * 1000"
  by (simp add: unat_word_ariths)

section \<open>Properties\<close>

definition some_time :: system_time where
  "some_time = \<lparr>wYear = 1970, wMonth = 1, wDay = 1, wHour = 0, wMinute = 0, wSecond = 1, wMilliseconds = 600\<rparr>"

lemma some_time_now: "get_time_now some_time = (1, 600000000)"
  by (simp add: get_time_now_def some_time_def days_in_preceding_months_def signed_modulo_int_def
      signed_divide_int_def Let_def)

text \<open>C34: for every valid time from 1970 until the end of February 2100 the formula gives exactly the seconds
  since the epoch of the Gregorian calendar, without overflow, and the nanoseconds of the milliseconds.\<close>

theorem get_time_now_correct:
  assumes "valid_time st" and "before_march_2100 st"
  shows "unat (fst (get_time_now st)) = epoch_seconds st
    \<and> unat (snd (get_time_now st)) = wMilliseconds st * 1000000"
proof -
  have "wMilliseconds st * 1000000 < 2 ^ 32" using assms(1) by (simp add: valid_time_def)
  then show ?thesis
    using epoch_bound [OF assms] unat_of_nat_dword [of "epoch_seconds st"]
      unat_of_nat_dword [of "wMilliseconds st * 1000000"]
    unfolding get_time_now_exact [OF assms] fst_conv snd_conv by blast
qed

theorem get_time_now_correct_witness:
  "unat (fst (get_time_now \<lparr>wYear = 2000, wMonth = 2, wDay = 29, wHour = 12, wMinute = 0, wSecond = 1, wMilliseconds = 5\<rparr>))
    = epoch_seconds \<lparr>wYear = 2000, wMonth = 2, wDay = 29, wHour = 12, wMinute = 0, wSecond = 1, wMilliseconds = 5\<rparr>"
  using get_time_now_correct
    [of "\<lparr>wYear = 2000, wMonth = 2, wDay = 29, wHour = 12, wMinute = 0, wSecond = 1, wMilliseconds = 5\<rparr>"]
  by (simp add: valid_time_def before_march_2100_def month_days_def leap_year_def)

text \<open>For the first of March 2100 the formula is one day ahead, as its comment says.\<close>

theorem get_time_now_march_2100:
  "fst (get_time_now \<lparr>wYear = 2100, wMonth = 3, wDay = 1, wHour = 0, wMinute = 0, wSecond = 0, wMilliseconds = 0\<rparr>)
    = of_nat (epoch_seconds \<lparr>wYear = 2100, wMonth = 3, wDay = 1, wHour = 0, wMinute = 0, wSecond = 0, wMilliseconds = 0\<rparr>
        + 24 * 60 * 60)"
proof -
  have "(\<Sum>k\<leftarrow>[1970..<2100]. year_days k) = (2100 - 1970) * 365 + (2100 - 1969) div 4"
    by (rule year_sum) simp_all
  also have "\<dots> = 47482" by simp
  finally have years: "(\<Sum>k\<leftarrow>[1970..<2100]. year_days k) = 47482" .
  have "day_number 2100 3 1 = 47541"
    unfolding day_number_def years by (simp add: month_days_def leap_year_def upt_rec)
  then show ?thesis
    by (simp add: get_time_now_def epoch_seconds_def days_in_preceding_months_leap_def
        signed_modulo_int_def signed_divide_int_def)
qed

text \<open>Adding a relative time keeps the sum exact and the nanoseconds under a second, as long as no field
  wraps.\<close>

theorem get_time_exact:
  assumes "unat (snd (get_time_now st)) + unat rel_nsec < 2 ^ 32"
    and "unat (fst (get_time_now st)) + unat rel_sec + 4 < 2 ^ 32"
  shows "case get_time st rel_sec rel_nsec of (s, n) \<Rightarrow>
    unat n < 1000000000 \<and>
    unat s * 1000000000 + unat n = (unat (fst (get_time_now st)) + unat rel_sec) * 1000000000
      + (unat (snd (get_time_now st)) + unat rel_nsec)"
proof -
  obtain s0 n0 where now: "get_time_now st = (s0, n0)" by fastforce
  let ?n = "n0 + rel_nsec"
  have n: "unat ?n = unat n0 + unat rel_nsec" using assms(1) now by (simp add: unat_word_ariths)
  have div: "unat (?n div 1000000000) = (unat n0 + unat rel_nsec) div 1000000000"
    "unat (?n mod 1000000000) = (unat n0 + unat rel_nsec) mod 1000000000"
    using n by (simp_all add: unat_div unat_mod)
  have "(unat n0 + unat rel_nsec) div 1000000000 \<le> 4" using assms(1) now by simp
  then have "unat (s0 + (rel_sec + ?n div 1000000000)) = unat s0 + unat rel_sec + (unat n0 + unat rel_nsec) div 1000000000"
    using assms(2) now div(1) by (simp add: unat_word_ariths)
  then show ?thesis
    using now div by (simp add: get_time_def Let_def algebra_simps)
qed

theorem get_time_exact_witness:
  "case get_time some_time 2 500000000 of (s, n) \<Rightarrow> unat s * 1000000000 + unat n = 4100000000"
  using get_time_exact [of some_time 500000000 2] by (simp add: some_time_now split: prod.splits)

text \<open>With a deadline later than the current time in both fields, timedwait waits the whole
  milliseconds until it.\<close>

theorem timedwait_timeout_later:
  assumes "now_sec \<le> abs_sec" and "now_nsec \<le> abs_nsec" and "unat abs_nsec < 1000000000"
    and "unat (abs_sec - now_sec) < 4294966"
  shows "unat (timedwait_timeout abs_sec abs_nsec now_sec now_nsec)
    = (unat abs_sec - unat now_sec) * 1000 + (unat abs_nsec - unat now_nsec) div 1000000"
proof -
  have s: "unat (abs_sec - now_sec) = unat abs_sec - unat now_sec" "unat (abs_nsec - now_nsec) = unat abs_nsec - unat now_nsec"
    using assms(1,2) by (simp_all add: unat_sub word_le_nat_alt)
  then have m: "unat ((abs_sec - now_sec) * 1000) = (unat abs_sec - unat now_sec) * 1000"
    using unat_thousand [of "abs_sec - now_sec"] assms(4) by (simp only:)
  have d: "unat ((abs_nsec - now_nsec) div 1000000) = (unat abs_nsec - unat now_nsec) div 1000000"
    using s by (simp add: unat_div)
  have "(unat abs_nsec - unat now_nsec) div 1000000 < 1000" using assms(3) by simp
  then have "unat ((abs_sec - now_sec) * 1000 + (abs_nsec - now_nsec) div 1000000)
      = (unat abs_sec - unat now_sec) * 1000 + (unat abs_nsec - unat now_nsec) div 1000000"
  proof -
    have "unat ((abs_sec - now_sec) * 1000) + unat ((abs_nsec - now_nsec) div 1000000) < 4294967296"
      using m d assms(4) s \<open>(unat abs_nsec - unat now_nsec) div 1000000 < 1000\<close> by linarith
    then have "unat ((abs_sec - now_sec) * 1000) + unat ((abs_nsec - now_nsec) div 1000000) < 2 ^ 32" by simp
    then show ?thesis using m d by (simp only: unat_plus_if_size word_size) simp
  qed
  moreover have "\<not> abs_sec < now_sec" using assms(1) by simp
  ultimately show ?thesis by (simp add: timedwait_timeout_def Let_def)
qed

theorem timedwait_timeout_later_witness: "unat (timedwait_timeout 12 7000000 10 5000000) = 2002"
  using timedwait_timeout_later [of 10 12 5000000 7000000] by simp

text \<open>A deadline that passed within the current second does not time out at once: timedwait waits more than
  three seconds for it.\<close>

theorem timedwait_expired_waits:
  assumes "abs_nsec < now_nsec" and "unat now_nsec < 1000000000"
  shows "3294 \<le> unat (timedwait_timeout sec abs_nsec sec now_nsec)"
proof -
  have "unat (abs_nsec - now_nsec) = 2 ^ 32 + unat abs_nsec - unat now_nsec"
    using assms(1) unat_dword_less [of now_nsec]
    by (simp add: word_less_nat_alt unat_sub_if' )
  moreover have "3294967296 \<le> 2 ^ 32 + unat abs_nsec - unat now_nsec" using assms(2) by simp
  ultimately have "3294 \<le> unat ((abs_nsec - now_nsec) div 1000000)" by (simp add: unat_div)
  then show ?thesis by (simp add: timedwait_timeout_def Let_def)
qed

theorem timedwait_expired_waits_witness: "3294 \<le> unat (timedwait_timeout 10 5000000 10 6000000)"
  by (rule timedwait_expired_waits) simp_all

text \<open>However long the sleep, its parts add up to the seconds and the whole milliseconds asked for.\<close>

theorem sleep_total:
  assumes "unat nanosecs < 1000000000"
  shows "(\<Sum>ms\<leftarrow>omni_sleep secs nanosecs. unat ms) = unat secs * 1000 + unat nanosecs div 1000000"
proof -
  have part: "unat (s * 1000 + nanosecs div 1000000) = unat s * 1000 + unat nanosecs div 1000000"
    if "unat s \<le> 4294966" for s :: dword
  proof -
    have "unat (s * 1000) = unat s * 1000" using that by (rule unat_thousand)
    moreover have "unat nanosecs div 1000000 < 1000" using assms by simp
    ultimately show ?thesis using that by (simp add: unat_word_ariths unat_div)
  qed
  show ?thesis
  proof (cases "secs \<le> MAX_SLEEP_SECONDS")
    case True
    then show ?thesis by (simp add: omni_sleep_def part MAX_SLEEP_SECONDS_def word_le_nat_alt)
  next
    case False
    have "unat (secs mod MAX_SLEEP_SECONDS) = unat secs mod 4294966" "unat (secs div MAX_SLEEP_SECONDS) = unat secs div 4294966"
      by (simp_all add: MAX_SLEEP_SECONDS_def unat_mod unat_div)
    moreover have "unat secs mod 4294966 < 4294966" by simp
    moreover have "unat (MAX_SLEEP_SECONDS * 1000) = 4294966 * 1000" by (simp add: MAX_SLEEP_SECONDS_def)
    moreover have "unat secs div 4294966 * (4294966 * 1000) + unat secs mod 4294966 * 1000 = unat secs * 1000"
    proof -
      define q r where "q = unat secs div 4294966" and "r = unat secs mod 4294966"
      have "q * 4294966 + r = unat secs" by (simp add: q_def r_def)
      then show ?thesis unfolding q_def [symmetric] r_def [symmetric] by linarith
    qed
    ultimately show ?thesis
      using False part [of "secs mod MAX_SLEEP_SECONDS"]
      by (simp add: omni_sleep_def sum_list_replicate)
  qed
qed

theorem sleep_total_witness: "(\<Sum>ms\<leftarrow>omni_sleep 4294970 5000000. unat ms) = 4294970005"
  using sleep_total [of 5000000 4294970] by simp

end
