(* ===== verification/OmniCond.thy ===== *)
theory OmniCond
  imports Prelude
begin

text \<open>
  \<^verbatim>\<open>omni_condition\<close> and \<^verbatim>\<open>omni_semaphore\<close> of \<^verbatim>\<open>omnithread/nt.cpp\<close>. The threads that wait on a condition are
  a doubly linked list through fields of the thread objects; each thread has a semaphore of its own. The
  list is shown to be a first-in first-out queue, and the protocol of wait, timed wait and signal is a
  step relation whose invariant says that no wake-up is lost and none is kept for later.
\<close>

section \<open>The condition variable\<close>

text \<open>The fields of a thread object that the condition uses; the value of its semaphore is a number.\<close>

record waiter =
  cond_next :: "nat option"
  cond_prev :: "nat option"
  cond_waiting :: bool
  cond_semaphore :: nat

record omni_condition =
  waiters :: "nat \<Rightarrow> waiter"
  waiting_head :: "nat option"
  waiting_tail :: "nat option"

datatype omni_error = Fault fault | Fatal | Invalid

type_synonym 'a omni = "omni_error + 'a"

definition SEMAPHORE_MAX :: nat where "SEMAPHORE_MAX = 0x7fffffff"

definition waiter_init :: waiter where
  "waiter_init = \<lparr>cond_next = None, cond_prev = None, cond_waiting = False, cond_semaphore = 0\<rparr>"

definition omni_condition_init :: omni_condition where
  "omni_condition_init = \<lparr>waiters = (\<lambda>_. waiter_init), waiting_head = None, waiting_tail = None\<rparr>"

definition upd :: "nat \<Rightarrow> (waiter \<Rightarrow> waiter) \<Rightarrow> omni_condition \<Rightarrow> omni_condition" where
  "upd t f c = c\<lparr>waiters := (waiters c)(t := f (waiters c t))\<rparr>"

text \<open>The start of \<open>wait\<close> and \<open>timedwait\<close>: the thread goes to the end of the list.\<close>

definition cond_enqueue :: "nat \<Rightarrow> omni_condition \<Rightarrow> omni_condition omni" where
  "cond_enqueue me c =
     (let c = upd me (\<lambda>w. w\<lparr>cond_next := None, cond_prev := waiting_tail c\<rparr>) c in
      rbind (if waiting_head c = None then Inr (c\<lparr>waiting_head := Some me\<rparr>)
             else (case waiting_tail c of
                     None \<Rightarrow> Inl (Fault NullPointer)
                   | Some t \<Rightarrow> Inr (upd t (\<lambda>w. w\<lparr>cond_next := Some me\<rparr>) c))) (\<lambda>c.
      Inr (upd me (\<lambda>w. w\<lparr>cond_waiting := True\<rparr>) (c\<lparr>waiting_tail := Some me\<rparr>))))"

text \<open>The body that \<open>signal\<close> and the loop of \<open>broadcast\<close> share: take the first thread, kick its semaphore.\<close>

definition cond_pop :: "nat \<Rightarrow> omni_condition \<Rightarrow> omni_condition omni" where
  "cond_pop t c =
     (let c = c\<lparr>waiting_head := cond_next (waiters c t)\<rparr>;
          c = (case waiting_head c of
                 None \<Rightarrow> c\<lparr>waiting_tail := None\<rparr>
               | Some h \<Rightarrow> upd h (\<lambda>w. w\<lparr>cond_prev := None\<rparr>) c);
          c = upd t (\<lambda>w. w\<lparr>cond_waiting := False\<rparr>) c in
      if cond_semaphore (waiters c t) < SEMAPHORE_MAX
      then Inr (upd t (\<lambda>w. w\<lparr>cond_semaphore := cond_semaphore w + 1\<rparr>) c)
      else Inl Fatal)"

definition cond_signal :: "omni_condition \<Rightarrow> omni_condition omni" where
  "cond_signal c = (case waiting_head c of None \<Rightarrow> Inr c | Some t \<Rightarrow> cond_pop t c)"

partial_function (option) cond_broadcast :: "omni_condition \<Rightarrow> omni_condition omni option" where
  "cond_broadcast c =
     (case waiting_head c of
        None \<Rightarrow> Some (Inr c)
      | Some t \<Rightarrow> (case cond_pop t c of Inl e \<Rightarrow> Some (Inl e) | Inr c' \<Rightarrow> cond_broadcast c'))"

text \<open>The end of a timed-out \<open>timedwait\<close> that nobody signalled: the thread leaves the list.\<close>

definition cond_unlink :: "nat \<Rightarrow> omni_condition \<Rightarrow> omni_condition" where
  "cond_unlink me c =
     (let w = waiters c me;
          c = (case cond_prev w of
                 Some p \<Rightarrow> upd p (\<lambda>x. x\<lparr>cond_next := cond_next w\<rparr>) c
               | None \<Rightarrow> c\<lparr>waiting_head := cond_next w\<rparr>);
          c = (case cond_next w of
                 Some n \<Rightarrow> upd n (\<lambda>x. x\<lparr>cond_prev := cond_prev w\<rparr>) c
               | None \<Rightarrow> c\<lparr>waiting_tail := cond_prev w\<rparr>)
      in upd me (\<lambda>x. x\<lparr>cond_waiting := False\<rparr>) c)"

section \<open>The counting semaphore\<close>

text \<open>\<open>wait\<close> blocks at zero, which is \<^term>\<open>None\<close>; \<open>trywait\<close> answers; \<open>post\<close> fails at the maximum.\<close>

definition sem_create :: "nat \<Rightarrow> nat omni" where
  "sem_create initial = (if initial \<le> SEMAPHORE_MAX then Inr initial else Inl Fatal)"

definition sem_wait :: "nat \<Rightarrow> nat option" where
  "sem_wait n = (if 0 < n then Some (n - 1) else None)"

definition sem_trywait :: "nat \<Rightarrow> int \<times> nat" where
  "sem_trywait n = (if 0 < n then (1, n - 1) else (0, n))"

definition sem_post :: "nat \<Rightarrow> nat omni" where
  "sem_post n = (if n < SEMAPHORE_MAX then Inr (n + 1) else Inl Fatal)"

section \<open>The list\<close>

text \<open>The links of a stretch of the list, between the element before it and the one after it.\<close>

fun dlinks :: "(nat \<Rightarrow> waiter) \<Rightarrow> nat option \<Rightarrow> nat list \<Rightarrow> nat option \<Rightarrow> bool" where
  "dlinks w p [] n = True"
| "dlinks w p (t # ts) n \<longleftrightarrow>
     cond_prev (w t) = p \<and> cond_next (w t) = (case ts of [] \<Rightarrow> n | u # _ \<Rightarrow> Some u) \<and> dlinks w (Some t) ts n"

abbreviation first :: "nat list \<Rightarrow> nat option" where
  "first qs \<equiv> (case qs of [] \<Rightarrow> None | t # _ \<Rightarrow> Some t)"

abbreviation final :: "nat list \<Rightarrow> nat option" where
  "final qs \<equiv> (if qs = [] then None else Some (last qs))"

definition queue_is :: "omni_condition \<Rightarrow> nat list \<Rightarrow> bool" where
  "queue_is c qs \<longleftrightarrow>
     waiting_head c = first qs \<and> waiting_tail c = final qs \<and> distinct qs
     \<and> dlinks (waiters c) None qs None \<and> (\<forall>t. cond_waiting (waiters c t) \<longleftrightarrow> t \<in> set qs)"

lemma dlinks_append:
  "dlinks w p (xs @ ys) n \<longleftrightarrow>
     dlinks w p xs (case ys of [] \<Rightarrow> n | y # _ \<Rightarrow> Some y) \<and> dlinks w (if xs = [] then p else Some (last xs)) ys n"
  by (induction xs arbitrary: p) (auto split: list.splits)

lemma dlinks_cong:
  "(\<And>t. t \<in> set ts \<Longrightarrow> cond_next (w' t) = cond_next (w t) \<and> cond_prev (w' t) = cond_prev (w t)) \<Longrightarrow>
     dlinks w' p ts n = dlinks w p ts n"
  by (induction ts arbitrary: p) auto

lemma dlinks_last:
  assumes "dlinks w p (xs @ [u]) n" and "u \<notin> set xs"
    and "cond_next (w' u) = n'" and "cond_prev (w' u) = cond_prev (w u)"
    and "\<And>t. t \<in> set xs \<Longrightarrow> cond_next (w' t) = cond_next (w t) \<and> cond_prev (w' t) = cond_prev (w t)"
  shows "dlinks w' p (xs @ [u]) n'"
  using assms dlinks_cong [of xs w' w p "Some u"] by (simp add: dlinks_append)

lemma dlinks_first:
  assumes "dlinks w p (u # ys) n" and "u \<notin> set ys"
    and "cond_prev (w' u) = p'" and "cond_next (w' u) = cond_next (w u)"
    and "\<And>t. t \<in> set ys \<Longrightarrow> cond_next (w' t) = cond_next (w t) \<and> cond_prev (w' t) = cond_prev (w t)"
  shows "dlinks w' p' (u # ys) n"
  using assms dlinks_cong [of ys w' w "Some u" n] by simp

lemma upd_simps [simp]:
  "waiting_head (upd t f c) = waiting_head c" "waiting_tail (upd t f c) = waiting_tail c"
  "waiters (upd t f c) x = (if x = t then f (waiters c t) else waiters c x)"
  by (simp_all add: upd_def)

lemma queue_init: "queue_is omni_condition_init []"
  by (simp add: queue_is_def omni_condition_init_def waiter_init_def)

lemma cond_enqueue_refines:
  assumes q: "queue_is c qs" and me: "me \<notin> set qs"
  shows "\<exists>c'. cond_enqueue me c = Inr c' \<and> queue_is c' (qs @ [me])
    \<and> (\<forall>t. cond_semaphore (waiters c' t) = cond_semaphore (waiters c t))"
proof (cases qs rule: rev_cases)
  case Nil
  with q show ?thesis by (auto simp: cond_enqueue_def Let_def queue_is_def)
next
  case (snoc rs u)
  then have u: "waiting_head c \<noteq> None" "waiting_tail c = Some u" "u \<noteq> me" "u \<notin> set rs"
    using q me by (auto simp: queue_is_def split: list.splits)
  let ?c0 = "upd me (\<lambda>w. w\<lparr>cond_next := None, cond_prev := Some u\<rparr>) c"
  let ?c = "upd me (\<lambda>w. w\<lparr>cond_waiting := True\<rparr>) ((upd u (\<lambda>w. w\<lparr>cond_next := Some me\<rparr>) ?c0)\<lparr>waiting_tail := Some me\<rparr>)"
  have run: "cond_enqueue me c = Inr ?c" using u by (auto simp: cond_enqueue_def Let_def)
  have "dlinks (waiters ?c) None (rs @ [u]) (Some me)"
  proof (rule dlinks_last)
    show "dlinks (waiters c) None (rs @ [u]) None" using q snoc by (simp add: queue_is_def)
    show "u \<notin> set rs" by (rule u(4))
  qed (use u me snoc in auto)
  then have "dlinks (waiters ?c) None (qs @ [me]) None"
    using snoc u(3) by (simp add: dlinks_append)
  moreover have "first (qs @ [me]) = first qs" using snoc by (cases rs) simp_all
  moreover have "cond_waiting (waiters ?c x) \<longleftrightarrow> x \<in> set (qs @ [me])" for x
    using q u(3) by (auto simp: queue_is_def)
  ultimately have "queue_is ?c (qs @ [me])"
    using q me by (simp add: queue_is_def)
  with run show ?thesis by simp
qed

lemma cond_pop_refines:
  assumes q: "queue_is c (t # qs)" and room: "cond_semaphore (waiters c t) < SEMAPHORE_MAX"
  shows "\<exists>c'. cond_pop t c = Inr c' \<and> queue_is c' qs
    \<and> (\<forall>x. cond_semaphore (waiters c' x) = cond_semaphore (waiters c x) + (if x = t then 1 else 0))"
proof -
  have t: "t \<notin> set qs" "distinct qs" "dlinks (waiters c) (Some t) qs None"
    "cond_next (waiters c t) = first qs" using q by (auto simp: queue_is_def)
  show ?thesis
  proof (cases qs)
    case Nil
    with q t room show ?thesis by (auto simp: cond_pop_def Let_def queue_is_def)
  next
    case (Cons u us)
    let ?c1 = "upd u (\<lambda>w. w\<lparr>cond_prev := None\<rparr>) (c\<lparr>waiting_head := Some u\<rparr>)"
    let ?c = "upd t (\<lambda>w. w\<lparr>cond_semaphore := cond_semaphore w + 1\<rparr>) (upd t (\<lambda>w. w\<lparr>cond_waiting := False\<rparr>) ?c1)"
    have run: "cond_pop t c = Inr ?c" using t Cons room by (auto simp: cond_pop_def Let_def)
    have "dlinks (waiters ?c) None qs None"
      unfolding Cons by (rule dlinks_first [of "waiters c" "Some t"]) (use t Cons in auto)
    then have "queue_is ?c qs" using q t Cons by (auto simp: queue_is_def split: if_splits)
    with run show ?thesis using t(1) Cons by auto
  qed
qed

lemma cond_signal_refines:
  assumes q: "queue_is c qs" and room: "\<forall>t \<in> set qs. cond_semaphore (waiters c t) < SEMAPHORE_MAX"
  shows "\<exists>c'. cond_signal c = Inr c' \<and> queue_is c' (tl qs)
    \<and> (\<forall>x. cond_semaphore (waiters c' x) = cond_semaphore (waiters c x) + (if first qs = Some x then 1 else 0))"
proof (cases qs)
  case Nil
  with q have "waiting_head c = None" by (simp add: queue_is_def)
  with q Nil show ?thesis by (simp add: cond_signal_def)
next
  case (Cons t ts)
  with q have "waiting_head c = Some t" by (simp add: queue_is_def)
  with cond_pop_refines [of c t ts] q room Cons show ?thesis by (auto simp: cond_signal_def)
qed

lemma cond_broadcast_refines:
  "queue_is c qs \<Longrightarrow> \<forall>t \<in> set qs. cond_semaphore (waiters c t) < SEMAPHORE_MAX \<Longrightarrow>
     \<exists>c'. cond_broadcast c = Some (Inr c') \<and> queue_is c' []
       \<and> (\<forall>x. cond_semaphore (waiters c' x) = cond_semaphore (waiters c x) + (if x \<in> set qs then 1 else 0))"
proof (induction qs arbitrary: c)
  case Nil
  then show ?case by (subst cond_broadcast.simps) (simp add: queue_is_def)
next
  case (Cons t ts)
  have head: "waiting_head c = Some t" and t: "t \<notin> set ts" using Cons.prems(1) by (simp_all add: queue_is_def)
  from cond_pop_refines [OF Cons.prems(1)] Cons.prems(2) obtain c1 where c1: "cond_pop t c = Inr c1"
      "queue_is c1 ts"
      "\<forall>x. cond_semaphore (waiters c1 x) = cond_semaphore (waiters c x) + (if x = t then 1 else 0)" by auto
  have "\<forall>u \<in> set ts. cond_semaphore (waiters c1 u) < SEMAPHORE_MAX" using c1(3) t Cons.prems(2) by auto
  from Cons.IH [OF c1(2) this] obtain c2 where c2: "cond_broadcast c1 = Some (Inr c2)" "queue_is c2 []"
      "\<forall>x. cond_semaphore (waiters c2 x) = cond_semaphore (waiters c1 x) + (if x \<in> set ts then 1 else 0)" by auto
  have "cond_broadcast c = Some (Inr c2)" using head c1(1) c2(1) by (subst cond_broadcast.simps) simp
  with c1(3) c2(2,3) t show ?case by auto
qed

lemma cond_unlink_refines:
  assumes q: "queue_is c (xs @ t # ys)"
  shows "queue_is (cond_unlink t c) (xs @ ys)
    \<and> (\<forall>x. cond_semaphore (waiters (cond_unlink t c) x) = cond_semaphore (waiters c x))"
proof -
  have d: "distinct (xs @ t # ys)" and all: "dlinks (waiters c) None (xs @ t # ys) None"
    and wait: "\<And>x. cond_waiting (waiters c x) \<longleftrightarrow> x \<in> set (xs @ t # ys)"
    using q by (auto simp: queue_is_def)
  have prev: "cond_prev (waiters c t) = final xs" and nxt: "cond_next (waiters c t) = first ys"
    and left: "dlinks (waiters c) None xs (Some t)" and right: "dlinks (waiters c) (Some t) ys None"
    using all by (simp_all add: dlinks_append)
  let ?c' = "cond_unlink t c"
  have w: "waiters ?c' x = (let y = waiters c x;
      y = (if xs \<noteq> [] \<and> x = last xs then y\<lparr>cond_next := first ys\<rparr> else y);
      y = (if ys \<noteq> [] \<and> x = hd ys then y\<lparr>cond_prev := final xs\<rparr> else y)
      in if x = t then y\<lparr>cond_waiting := False\<rparr> else y)" for x
    by (cases "xs = []"; cases ys) (auto simp: cond_unlink_def Let_def prev nxt)
  have left': "dlinks (waiters ?c') None xs (first ys)"
  proof (cases xs rule: rev_cases)
    case (snoc zs u)
    have "dlinks (waiters ?c') None (zs @ [u]) (first ys)"
    proof (rule dlinks_last)
      show "dlinks (waiters c) None (zs @ [u]) (Some t)" using left snoc by simp
      show "u \<notin> set zs" using d snoc by simp
    qed (use snoc d in \<open>auto simp: w Let_def dest: hd_in_set\<close>)
    then show ?thesis using snoc by simp
  qed simp
  have right': "dlinks (waiters ?c') (final xs) ys None"
  proof (cases ys)
    case (Cons u us)
    have "dlinks (waiters ?c') (final xs) (u # us) None"
    proof (rule dlinks_first)
      show "dlinks (waiters c) (Some t) (u # us) None" using right Cons by simp
      show "u \<notin> set us" using d Cons by simp
    qed (use Cons d in \<open>auto simp: w Let_def dest: last_in_set\<close>)
    then show ?thesis using Cons by simp
  qed simp
  have "waiting_head ?c' = first (xs @ ys)"
    using q prev nxt by (cases xs; cases ys) (auto simp: cond_unlink_def Let_def queue_is_def split: option.splits)
  moreover have "waiting_tail ?c' = final (xs @ ys)"
    using q prev nxt by (cases ys) (auto simp: cond_unlink_def Let_def queue_is_def split: option.splits)
  moreover have "dlinks (waiters ?c') None (xs @ ys) None"
    using left' right' by (auto simp: dlinks_append split: list.splits)
  moreover have "cond_waiting (waiters ?c' x) \<longleftrightarrow> x \<in> set (xs @ ys)" for x
    using wait [of x] d by (auto simp: w Let_def)
  moreover have "cond_semaphore (waiters ?c' x) = cond_semaphore (waiters c x)" for x
    by (simp add: w Let_def)
  ultimately show ?thesis using d by (simp add: queue_is_def)
qed

section \<open>The protocol\<close>

text \<open>
  Where a thread is: outside, in the wait for its semaphore (timed or not), after a time-out and before
  the critical section, or in the second wait of \<open>timedwait\<close>. \<open>wait_results\<close> logs the return values.
\<close>

datatype cv_phase = Running | Blocked bool | TimedOut | Draining

record cv =
  cond :: omni_condition
  phase :: "nat \<Rightarrow> cv_phase"
  wait_results :: "(nat \<times> int) list"

definition cv_init :: cv where
  "cv_init = \<lparr>cond = omni_condition_init, phase = (\<lambda>_. Running), wait_results = []\<rparr>"

abbreviation sem_of :: "cv \<Rightarrow> nat \<Rightarrow> nat" where
  "sem_of s t \<equiv> cond_semaphore (waiters (cond s) t)"

text \<open>A thread whose semaphore was positive leaves its wait and returns 1.\<close>

definition cv_return :: "nat \<Rightarrow> nat \<Rightarrow> cv \<Rightarrow> cv" where
  "cv_return t n s =
     s\<lparr>cond := upd t (\<lambda>w. w\<lparr>cond_semaphore := n\<rparr>) (cond s), phase := (phase s)(t := Running),
       wait_results := wait_results s @ [(t, 1)]\<rparr>"

inductive cv_step :: "cv \<Rightarrow> cv \<Rightarrow> bool" where
  waits: "phase s t = Running \<Longrightarrow> cond_enqueue t (cond s) = Inr c \<Longrightarrow>
    cv_step s (s\<lparr>cond := c, phase := (phase s)(t := Blocked timed)\<rparr>)"
| wakes: "phase s t = Blocked timed \<Longrightarrow> sem_wait (sem_of s t) = Some n \<Longrightarrow> cv_step s (cv_return t n s)"
| times_out: "phase s t = Blocked True \<Longrightarrow> sem_wait (sem_of s t) = None \<Longrightarrow>
    cv_step s (s\<lparr>phase := (phase s)(t := TimedOut)\<rparr>)"
| gives_up: "phase s t = TimedOut \<Longrightarrow> cond_waiting (waiters (cond s) t) \<Longrightarrow>
    cv_step s (s\<lparr>cond := cond_unlink t (cond s), phase := (phase s)(t := Running),
                 wait_results := wait_results s @ [(t, 0)]\<rparr>)"
| was_signalled: "phase s t = TimedOut \<Longrightarrow> \<not> cond_waiting (waiters (cond s) t) \<Longrightarrow>
    cv_step s (s\<lparr>phase := (phase s)(t := Draining)\<rparr>)"
| drains: "phase s t = Draining \<Longrightarrow> sem_wait (sem_of s t) = Some n \<Longrightarrow> cv_step s (cv_return t n s)"
| signals: "cond_signal (cond s) = Inr c \<Longrightarrow> cv_step s (s\<lparr>cond := c\<rparr>)"
| broadcasts: "cond_broadcast (cond s) = Some (Inr c) \<Longrightarrow> cv_step s (s\<lparr>cond := c\<rparr>)"

definition cv_ok :: "cv \<Rightarrow> nat list \<Rightarrow> bool" where
  "cv_ok s qs \<longleftrightarrow>
     queue_is (cond s) qs
     \<and> (\<forall>t. (t \<in> set qs \<longrightarrow> phase s t \<noteq> Running \<and> phase s t \<noteq> Draining)
           \<and> sem_of s t = (if phase s t \<noteq> Running \<and> t \<notin> set qs then 1 else 0))"

lemma cv_ok_init: "cv_ok cv_init []"
  by (simp add: cv_ok_def cv_init_def queue_init) (simp add: omni_condition_init_def waiter_init_def)

lemma queue_is_sem: "queue_is (upd t (\<lambda>w. w\<lparr>cond_semaphore := n\<rparr>) c) qs = queue_is c qs"
proof -
  let ?c = "upd t (\<lambda>w. w\<lparr>cond_semaphore := n\<rparr>) c"
  have "dlinks (waiters ?c) None qs None = dlinks (waiters c) None qs None" by (rule dlinks_cong) simp
  moreover have "cond_waiting (waiters ?c x) = cond_waiting (waiters c x)" for x by simp
  ultimately show ?thesis unfolding queue_is_def by (simp only: upd_simps(1,2))
qed

lemma queue_is_waiting: "queue_is c qs \<Longrightarrow> cond_waiting (waiters c t) \<longleftrightarrow> t \<in> set qs"
  by (simp add: queue_is_def)

lemma cv_ok_room: "cv_ok s qs \<Longrightarrow> \<forall>t \<in> set qs. sem_of s t < SEMAPHORE_MAX"
  by (simp add: cv_ok_def SEMAPHORE_MAX_def)

lemma cv_return_ok:
  assumes "cv_ok s qs" and "phase s t \<noteq> Running" and "sem_wait (sem_of s t) = Some n"
  shows "cv_ok (cv_return t n s) qs"
  using assms by (auto simp: cv_ok_def cv_return_def queue_is_sem sem_wait_def split: if_splits)

lemma cv_step_ok:
  assumes "cv_step s s'" and ok: "cv_ok s qs"
  shows "\<exists>qs'. cv_ok s' qs'"
  using assms(1)
proof (cases rule: cv_step.cases)
  case (waits t c timed)
  then have "t \<notin> set qs" using ok by (auto simp: cv_ok_def)
  with cond_enqueue_refines [of "cond s" qs t] ok waits have "cv_ok s' (qs @ [t])"
    by (auto simp: cv_ok_def)
  then show ?thesis ..
next
  case (wakes t timed n)
  with cv_return_ok [OF ok, of t n] show ?thesis by auto
next
  case (times_out t)
  then have "cv_ok s' qs" using ok by (auto simp: cv_ok_def sem_wait_def split: if_splits)
  then show ?thesis ..
next
  case (gives_up t)
  then have "t \<in> set qs" using ok queue_is_waiting by (auto simp: cv_ok_def)
  then obtain xs ys where qs: "qs = xs @ t # ys" by (auto simp: in_set_conv_decomp)
  then have "queue_is (cond s) (xs @ t # ys)" "t \<notin> set xs" "t \<notin> set ys" using ok by (auto simp: cv_ok_def queue_is_def)
  with cond_unlink_refines [of "cond s" xs t ys] gives_up ok qs have "cv_ok s' (xs @ ys)"
    by (auto simp: cv_ok_def)
  then show ?thesis ..
next
  case (was_signalled t)
  then have "cv_ok s' qs" using ok queue_is_waiting by (auto simp: cv_ok_def)
  then show ?thesis ..
next
  case (drains t n)
  with cv_return_ok [OF ok, of t n] show ?thesis by auto
next
  case (signals c)
  from cond_signal_refines [OF _ cv_ok_room [OF ok]] ok signals have c: "queue_is c (tl qs)"
      "\<forall>x. cond_semaphore (waiters c x) = sem_of s x + (if first qs = Some x then 1 else 0)"
    by (auto simp: cv_ok_def)
  have "distinct qs" using ok by (simp add: cv_ok_def queue_is_def)
  then have "cv_ok s' (tl qs)" using c ok signals by (cases qs) (auto simp: cv_ok_def)
  then show ?thesis ..
next
  case (broadcasts c)
  from cond_broadcast_refines [OF _ cv_ok_room [OF ok]] ok broadcasts have c: "queue_is c []"
      "\<forall>x. cond_semaphore (waiters c x) = sem_of s x + (if x \<in> set qs then 1 else 0)"
    by (auto simp: cv_ok_def)
  then have "cv_ok s' []" using ok broadcasts by (auto simp: cv_ok_def)
  then show ?thesis ..
qed

lemma cv_reachable: "cv_step\<^sup>*\<^sup>* cv_init s \<Longrightarrow> \<exists>qs. cv_ok s qs"
  by (induction rule: rtranclp_induct) (auto intro: cv_ok_init dest: cv_step_ok)

section \<open>Properties\<close>

text \<open>Threads 1, 2 and 3 wait, in this order.\<close>

definition three_waiting :: omni_condition where
  "three_waiting =
     \<lparr>waiters = (\<lambda>_. waiter_init)
        (1 := \<lparr>cond_next = Some 2, cond_prev = None, cond_waiting = True, cond_semaphore = 0\<rparr>,
         2 := \<lparr>cond_next = Some 3, cond_prev = Some 1, cond_waiting = True, cond_semaphore = 0\<rparr>,
         3 := \<lparr>cond_next = None, cond_prev = Some 2, cond_waiting = True, cond_semaphore = 0\<rparr>),
      waiting_head = Some 1, waiting_tail = Some 3\<rparr>"

lemma three_waiting: "queue_is three_waiting [1, 2, 3]" "cond_semaphore (waiters three_waiting x) = 0"
  by (auto simp: queue_is_def three_waiting_def waiter_init_def)

text \<open>The linked list behaves as a first-in first-out queue: a wait appends the thread, a signal takes the
  first one out and adds 1 to its semaphore (only), a time-out takes any thread out of the middle, and
  neither reaches outside the list.\<close>

theorem condition_is_fifo:
  assumes "queue_is c (xs @ t # ys)" and "u \<notin> set (xs @ t # ys)"
    and "\<forall>x. cond_semaphore (waiters c x) < SEMAPHORE_MAX"
  shows "(\<exists>c'. cond_enqueue u c = Inr c' \<and> queue_is c' (xs @ t # ys @ [u]))
    \<and> (\<exists>c'. cond_signal c = Inr c' \<and> queue_is c' (tl (xs @ t # ys))
         \<and> (\<forall>x. cond_semaphore (waiters c' x)
               = cond_semaphore (waiters c x) + (if x = hd (xs @ t # ys) then 1 else 0)))
    \<and> queue_is (cond_unlink t c) (xs @ ys)"
proof -
  have "first (xs @ t # ys) = Some x \<longleftrightarrow> x = hd (xs @ t # ys)" for x by (cases xs) auto
  then show ?thesis
    using cond_enqueue_refines [OF assms(1,2)] cond_signal_refines [OF assms(1)] assms(3)
      cond_unlink_refines [OF assms(1)] by auto
qed

theorem condition_is_fifo_witness:
  "(\<exists>c'. cond_enqueue 4 three_waiting = Inr c' \<and> queue_is c' [1, 2, 3, 4])
   \<and> queue_is (cond_unlink 2 three_waiting) [1, 3]"
  using condition_is_fifo [of three_waiting "[1]" 2 "[3]" 4] three_waiting
  by (simp add: SEMAPHORE_MAX_def)

text \<open>Broadcast returns for every list, having woken each of its threads once and emptied it.\<close>

theorem broadcast_wakes_all:
  assumes "queue_is c qs" and "\<forall>t \<in> set qs. cond_semaphore (waiters c t) < SEMAPHORE_MAX"
  shows "\<exists>c'. cond_broadcast c = Some (Inr c') \<and> queue_is c' []
    \<and> (\<forall>x. cond_semaphore (waiters c' x) = cond_semaphore (waiters c x) + (if x \<in> set qs then 1 else 0))"
  by (rule cond_broadcast_refines [OF assms])

theorem broadcast_wakes_all_witness:
  "\<exists>c'. cond_broadcast three_waiting = Some (Inr c') \<and> queue_is c' [] \<and> cond_semaphore (waiters c' 2) = 1
     \<and> cond_semaphore (waiters c' 4) = 0"
  using broadcast_wakes_all [of three_waiting "[1, 2, 3]"] three_waiting
  by (force simp: SEMAPHORE_MAX_def)

text \<open>C28: in every order of waits, time-outs, signals and broadcasts, a thread that was taken off the list and has
  not returned has exactly one kick waiting in its semaphore, so its wait (also the second one of a timedwait
  that timed out at the same moment) ends at once, and no other thread has a kick left over.\<close>

theorem no_wakeup_lost_or_kept:
  assumes "cv_step\<^sup>*\<^sup>* cv_init s"
  shows "sem_of s t = (if phase s t \<noteq> Running \<and> \<not> cond_waiting (waiters (cond s) t) then 1 else 0)
    \<and> (phase s t = Draining \<longrightarrow> sem_wait (sem_of s t) \<noteq> None)"
proof -
  from cv_reachable [OF assms] obtain qs where "cv_ok s qs" ..
  then show ?thesis using queue_is_waiting by (auto simp: cv_ok_def sem_wait_def)
qed

text \<open>A timed wait of thread 1 expires just before thread 2 signals.\<close>

lemma late_signal:
  "\<exists>s. cv_step\<^sup>*\<^sup>* cv_init s \<and> phase s 1 = Draining \<and> \<not> cond_waiting (waiters (cond s) 1)"
proof -
  obtain c1 where c1: "cond_enqueue 1 (cond cv_init) = Inr c1" "queue_is c1 [1]"
      "cond_semaphore (waiters c1 1) = 0" "cond_semaphore (waiters c1 x) = 0" for x
    using cond_enqueue_refines [of "cond cv_init" "[]" 1] queue_init
    by (force simp: cv_init_def omni_condition_init_def waiter_init_def)
  let ?s1 = "cv_init\<lparr>cond := c1, phase := (phase cv_init)(1 := Blocked True)\<rparr>"
  let ?s2 = "?s1\<lparr>phase := (phase ?s1)(1 := TimedOut)\<rparr>"
  obtain c2 where c2: "cond_signal c1 = Inr c2" "queue_is c2 []"
    using cond_signal_refines [OF c1(2)] c1(3) by (auto simp: SEMAPHORE_MAX_def)
  let ?s3 = "?s2\<lparr>cond := c2\<rparr>"
  let ?s4 = "?s3\<lparr>phase := (phase ?s3)(1 := Draining)\<rparr>"
  have "cv_step cv_init ?s1" by (rule waits) (use c1 in \<open>simp_all add: cv_init_def\<close>)
  moreover have "cv_step ?s1 ?s2" by (rule times_out) (use c1 in \<open>simp_all add: sem_wait_def\<close>)
  moreover have "cv_step ?s2 ?s3" by (rule signals) (use c2 in simp)
  moreover have "cv_step ?s3 ?s4" by (rule was_signalled) (use c2 queue_is_waiting in auto)
  ultimately have "cv_step\<^sup>*\<^sup>* cv_init ?s4" by (meson converse_rtranclp_into_rtranclp rtranclp.rtrancl_refl)
  moreover have "\<not> cond_waiting (waiters (cond ?s4) 1)" using c2 queue_is_waiting by auto
  ultimately show ?thesis by (intro exI [of _ ?s4]) simp
qed

theorem no_wakeup_lost_or_kept_witness: "\<exists>s. cv_step\<^sup>*\<^sup>* cv_init s \<and> phase s 1 = Draining \<and> sem_of s 1 = 1"
proof -
  from late_signal obtain s where "cv_step\<^sup>*\<^sup>* cv_init s" "phase s 1 = Draining"
    "\<not> cond_waiting (waiters (cond s) 1)" by blast
  then show ?thesis using no_wakeup_lost_or_kept [of s 1] by auto
qed

end
