(* ===== verification/JsonItem.thy ===== *)
theory JsonItem
  imports Complex_Main Prelude
begin

text \<open>
  The items of \<^verbatim>\<open>cJSON_Unicode.cpp\<close> as trees, and the floating point arithmetic its numbers use. A C
  string is the list of its characters without the final zero; \<^term>\<open>None\<close> is a null pointer.
\<close>

section \<open>Items\<close>

definition cJSON_False :: int where "cJSON_False = 0"
definition cJSON_True :: int where "cJSON_True = 1"
definition cJSON_NULL :: int where "cJSON_NULL = 2"
definition cJSON_Number :: int where "cJSON_Number = 3"
definition cJSON_String :: int where "cJSON_String = 4"
definition cJSON_Array :: int where "cJSON_Array = 5"
definition cJSON_Object :: int where "cJSON_Object = 6"
definition cJSON_IsReference :: int where "cJSON_IsReference = 256"
definition cJSON_StringIsConst :: int where "cJSON_StringIsConst = 512"

lemmas cJSON_types = cJSON_False_def cJSON_True_def cJSON_NULL_def cJSON_Number_def cJSON_String_def
  cJSON_Array_def cJSON_Object_def cJSON_IsReference_def cJSON_StringIsConst_def

text \<open>
  The node of an item. \<open>child\<close> is the chain that starts at the pointer \<^verbatim>\<open>child\<close> and goes on through the
  pointers \<^verbatim>\<open>next\<close>; the name of an item is \<open>jstring\<close> (the field \<^verbatim>\<open>string\<close>).
\<close>

datatype cjson = CJSON (jtype: int) (valuestring: "wchar list option") (valueint: int) (valuedouble: rat)
  (jstring: "wchar list option") (child: "cjson list")

text \<open>What \<^verbatim>\<open>cJSON_New_Item\<close> makes: a node of zeros.\<close>

definition zero_item :: cjson where
  "zero_item = CJSON 0 None 0 0 None []"

definition with_name :: "wchar list \<Rightarrow> cjson \<Rightarrow> cjson" where
  "with_name s it = CJSON (jtype it) (valuestring it) (valueint it) (valuedouble it) (Some s) (child it)"

lemma with_name_sel [simp]:
  "jtype (with_name s it) = jtype it" "valuestring (with_name s it) = valuestring it"
  "valueint (with_name s it) = valueint it" "valuedouble (with_name s it) = valuedouble it"
  "jstring (with_name s it) = Some s" "child (with_name s it) = child it"
  by (simp_all add: with_name_def)

section \<open>Doubles\<close>

text \<open>
  A double is the rational number it stands for. The rounding of the processor, \<^verbatim>\<open>pow(10.0, n)\<close> and the
  text that \<^verbatim>\<open>_stprintf\<close> makes of a double are parameters; infinities and NaN do not occur.
\<close>

datatype double_format = Fixed0 | Exponent | Fixed6

record floats =
  rounded :: "rat \<Rightarrow> rat"
  pow10 :: "int \<Rightarrow> rat"
  double_text :: "double_format \<Rightarrow> rat \<Rightarrow> wchar list"

text \<open>What holds of every implementation of IEEE doubles: integers up to \<open>2 ^ 53\<close> are exact.\<close>

definition exact_integers :: "floats \<Rightarrow> bool" where
  "exact_integers fl \<longleftrightarrow> (\<forall>n. \<bar>n\<bar> \<le> 2 ^ 53 \<longrightarrow> rounded fl (of_int n) = of_int n) \<and> pow10 fl 0 = 1"

definition DBL_EPSILON :: rat where "DBL_EPSILON = 1 / 2 ^ 52"

text \<open>\<^verbatim>\<open>(int)d\<close>: towards zero; out of range the processor answers \<open>- 2 ^ 31\<close>.\<close>

definition double_to_int :: "rat \<Rightarrow> int" where
  "double_to_int d =
     (let t = (if d < 0 then \<lceil>d\<rceil> else \<lfloor>d\<rfloor>) in if - (2 ^ 31) \<le> t \<and> t < 2 ^ 31 then t else - (2 ^ 31))"

text \<open>\<^verbatim>\<open>n*10.0 + digit\<close>\<close>

definition double_digit :: "floats \<Rightarrow> rat \<Rightarrow> nat \<Rightarrow> rat" where
  "double_digit fl n d = rounded fl (rounded fl (n * 10) + of_nat d)"

text \<open>A machine that rounds nothing; it shows that the laws can hold.\<close>

definition exact_floats :: floats where
  "exact_floats = \<lparr>rounded = (\<lambda>x. x), pow10 = (\<lambda>n. if 0 \<le> n then 10 ^ nat n else 1 / 10 ^ nat (- n)),
     double_text = (\<lambda>_ _. [63])\<rparr>"

lemma exact_floats_ok: "exact_integers exact_floats"
  by (simp add: exact_integers_def exact_floats_def)

lemma rounded_int: "exact_integers fl \<Longrightarrow> \<bar>n\<bar> \<le> 2 ^ 53 \<Longrightarrow> rounded fl (of_int n) = of_int n"
  by (simp add: exact_integers_def)

lemma double_digit_nat:
  assumes "exact_integers fl" and "n * 10 + d \<le> 2 ^ 53"
  shows "double_digit fl (of_nat n) d = of_nat (n * 10 + d)"
proof -
  have "rounded fl (of_int (int (n * 10))) = of_int (int (n * 10))"
    by (rule rounded_int [OF assms(1)]) (use assms(2) in simp)
  then have 1: "rounded fl (of_nat n * 10) = of_nat n * 10" by (simp add: of_nat_mult)
  have "rounded fl (of_int (int (n * 10 + d))) = of_int (int (n * 10 + d))"
    by (rule rounded_int [OF assms(1)]) (use assms(2) in simp)
  then show ?thesis by (simp add: double_digit_def 1)
qed

lemma double_to_int_of_int: "- (2 ^ 31) \<le> n \<Longrightarrow> n < 2 ^ 31 \<Longrightarrow> double_to_int (of_int n) = n"
  by (simp add: double_to_int_def Let_def)

end
