(* ===== verification/JsonParse.thy ===== *)
theory JsonParse
  imports JsonItem
begin

unbundle bit_operations_syntax

text \<open>
  The parser of \<^verbatim>\<open>cJSON_Unicode.cpp\<close>. A pointer into the text is the rest of the memory block that holds
  the text, from the pointer on; reading at the end of the block is a fault. The recursion runs on
  fuel, which the caller takes from the length of the text and which never runs out.
\<close>

section \<open>Characters\<close>

definition peek :: "wchar list \<Rightarrow> wchar res" where
  "peek p = (case p of [] \<Rightarrow> Inl OutOfBounds | c # _ \<Rightarrow> Inr c)"

lemma peek_simps [simp]: "peek [] = Inl OutOfBounds" "peek (c # cs) = Inr c"
  by (simp_all add: peek_def)

fun skip :: "wchar list \<Rightarrow> wchar list res" where
  "skip [] = Inl OutOfBounds"
| "skip (c # cs) = (if c \<noteq> 0 \<and> c \<le> 32 then skip cs else Inr (c # cs))"

text \<open>\<^verbatim>\<open>!_tcsncmp(value, word, n)\<close> for a word of \<open>n\<close> characters.\<close>

fun starts_with :: "wchar list \<Rightarrow> wchar list \<Rightarrow> bool res" where
  "starts_with [] value = Inr True"
| "starts_with (c # cs) [] = Inl OutOfBounds"
| "starts_with (c # cs) (v # vs) = (if c = v then starts_with cs vs else Inr False)"

definition is_digit :: "wchar \<Rightarrow> bool" where
  "is_digit c \<longleftrightarrow> 48 \<le> c \<and> c \<le> 57"

section \<open>Numbers\<close>

fun digit_loop :: "('s \<Rightarrow> nat \<Rightarrow> 's) \<Rightarrow> 's \<Rightarrow> wchar list \<Rightarrow> ('s \<times> wchar list) res" where
  "digit_loop f s [] = Inl OutOfBounds"
| "digit_loop f s (c # cs) = (if is_digit c then digit_loop f (f s (unat c - 48)) cs else Inr (s, c # cs))"

text \<open>The exponent is an \<^verbatim>\<open>int\<close> that wraps.\<close>

definition exponent_digit :: "int \<Rightarrow> nat \<Rightarrow> int" where
  "exponent_digit subscale d = signed_take_bit 31 (subscale * 10 + int d)"

text \<open>The three parts of \<^verbatim>\<open>parse_number\<close> behind the sign.\<close>

definition integer_part :: "floats \<Rightarrow> wchar list \<Rightarrow> (rat \<times> wchar list) res" where
  "integer_part fl num =
     rbind (peek num) (\<lambda>c.
     let num = (if c = 48 then tl num else num) in
     rbind (peek num) (\<lambda>c.
     if 49 \<le> c \<and> c \<le> 57 then digit_loop (double_digit fl) 0 num else Inr (0, num)))"

definition fraction_part :: "floats \<Rightarrow> rat \<Rightarrow> wchar list \<Rightarrow> ((rat \<times> int) \<times> wchar list) res" where
  "fraction_part fl n num =
     rbind (peek num) (\<lambda>c.
     if c = 46 then
       rbind (peek (tl num)) (\<lambda>c1.
       if is_digit c1
       then digit_loop (\<lambda>(n, scale) d. (double_digit fl n d, scale - 1)) (n, 0) (tl num)
       else Inr ((n, 0), num))
     else Inr ((n, 0), num))"

definition exponent_part :: "wchar list \<Rightarrow> (int \<times> wchar list) res" where
  "exponent_part num =
     rbind (peek num) (\<lambda>c.
     if c = 101 \<or> c = 69 then
       rbind (peek (tl num)) (\<lambda>c1.
       let (signsubscale, num) = (if c1 = 43 then (1, tl (tl num))
                                  else if c1 = 45 then (-1, tl (tl num)) else (1, tl num)) in
       rbind (digit_loop exponent_digit 0 num) (\<lambda>(subscale, num). Inr (subscale * signsubscale, num)))
     else Inr (0, num))"

definition parse_number :: "floats \<Rightarrow> wchar list \<Rightarrow> (cjson \<times> wchar list) res" where
  "parse_number fl num =
     rbind (peek num) (\<lambda>c.
     let (sign, num) = (if c = 45 then (-1, tl num) else (1, num)) in
     rbind (integer_part fl num) (\<lambda>(n, num).
     rbind (fraction_part fl n num) (\<lambda>((n, scale), num).
     rbind (exponent_part num) (\<lambda>(power, num).
     let n = rounded fl (rounded fl (sign * n) * pow10 fl (scale + power)) in
     Inr (CJSON cJSON_Number None (double_to_int n) n None [], num)))))"

lemmas number_parts = integer_part_def fraction_part_def exponent_part_def

section \<open>Strings\<close>

definition hex_digit :: "wchar \<Rightarrow> nat option" where
  "hex_digit c =
     (if 48 \<le> c \<and> c \<le> 57 then Some (unat c - 48)
      else if 65 \<le> c \<and> c \<le> 70 then Some (10 + (unat c - 65))
      else if 97 \<le> c \<and> c \<le> 102 then Some (10 + (unat c - 97)) else None)"

text \<open>The four digits; at the first character that is none the result is 0.\<close>

fun hex_digits :: "nat \<Rightarrow> nat \<Rightarrow> wchar list \<Rightarrow> nat res" where
  "hex_digits 0 h str = Inr h"
| "hex_digits (Suc k) h [] = Inl OutOfBounds"
| "hex_digits (Suc k) h (c # cs) =
     (case hex_digit c of None \<Rightarrow> Inr 0 | Some d \<Rightarrow> hex_digits k (h * 16 + d) cs)"

definition parse_hex4 :: "wchar list \<Rightarrow> dword res" where
  "parse_hex4 str = rbind (hex_digits 4 0 str) (\<lambda>h. Inr (of_nat h))"

text \<open>The first pass over a string, which measures it.\<close>

fun string_len :: "wchar list \<Rightarrow> nat res" where
  "string_len [] = Inl OutOfBounds"
| "string_len (c # cs) =
     (if c = 34 \<or> c = 0 then Inr 0
      else rbind (string_len (if c = 92 then tl cs else cs)) (\<lambda>len. Inr (len + 1)))"

text \<open>The UTF-8 bytes of a code point, each in a character of its own.\<close>

definition utf8_bytes :: "dword \<Rightarrow> wchar list" where
  "utf8_bytes uc =
     (let tail = (\<lambda>u :: dword. ucast ((u OR 0x80) AND 0xBF) :: wchar) in
      if uc < 0x80 then [ucast uc]
      else if uc < 0x800 then [ucast (drop_bit 6 uc OR 0xC0), tail uc]
      else if uc < 0x10000 then [ucast (drop_bit 12 uc OR 0xE0), tail (drop_bit 6 uc), tail uc]
      else [ucast (drop_bit 18 uc OR 0xF0), tail (drop_bit 12 uc), tail (drop_bit 6 uc), tail uc])"

text \<open>\<^verbatim>\<open>case 'u'\<close>: \<open>ptr\<close> is at the letter; the result is what is written and how far \<open>ptr\<close> has moved
  at the \<^verbatim>\<open>break\<close>.\<close>

definition hex_escape :: "wchar list \<Rightarrow> (wchar list \<times> nat) res" where
  "hex_escape ptr =
     rbind (parse_hex4 (drop 1 ptr)) (\<lambda>uc.
     if (0xDC00 \<le> uc \<and> uc \<le> 0xDFFF) \<or> uc = 0 then Inr ([], 4)
     else if 0xD800 \<le> uc \<and> uc \<le> 0xDBFF then
       rbind (peek (drop 5 ptr)) (\<lambda>c1.
       if c1 \<noteq> 92 then Inr ([], 4)
       else rbind (peek (drop 6 ptr)) (\<lambda>c2.
       if c2 \<noteq> 117 then Inr ([], 4)
       else rbind (parse_hex4 (drop 7 ptr)) (\<lambda>uc2.
       if uc2 < 0xDC00 \<or> 0xDFFF < uc2 then Inr ([], 10)
       else Inr (utf8_bytes (0x10000 + (push_bit 10 (uc AND 0x3FF) OR (uc2 AND 0x3FF))), 10))))
     else Inr (utf8_bytes uc, 4))"

definition unescaped :: "wchar \<Rightarrow> wchar" where
  "unescaped c =
     (if c = 98 then 8 else if c = 102 then 12 else if c = 110 then 10 else if c = 114 then 13
      else if c = 116 then 9 else c)"

text \<open>The second pass, which copies: the text that is left, the block, and the offset of \<^verbatim>\<open>ptr2\<close>.\<close>

fun string_loop ::
    "wchar list \<Rightarrow> wchar option list \<Rightarrow> nat \<Rightarrow> (wchar list \<times> wchar option list \<times> nat) res" where
  "string_loop [] out i = Inl OutOfBounds"
| "string_loop (c # cs) out i =
     (if c = 34 \<or> c = 0 then Inr (c # cs, out, i)
      else if c \<noteq> 92 then rbind (mem_write out i [Some c]) (\<lambda>out. string_loop cs out (i + 1))
      else
        rbind (peek cs) (\<lambda>e.
        if e = 117 then
          rbind (hex_escape cs) (\<lambda>(new, k).
          rbind (mem_write out i (map Some new)) (\<lambda>out.
            string_loop (drop (k + 1) cs) out (i + length new)))
        else rbind (mem_write out i [Some (unescaped e)]) (\<lambda>out. string_loop (drop 1 cs) out (i + 1))))"

text \<open>The string in a block, up to its first zero.\<close>

fun c_wide :: "wchar option list \<Rightarrow> wchar list res" where
  "c_wide [] = Inl OutOfBounds"
| "c_wide (None # cs) = Inl Uninitialised"
| "c_wide (Some x # cs) = (if x = 0 then Inr [] else rbind (c_wide cs) (\<lambda>s. Inr (x # s)))"

text \<open>The answer of a parser: a null pointer, with what \<^verbatim>\<open>ep\<close> points to, or the result and the rest.\<close>

datatype 'a parsed = Rejected "wchar list option" | Parsed 'a "wchar list"

text \<open>\<open>alloc n\<close> says whether an allocation of \<open>n\<close> bytes succeeds. The new string is \<^verbatim>\<open>item->valuestring\<close>.\<close>

definition parse_string :: "(nat \<Rightarrow> bool) \<Rightarrow> wchar list \<Rightarrow> wchar list parsed res" where
  "parse_string alloc str =
     rbind (peek str) (\<lambda>c.
     if c \<noteq> 34 then Inr (Rejected (Some str))
     else
       rbind (string_len (tl str)) (\<lambda>len.
       if \<not> alloc (2 * (len + 1)) then Inr (Rejected None)
       else
         rbind (string_loop (tl str) (replicate (len + 1) None) 0) (\<lambda>(ptr, out, i).
         rbind (mem_write out i [Some 0]) (\<lambda>out.
         rbind (peek ptr) (\<lambda>c.
         rbind (c_wide out) (\<lambda>s.
           Inr (Parsed s (if c = 34 then tl ptr else ptr))))))))"

section \<open>Values\<close>

text \<open>The bytes of a node: three pointers, an \<^verbatim>\<open>int\<close>, a pointer, an \<^verbatim>\<open>int\<close>, a \<^verbatim>\<open>double\<close>, a pointer, padding.\<close>

definition sizeof_cJSON :: nat where "sizeof_cJSON = 40"

definition text_null :: "wchar list" where "text_null = [110, 117, 108, 108]"
definition text_false :: "wchar list" where "text_false = [102, 97, 108, 115, 101]"
definition text_true :: "wchar list" where "text_true = [116, 114, 117, 101]"

text \<open>\<open>skip(parse(...))\<close>: a null pointer is passed on.\<close>

definition and_skip :: "'a parsed res \<Rightarrow> ('a \<Rightarrow> wchar list \<Rightarrow> 'b parsed res) \<Rightarrow> 'b parsed res" where
  "and_skip m f =
     rbind m (\<lambda>r. case r of Rejected ep \<Rightarrow> Inr (Rejected ep) | Parsed x rest \<Rightarrow> rbind (skip rest) (f x))"

lemma and_skip_cong [fundef_cong]:
  "m = m' \<Longrightarrow> (\<And>x rest p. m' = Inr (Parsed x rest) \<Longrightarrow> skip rest = Inr p \<Longrightarrow> f x p = f' x p) \<Longrightarrow>
     and_skip m f = and_skip m' f'"
  by (auto simp: and_skip_def intro!: rbind_cong split: parsed.splits)

text \<open>
  The recursive calls go through a parameter: \<open>parse\<close> is \<^verbatim>\<open>parse_value\<close> on what is nested in the value.
  \<open>parse_elements\<close> and \<open>parse_members\<close> are the loops of \<^verbatim>\<open>parse_array\<close> and \<^verbatim>\<open>parse_object\<close>, with the children
  so far; \<open>parse_member\<close> is one name and its value, the code that \<^verbatim>\<open>parse_object\<close> has twice. A pass of a
  loop takes at least one character, so the loops get the length of the text as fuel.
\<close>

type_synonym value_parser = "wchar list \<Rightarrow> cjson parsed res"

fun parse_elements :: "(nat \<Rightarrow> bool) \<Rightarrow> value_parser \<Rightarrow> nat \<Rightarrow> cjson list \<Rightarrow> wchar list \<Rightarrow> cjson parsed res" where
  "parse_elements alloc parse 0 its value = Inl Diverges"
| "parse_elements alloc parse (Suc k) its value =
     rbind (peek value) (\<lambda>c.
     if c = 44 then
       if \<not> alloc sizeof_cJSON then Inr (Rejected None)
       else
         rbind (skip (tl value)) (\<lambda>value.
         and_skip (parse value) (\<lambda>it. parse_elements alloc parse k (its @ [it])))
     else if c = 93 then Inr (Parsed (CJSON cJSON_Array None 0 0 None its) (tl value))
     else Inr (Rejected (Some value)))"

definition parse_array :: "(nat \<Rightarrow> bool) \<Rightarrow> value_parser \<Rightarrow> wchar list \<Rightarrow> cjson parsed res" where
  "parse_array alloc parse value =
     rbind (peek value) (\<lambda>c.
     if c \<noteq> 91 then Inr (Rejected (Some value))
     else
       rbind (skip (tl value)) (\<lambda>value.
       rbind (peek value) (\<lambda>c.
       if c = 93 then Inr (Parsed (CJSON cJSON_Array None 0 0 None []) (tl value))
       else if \<not> alloc sizeof_cJSON then Inr (Rejected None)
       else
         rbind (skip value) (\<lambda>value.
         and_skip (parse value) (\<lambda>it rest. parse_elements alloc parse (length value) [it] rest)))))"

definition parse_member :: "(nat \<Rightarrow> bool) \<Rightarrow> value_parser \<Rightarrow> wchar list \<Rightarrow> cjson parsed res" where
  "parse_member alloc parse value =
     and_skip (parse_string alloc value) (\<lambda>name value.
     rbind (peek value) (\<lambda>c.
     if c \<noteq> 58 then Inr (Rejected (Some value))
     else
       rbind (skip (tl value)) (\<lambda>value.
       rbind (parse value) (\<lambda>r. Inr (case r of
           Rejected ep \<Rightarrow> Rejected ep
         | Parsed it rest \<Rightarrow> Parsed (with_name name it) rest)))))"

fun parse_members :: "(nat \<Rightarrow> bool) \<Rightarrow> value_parser \<Rightarrow> nat \<Rightarrow> cjson list \<Rightarrow> wchar list \<Rightarrow> cjson parsed res" where
  "parse_members alloc parse 0 its value = Inl Diverges"
| "parse_members alloc parse (Suc k) its value =
     rbind (peek value) (\<lambda>c.
     if c = 44 then
       if \<not> alloc sizeof_cJSON then Inr (Rejected None)
       else
         rbind (skip (tl value)) (\<lambda>value.
         and_skip (parse_member alloc parse value) (\<lambda>it. parse_members alloc parse k (its @ [it])))
     else if c = 125 then Inr (Parsed (CJSON cJSON_Object None 0 0 None its) (tl value))
     else Inr (Rejected (Some value)))"

definition parse_object :: "(nat \<Rightarrow> bool) \<Rightarrow> value_parser \<Rightarrow> wchar list \<Rightarrow> cjson parsed res" where
  "parse_object alloc parse value =
     rbind (peek value) (\<lambda>c.
     if c \<noteq> 123 then Inr (Rejected (Some value))
     else
       rbind (skip (tl value)) (\<lambda>value.
       rbind (peek value) (\<lambda>c.
       if c = 125 then Inr (Parsed (CJSON cJSON_Object None 0 0 None []) (tl value))
       else if \<not> alloc sizeof_cJSON then Inr (Rejected None)
       else
         rbind (skip value) (\<lambda>value.
         and_skip (parse_member alloc parse value)
           (\<lambda>it rest. parse_members alloc parse (length value) [it] rest)))))"

fun parse_value :: "(nat \<Rightarrow> bool) \<Rightarrow> floats \<Rightarrow> nat \<Rightarrow> wchar list \<Rightarrow> cjson parsed res" where
  "parse_value alloc fl 0 value = Inl Diverges"
| "parse_value alloc fl (Suc k) value =
     rbind (starts_with text_null value) (\<lambda>is_null.
     if is_null then Inr (Parsed (CJSON cJSON_NULL None 0 0 None []) (drop 4 value))
     else rbind (starts_with text_false value) (\<lambda>is_false.
     if is_false then Inr (Parsed (CJSON cJSON_False None 0 0 None []) (drop 5 value))
     else rbind (starts_with text_true value) (\<lambda>is_true.
     if is_true then Inr (Parsed (CJSON cJSON_True None 1 0 None []) (drop 4 value))
     else rbind (peek value) (\<lambda>c.
     if c = 34 then
       rbind (parse_string alloc value) (\<lambda>r. Inr (case r of
           Rejected ep \<Rightarrow> Rejected ep
         | Parsed s rest \<Rightarrow> Parsed (CJSON cJSON_String (Some s) 0 0 None []) rest))
     else if c = 45 \<or> is_digit c then rbind (parse_number fl value) (\<lambda>(it, rest). Inr (Parsed it rest))
     else if c = 91 then parse_array alloc (parse_value alloc fl k) value
     else if c = 123 then parse_object alloc (parse_value alloc fl k) value
     else Inr (Rejected (Some value))))))"

text \<open>A value nests no deeper than its text is long.\<close>

definition enough_fuel :: "wchar list \<Rightarrow> nat" where
  "enough_fuel text = Suc (length text)"

text \<open>The item or the null pointer, the error pointer and the end that is returned.\<close>

definition cJSON_ParseWithOpts ::
    "(nat \<Rightarrow> bool) \<Rightarrow> floats \<Rightarrow> wchar list \<Rightarrow> bool
      \<Rightarrow> (cjson option \<times> wchar list option \<times> wchar list option) res" where
  "cJSON_ParseWithOpts alloc fl value require_null_terminated =
     (if \<not> alloc sizeof_cJSON then Inr (None, None, None)
      else
        rbind (skip value) (\<lambda>start.
        rbind (parse_value alloc fl (enough_fuel value) start) (\<lambda>r.
        case r of
          Rejected ep \<Rightarrow> Inr (None, ep, None)
        | Parsed c rest \<Rightarrow>
            if require_null_terminated then
              rbind (skip rest) (\<lambda>rest.
              rbind (peek rest) (\<lambda>x.
              if x \<noteq> 0 then Inr (None, Some rest, None) else Inr (Some c, None, Some rest)))
            else Inr (Some c, None, Some rest))))"

definition cJSON_Parse :: "(nat \<Rightarrow> bool) \<Rightarrow> floats \<Rightarrow> wchar list \<Rightarrow> cjson option res" where
  "cJSON_Parse alloc fl value = rbind (cJSON_ParseWithOpts alloc fl value False) (\<lambda>(c, _). Inr c)"

end
