(* ===== verification/JsonPrint.thy ===== *)
theory JsonPrint
  imports JsonParse
begin

text \<open>
  The printer of \<^verbatim>\<open>cJSON_Unicode.cpp\<close> in its two forms: with a block of its own for every value, and into
  one growing \<^verbatim>\<open>printbuffer\<close>. Writing outside a block is a fault. Sizes are mathematical integers: no text
  of a 32-bit process has \<open>2 ^ 31\<close> characters of two bytes.
\<close>

section \<open>The text of numbers and strings\<close>

text \<open>A printing function asks for a number of characters and writes a text of its own; both are given here.\<close>

fun digits_of :: "nat \<Rightarrow> wchar list" where
  "digits_of n = (if n < 10 then [48 + of_nat n] else digits_of (n div 10) @ [48 + of_nat (n mod 10)])"

declare digits_of.simps [simp del]

text \<open>\<^verbatim>\<open>_stprintf(str, "%d", n)\<close>\<close>

definition decimal :: "int \<Rightarrow> wchar list" where
  "decimal n = (if n < 0 then 45 # digits_of (nat (- n)) else digits_of (nat n))"

definition INT_MAX :: rat where "INT_MAX = 2147483647"
definition INT_MIN :: rat where "INT_MIN = - 2147483648"

definition print_number :: "floats \<Rightarrow> cjson \<Rightarrow> nat \<times> wchar list" where
  "print_number fl item =
     (let d = valuedouble item in
      if d = 0 then (2, [48, 0])
      else if \<bar>rounded fl (of_int (valueint item) - d)\<bar> \<le> DBL_EPSILON \<and> d \<le> INT_MAX \<and> INT_MIN \<le> d
      then (21, decimal (valueint item) @ [0])
      else (64, double_text fl
        (if \<bar>rounded fl (of_int \<lfloor>d\<rfloor> - d)\<bar> \<le> DBL_EPSILON \<and> \<bar>d\<bar> < 10 ^ 60 then Fixed0
         else if \<bar>d\<bar> < 1 / 10 ^ 6 \<or> 10 ^ 9 < \<bar>d\<bar> then Exponent else Fixed6) d @ [0]))"

text \<open>\<^verbatim>\<open>_tcschr("\"\\\b\f\n\r\t", token)\<close>\<close>

definition two_char :: "wchar \<Rightarrow> bool" where
  "two_char c \<longleftrightarrow> c \<in> {34, 92, 8, 12, 10, 13, 9}"

fun escaped_len :: "wchar list \<Rightarrow> nat" where
  "escaped_len [] = 0"
| "escaped_len (c # cs) = 1 + (if two_char c then 1 else if c < 32 then 5 else 0) + escaped_len cs"

definition hex_char :: "nat \<Rightarrow> wchar" where
  "hex_char d = (if d < 10 then 48 + of_nat d else 87 + of_nat d)"

text \<open>\<^verbatim>\<open>_stprintf(ptr2, "u%04x", token)\<close>; the zero it ends with is overwritten by what follows.\<close>

definition u_escape :: "wchar \<Rightarrow> wchar list" where
  "u_escape token =
     (let n = unat token in
      [117, hex_char (n div 4096 mod 16), hex_char (n div 256 mod 16), hex_char (n div 16 mod 16), hex_char (n mod 16)])"

definition escape_char :: "wchar \<Rightarrow> wchar list" where
  "escape_char c =
     (if 31 < c \<and> c \<noteq> 34 \<and> c \<noteq> 92 then [c]
      else 92 # (if c = 92 then [92] else if c = 34 then [34] else if c = 8 then [98]
                 else if c = 12 then [102] else if c = 10 then [110] else if c = 13 then [114]
                 else if c = 9 then [116] else u_escape c))"

definition needs_escape :: "wchar \<Rightarrow> bool" where
  "needs_escape c \<longleftrightarrow> (0 < c \<and> c < 32) \<or> c = 34 \<or> c = 92"

text \<open>The scan for characters to escape reads through \<open>str\<close> before the test for a null pointer.\<close>

definition print_string_ptr :: "wchar list option \<Rightarrow> (nat \<times> wchar list) res" where
  "print_string_ptr str =
     (case str of
        None \<Rightarrow> Inl NullPointer
      | Some s \<Rightarrow>
          if \<not> (\<exists>c \<in> set s. needs_escape c) then Inr (length s + 3, 34 # s @ [34, 0])
          else Inr (escaped_len s + 3, 34 # concat (map escape_char s) @ [34, 0]))"

definition print_string :: "cjson \<Rightarrow> (nat \<times> wchar list) res" where
  "print_string item = print_string_ptr (valuestring item)"

section \<open>Blocks of their own\<close>

text \<open>A block for the characters asked for, the text in it, and the string it then holds; \<^term>\<open>None\<close> if there is no memory.\<close>

definition print_block :: "(nat \<Rightarrow> bool) \<Rightarrow> nat \<times> wchar list \<Rightarrow> wchar list option res" where
  "print_block alloc img =
     (case img of (needed, txt) \<Rightarrow>
        if \<not> alloc (2 * needed) then Inr None
        else
          rbind (mem_write (replicate needed None) 0 (map Some txt)) (\<lambda>blk.
          rbind (c_wide blk) (\<lambda>s. Inr (Some s))))"

definition cJSON_strdup :: "(nat \<Rightarrow> bool) \<Rightarrow> wchar list \<Rightarrow> wchar list option res" where
  "cJSON_strdup alloc s = print_block alloc (length s + 1, s @ [0])"

fun joined :: "bool \<Rightarrow> wchar list list \<Rightarrow> wchar list" where
  "joined fmt [] = []"
| "joined fmt [e] = e"
| "joined fmt (e # es) = e @ [44] @ (if fmt then [32] else []) @ joined fmt es"

text \<open>The part of \<^verbatim>\<open>print_array\<close> after its loop; \<^term>\<open>None\<close> is \<open>fail\<close>.\<close>

definition compose_array :: "(nat \<Rightarrow> bool) \<Rightarrow> bool \<Rightarrow> wchar list list option \<Rightarrow> wchar list option res" where
  "compose_array alloc fmt entries =
     (case entries of
        None \<Rightarrow> Inr None
      | Some es \<Rightarrow>
          print_block alloc (5 + (\<Sum>e\<leftarrow>es. length e + 2 + (if fmt then 1 else 0)), 91 # joined fmt es @ [93, 0]))"

fun members :: "bool \<Rightarrow> nat \<Rightarrow> (wchar list \<times> wchar list) list \<Rightarrow> wchar list" where
  "members fmt depth [] = []"
| "members fmt depth ((name, entry) # ms) =
     (if fmt then replicate depth 9 else []) @ name @ [58] @ (if fmt then [9] else []) @ entry
     @ (if ms \<noteq> [] then [44] else []) @ (if fmt then [10] else []) @ members fmt depth ms"

text \<open>The part of \<^verbatim>\<open>print_object\<close> after its loop; \<open>depth\<close> is already increased.\<close>

definition compose_object ::
    "(nat \<Rightarrow> bool) \<Rightarrow> bool \<Rightarrow> nat \<Rightarrow> (wchar list \<times> wchar list) list option \<Rightarrow> wchar list option res" where
  "compose_object alloc fmt depth entries =
     (case entries of
        None \<Rightarrow> Inr None
      | Some ms \<Rightarrow>
          print_block alloc
            (7 + (if fmt then depth else 0)
               + (\<Sum>(name, e)\<leftarrow>ms. length e + length name + 2 + (if fmt then 2 + depth else 0)),
             123 # (if fmt then [10] else []) @ members fmt depth ms
               @ (if fmt then replicate (depth - 1) 9 else []) @ [125, 0]))"

definition print_empty_object :: "bool \<Rightarrow> nat \<Rightarrow> nat \<times> wchar list" where
  "print_empty_object fmt depth =
     (if fmt then depth + 4 else 3, 123 # (if fmt then 10 # replicate (depth - 1) 9 else []) @ [125, 0])"

text \<open>
  \<open>print_entries\<close> is the loop of \<^verbatim>\<open>print_array\<close>, which stops at the first failure, \<open>print_pairs\<close> that of
  \<^verbatim>\<open>print_object\<close>, which does not. Any other type prints nothing.
\<close>

fun print_value :: "(nat \<Rightarrow> bool) \<Rightarrow> floats \<Rightarrow> bool \<Rightarrow> nat \<Rightarrow> cjson \<Rightarrow> wchar list option res"
  and print_entries :: "(nat \<Rightarrow> bool) \<Rightarrow> floats \<Rightarrow> bool \<Rightarrow> nat \<Rightarrow> cjson list \<Rightarrow> wchar list list option res"
  and print_pairs ::
    "(nat \<Rightarrow> bool) \<Rightarrow> floats \<Rightarrow> bool \<Rightarrow> nat \<Rightarrow> cjson list \<Rightarrow> (wchar list \<times> wchar list) list option res" where
  "print_value alloc fl fmt depth (CJSON ty vs vi vd nm cs) =
     (let item = CJSON ty vs vi vd nm cs; kind = ty AND 255 in
      if kind = cJSON_NULL then cJSON_strdup alloc text_null
      else if kind = cJSON_False then cJSON_strdup alloc text_false
      else if kind = cJSON_True then cJSON_strdup alloc text_true
      else if kind = cJSON_Number then print_block alloc (print_number fl item)
      else if kind = cJSON_String then rbind (print_string item) (print_block alloc)
      else if kind = cJSON_Array then
        (if cs = [] then print_block alloc (3, [91, 93, 0])
         else if \<not> alloc (4 * length cs) then Inr None
         else rbind (print_entries alloc fl fmt (depth + 1) cs) (compose_array alloc fmt))
      else if kind = cJSON_Object then
        (if cs = [] then print_block alloc (print_empty_object fmt depth)
         else if \<not> alloc (4 * length cs) then Inr None
         else rbind (print_pairs alloc fl fmt (depth + 1) cs) (compose_object alloc fmt (depth + 1)))
      else Inr None)"
| "print_entries alloc fl fmt depth [] = Inr (Some [])"
| "print_entries alloc fl fmt depth (c # cs) =
     rbind (print_value alloc fl fmt depth c) (\<lambda>ret.
     case ret of
       None \<Rightarrow> Inr None
     | Some e \<Rightarrow> rbind (print_entries alloc fl fmt depth cs) (\<lambda>es. Inr (map_option ((#) e) es)))"
| "print_pairs alloc fl fmt depth [] = Inr (Some [])"
| "print_pairs alloc fl fmt depth (c # cs) =
     rbind (rbind (print_string_ptr (jstring c)) (print_block alloc)) (\<lambda>str.
     rbind (print_value alloc fl fmt depth c) (\<lambda>ret.
     rbind (print_pairs alloc fl fmt depth cs) (\<lambda>ms.
       Inr (case (str, ret, ms) of (Some s, Some e, Some l) \<Rightarrow> Some ((s, e) # l) | _ \<Rightarrow> None))))"

definition cJSON_Print :: "(nat \<Rightarrow> bool) \<Rightarrow> floats \<Rightarrow> cjson \<Rightarrow> wchar list option res" where
  "cJSON_Print alloc fl item = print_value alloc fl True 0 item"

definition cJSON_PrintUnformatted :: "(nat \<Rightarrow> bool) \<Rightarrow> floats \<Rightarrow> cjson \<Rightarrow> wchar list option res" where
  "cJSON_PrintUnformatted alloc fl item = print_value alloc fl False 0 item"

section \<open>The print buffer\<close>

text \<open>\<open>length\<close> and \<open>offset\<close> of the source are \<open>plength\<close> and \<open>poffset\<close>.\<close>

record printbuffer =
  buffer :: "wchar option list option"
  plength :: nat
  poffset :: nat

text \<open>Arithmetic of \<^verbatim>\<open>int\<close>, whose last addition wraps.\<close>

definition pow2gt :: "int \<Rightarrow> int" where
  "pow2gt x =
     (let x = x - 1; x = x OR drop_bit 1 x; x = x OR drop_bit 2 x; x = x OR drop_bit 4 x;
          x = x OR drop_bit 8 x; x = x OR drop_bit 16 x in signed_take_bit 31 (x + 1))"

text \<open>The answer is whether there is room at the offset; the pointer itself is always that offset.\<close>

definition ensure :: "(nat \<Rightarrow> bool) \<Rightarrow> printbuffer \<Rightarrow> nat \<Rightarrow> (bool \<times> printbuffer) res" where
  "ensure alloc p needed =
     (case buffer p of
        None \<Rightarrow> Inr (False, p)
      | Some blk \<Rightarrow>
          let needed = needed + poffset p in
          if needed \<le> plength p then Inr (True, p)
          else
            let newsize = nat (pow2gt (int needed)) in
            if \<not> alloc (2 * newsize) then Inr (False, p\<lparr>buffer := None, plength := 0\<rparr>)
            else
              rbind (mem_read blk 0 (plength p)) (\<lambda>old.
              rbind (mem_write (replicate newsize None) 0 old) (\<lambda>new.
                Inr (True, p\<lparr>buffer := Some new, plength := newsize\<rparr>))))"

text \<open>Writing at the offset.\<close>

definition put_text :: "wchar list \<Rightarrow> printbuffer \<Rightarrow> printbuffer res" where
  "put_text text p =
     (case buffer p of
        None \<Rightarrow> Inl NullPointer
      | Some blk \<Rightarrow> rbind (mem_write blk (poffset p) (map Some text)) (\<lambda>blk. Inr (p\<lparr>buffer := Some blk\<rparr>)))"

text \<open>\<^verbatim>\<open>update\<close> is the offset behind the string that starts at the offset; without a buffer it is 0.\<close>

definition update :: "printbuffer \<Rightarrow> nat res" where
  "update p =
     (case buffer p of
        None \<Rightarrow> Inr 0
      | Some blk \<Rightarrow> rbind (c_wide (drop (poffset p) blk)) (\<lambda>s. Inr (poffset p + length s)))"

definition advance :: "nat \<Rightarrow> printbuffer \<Rightarrow> printbuffer" where
  "advance n p = p\<lparr>poffset := poffset p + n\<rparr>"

definition set_offset :: "printbuffer \<Rightarrow> printbuffer res" where
  "set_offset p = rbind (update p) (\<lambda>n. Inr (p\<lparr>poffset := n\<rparr>))"

text \<open>\<^verbatim>\<open>out=ensure(p,size); if (out)\<close> write the text.\<close>

definition print_at :: "(nat \<Rightarrow> bool) \<Rightarrow> nat \<times> wchar list \<Rightarrow> printbuffer \<Rightarrow> (bool \<times> printbuffer) res" where
  "print_at alloc img p =
     rbind (ensure alloc p (fst img)) (\<lambda>(ok, p).
     if ok then rbind (put_text (snd img) p) (\<lambda>p. Inr (True, p)) else Inr (False, p))"

text \<open>\<^verbatim>\<open>ptr=ensure(p,size); if (!ptr) return 0;\<close> write the text, move the offset by \<open>n\<close>, and go on.\<close>

definition and_print ::
    "(nat \<Rightarrow> bool) \<Rightarrow> nat \<times> wchar list \<Rightarrow> nat \<Rightarrow> printbuffer
      \<Rightarrow> (printbuffer \<Rightarrow> (bool \<times> printbuffer) res) \<Rightarrow> (bool \<times> printbuffer) res" where
  "and_print alloc img n p f =
     rbind (print_at alloc img p) (\<lambda>(ok, p). if ok then f (advance n p) else Inr (False, p))"

lemma and_print_cong [fundef_cong]:
  "img = img' \<Longrightarrow> n = n' \<Longrightarrow> p = p' \<Longrightarrow> (\<And>q. f q = f' q) \<Longrightarrow>
     and_print alloc img n p f = and_print alloc img' n' p' f'"
  by (subgoal_tac "f = f'") auto

fun print_value_buf :: "(nat \<Rightarrow> bool) \<Rightarrow> floats \<Rightarrow> bool \<Rightarrow> nat \<Rightarrow> cjson \<Rightarrow> printbuffer \<Rightarrow> (bool \<times> printbuffer) res"
  and print_elements_buf ::
    "(nat \<Rightarrow> bool) \<Rightarrow> floats \<Rightarrow> bool \<Rightarrow> nat \<Rightarrow> cjson list \<Rightarrow> printbuffer \<Rightarrow> (bool \<times> printbuffer) res"
  and print_members_buf ::
    "(nat \<Rightarrow> bool) \<Rightarrow> floats \<Rightarrow> bool \<Rightarrow> nat \<Rightarrow> cjson list \<Rightarrow> printbuffer \<Rightarrow> (bool \<times> printbuffer) res" where
  "print_value_buf alloc fl fmt depth (CJSON ty vs vi vd nm cs) p =
     (let item = CJSON ty vs vi vd nm cs; kind = ty AND 255 in
      if kind = cJSON_NULL then print_at alloc (5, text_null @ [0]) p
      else if kind = cJSON_False then print_at alloc (6, text_false @ [0]) p
      else if kind = cJSON_True then print_at alloc (5, text_true @ [0]) p
      else if kind = cJSON_Number then print_at alloc (print_number fl item) p
      else if kind = cJSON_String then rbind (print_string item) (\<lambda>img. print_at alloc img p)
      else if kind = cJSON_Array then
        (if cs = [] then print_at alloc (3, [91, 93, 0]) p
         else and_print alloc (1, [91]) 1 p (print_elements_buf alloc fl fmt (depth + 1) cs))
      else if kind = cJSON_Object then
        (if cs = [] then print_at alloc (print_empty_object fmt depth) p
         else and_print alloc (if fmt then (3, [123, 10, 0]) else (2, [123, 0])) (if fmt then 2 else 1) p
                (print_members_buf alloc fl fmt (depth + 1) cs))
      else Inr (False, p))"
| "print_elements_buf alloc fl fmt depth [] p = print_at alloc (2, [93, 0]) p"
| "print_elements_buf alloc fl fmt depth (c # cs) p =
     rbind (print_value_buf alloc fl fmt depth c p) (\<lambda>(_, p).
     rbind (set_offset p) (\<lambda>p.
     if cs \<noteq> [] then
       and_print alloc (if fmt then (3, [44, 32, 0]) else (2, [44, 0])) (if fmt then 2 else 1) p
         (print_elements_buf alloc fl fmt depth cs)
     else print_elements_buf alloc fl fmt depth cs p))"
| "print_members_buf alloc fl fmt depth [] p =
     print_at alloc (if fmt then (depth + 1, replicate (depth - 1) 9 @ [125, 0]) else (2, [125, 0])) p"
| "print_members_buf alloc fl fmt depth (c # cs) p =
     (let member = (\<lambda>p.
        rbind (print_string_ptr (jstring c)) (\<lambda>img.
        rbind (print_at alloc img p) (\<lambda>(_, p).
        rbind (set_offset p) (\<lambda>p.
        and_print alloc (if fmt then (2, [58, 9]) else (1, [58])) (if fmt then 2 else 1) p (\<lambda>p.
        rbind (print_value_buf alloc fl fmt depth c p) (\<lambda>(_, p).
        rbind (set_offset p) (\<lambda>p.
        let len = (if fmt then 1 else 0) + (if cs \<noteq> [] then 1 else 0) in
        and_print alloc (len + 1, (if cs \<noteq> [] then [44] else []) @ (if fmt then [10] else []) @ [0]) len p
          (print_members_buf alloc fl fmt depth cs))))))))
      in if fmt then and_print alloc (depth, replicate depth 9) depth p member else member p)"

definition cJSON_PrintBuffered ::
    "(nat \<Rightarrow> bool) \<Rightarrow> floats \<Rightarrow> cjson \<Rightarrow> nat \<Rightarrow> bool \<Rightarrow> wchar list option res" where
  "cJSON_PrintBuffered alloc fl item prebuffer fmt =
     (let p = \<lparr>buffer = (if alloc (2 * prebuffer) then Some (replicate prebuffer None) else None),
               plength = prebuffer, poffset = 0\<rparr> in
      rbind (print_value_buf alloc fl fmt 0 item p) (\<lambda>(ok, p).
      case (ok, buffer p) of
        (True, Some blk) \<Rightarrow> rbind (c_wide blk) (\<lambda>s. Inr (Some s))
      | _ \<Rightarrow> Inr None))"

end
