(* ===== verification/JsonText.thy ===== *)
theory JsonText
  imports JsonPrint
begin

text \<open>
  What the printer is meant to print, as a function from items to texts, and the proofs that both forms of
  the printer do that without leaving their blocks.
\<close>

section \<open>The text of an item\<close>

definition string_text :: "wchar list \<Rightarrow> wchar list" where
  "string_text s = 34 # concat (map escape_char s) @ [34]"

fun json_text :: "floats \<Rightarrow> bool \<Rightarrow> nat \<Rightarrow> cjson \<Rightarrow> wchar list" where
  "json_text fl fmt depth (CJSON ty vs vi vd nm cs) =
     (let kind = ty AND 255 in
      if kind = cJSON_NULL then text_null
      else if kind = cJSON_False then text_false
      else if kind = cJSON_True then text_true
      else if kind = cJSON_Number then butlast (snd (print_number fl (CJSON ty vs vi vd nm cs)))
      else if kind = cJSON_String then string_text (the vs)
      else if kind = cJSON_Array then 91 # joined fmt (map (json_text fl fmt (depth + 1)) cs) @ [93]
      else if cs = [] then 123 # (if fmt then 10 # replicate (depth - 1) 9 else []) @ [125]
      else 123 # (if fmt then [10] else [])
        @ members fmt (depth + 1)
            (map (\<lambda>c. (string_text (the (jstring c)), json_text fl fmt (depth + 1) c)) cs)
        @ (if fmt then replicate depth 9 else []) @ [125])"

text \<open>Items whose strings and names are there and whose numbers have a text that fits.\<close>

definition number_ok :: "floats \<Rightarrow> cjson \<Rightarrow> bool" where
  "number_ok fl it \<longleftrightarrow>
     (case print_number fl it of (needed, txt) \<Rightarrow> length txt \<le> needed \<and> needed \<le> 64 \<and> 0 \<notin> set (butlast txt))"

fun string_ok :: "wchar list option \<Rightarrow> bool" where
  "string_ok None = False"
| "string_ok (Some s) = (0 \<notin> set s)"

lemma string_okD: "string_ok x \<Longrightarrow> \<exists>s. x = Some s \<and> 0 \<notin> set s"
  by (cases x) auto

fun printable :: "floats \<Rightarrow> cjson \<Rightarrow> bool" where
  "printable fl (CJSON ty vs vi vd nm cs) \<longleftrightarrow>
     (let kind = ty AND 255 in
      kind \<in> {0..6}
      \<and> (kind = cJSON_Number \<longrightarrow> number_ok fl (CJSON ty vs vi vd nm cs))
      \<and> (kind = cJSON_String \<longrightarrow> string_ok vs)
      \<and> (kind = cJSON_Array \<longrightarrow> (\<forall>c \<in> set cs. printable fl c))
      \<and> (kind = cJSON_Object \<longrightarrow> (\<forall>c \<in> set cs. printable fl c \<and> string_ok (jstring c))))"

section \<open>No zero inside\<close>

lemma digits_of_range: "x \<in> set (digits_of n) \<Longrightarrow> is_digit x"
proof (induction n rule: digits_of.induct)
  case (1 n)
  have digit: "is_digit (48 + of_nat d :: wchar)" if "d < 10" for d
  proof -
    have "unat (48 + of_nat d :: wchar) = 48 + d"
      using that by (simp add: unat_word_ariths unsigned_of_nat take_bit_nat_eq_self)
    then show ?thesis using that by (simp add: is_digit_def word_le_nat_alt)
  qed
  show ?case
    using 1 digit by (subst (asm) (2) digits_of.simps) (auto split: if_splits)
qed

lemma not_is_digit_0 [simp]: "\<not> is_digit 0"
  by (simp add: is_digit_def)

lemma decimal_nonzero: "0 \<notin> set (decimal n)"
  by (auto simp: decimal_def dest: digits_of_range)

lemma hex_char_nonzero: "d < 16 \<Longrightarrow> hex_char d \<noteq> 0"
proof -
  assume "d < 16"
  then have "unat (hex_char d) \<noteq> 0"
    by (simp add: hex_char_def unat_word_ariths unsigned_of_nat take_bit_nat_eq_self)
  then show ?thesis by auto
qed

lemma hex_char_mod_nonzero [simp]: "hex_char (n mod 16) \<noteq> 0"
  by (simp add: hex_char_nonzero)

lemma escape_char_nonzero: "c \<noteq> 0 \<Longrightarrow> 0 \<notin> set (escape_char c)"
  using hex_char_mod_nonzero by (auto simp: escape_char_def u_escape_def Let_def dest!: sym [of 0 "hex_char _"])

lemma string_text_nonzero: "0 \<notin> set s \<Longrightarrow> 0 \<notin> set (string_text s)"
  by (auto simp: string_text_def) (metis escape_char_nonzero)

lemma joined_set: "set (joined fmt es) \<subseteq> {44, 32} \<union> (\<Union>e \<in> set es. set e)"
  by (induction fmt es rule: joined.induct) auto

lemma members_set:
  "set (members fmt depth ms) \<subseteq> {9, 58, 44, 10} \<union> (\<Union>(n, e) \<in> set ms. set n \<union> set e)"
  by (induction fmt depth ms rule: members.induct) auto

lemma kind_cases:
  "k \<in> {0..6::int} \<Longrightarrow> k = cJSON_NULL \<or> k = cJSON_False \<or> k = cJSON_True \<or> k = cJSON_Number
     \<or> k = cJSON_String \<or> k = cJSON_Array \<or> k = cJSON_Object"
  by (auto simp: cJSON_types)

lemma json_text_nonzero: "printable fl it \<Longrightarrow> 0 \<notin> set (json_text fl fmt depth it)"
proof (induction it arbitrary: depth)
  case (CJSON ty vs vi vd nm cs)
  have kind: "ty AND 255 \<in> {0..6}" using CJSON.prems by (simp add: Let_def)
  have kids: "0 \<notin> set (json_text fl fmt (depth + 1) c)"
    if "c \<in> set cs" "ty AND 255 = cJSON_Array \<or> ty AND 255 = cJSON_Object" for c
    using CJSON.IH [OF that(1)] CJSON.prems that by (auto simp: Let_def cJSON_types)
  have names: "0 \<notin> set (string_text (the (jstring c)))"
    if "c \<in> set cs" "ty AND 255 = cJSON_Object" for c
    using CJSON.prems that by (auto simp: Let_def cJSON_types intro!: string_text_nonzero dest!: bspec string_okD)
  have "0 \<notin> set (joined fmt (map (json_text fl fmt (depth + 1)) cs))" if "ty AND 255 = cJSON_Array"
    using joined_set [of fmt "map (json_text fl fmt (depth + 1)) cs"] kids that by fastforce
  moreover have "0 \<notin> set (members fmt (depth + 1)
      (map (\<lambda>c. (string_text (the (jstring c)), json_text fl fmt (depth + 1) c)) cs))"
    if "ty AND 255 = cJSON_Object"
    using members_set [of fmt "depth + 1"
        "map (\<lambda>c. (string_text (the (jstring c)), json_text fl fmt (depth + 1) c)) cs"] kids names that
    by fastforce
  ultimately show ?case
    using kind_cases [OF kind] CJSON.prems
    by (auto simp: Let_def text_null_def text_false_def text_true_def number_ok_def cJSON_types
        split: prod.splits dest!: string_okD dest: string_text_nonzero)
qed

section \<open>Blocks of their own\<close>

lemma c_wide_text: "0 \<notin> set t \<Longrightarrow> c_wide (map Some (t @ [0]) @ rest) = Inr t"
  by (induction t) auto

lemma print_block_fits:
  assumes "\<forall>n. alloc n" and "length t < needed" and "0 \<notin> set t"
  shows "print_block alloc (needed, t @ [0]) = Inr (Some t)"
proof -
  have "mem_write (replicate needed None) 0 (map Some (t @ [0]))
      = Inr (map Some (t @ [0]) @ replicate (needed - length (t @ [0])) None)"
    using assms(2) by (simp add: mem_write_def)
  then show ?thesis
    using assms(1) c_wide_text [OF assms(3)] by (simp add: print_block_def)
qed

lemma strdup_ok: "\<forall>n. alloc n \<Longrightarrow> 0 \<notin> set s \<Longrightarrow> cJSON_strdup alloc s = Inr (Some s)"
  unfolding cJSON_strdup_def by (rule print_block_fits) simp_all

lemma escape_char_length:
  "length (escape_char c) = 1 + (if two_char c then 1 else if c < 32 then 5 else 0)"
proof -
  have "\<not> 31 < c \<longleftrightarrow> c < 32" using word_le_nat_alt [of c 31] word_less_nat_alt [of c 32]
    by (auto simp: not_less)
  then show ?thesis by (auto simp: escape_char_def two_char_def u_escape_def Let_def)
qed

lemma escaped_length: "length (concat (map escape_char s)) = escaped_len s"
  by (induction s) (simp_all add: escape_char_length)

lemma plain_text: "0 \<notin> set s \<Longrightarrow> \<not> (\<exists>c \<in> set s. needs_escape c) \<Longrightarrow> concat (map escape_char s) = s"
proof (induction s)
  case (Cons c s)
  then have "c \<noteq> 34" "c \<noteq> 92" "\<not> c < 32" "c \<noteq> 0" by (auto simp: needs_escape_def word_neq_0_conv)
  moreover have "31 < c \<longleftrightarrow> \<not> c < 32" using word_le_nat_alt [of c 31] word_less_nat_alt [of c 32]
    by (auto simp: not_less)
  ultimately show ?case using Cons by (simp add: escape_char_def)
qed simp

lemma print_string_ptr_ok:
  assumes "0 \<notin> set s"
  shows "print_string_ptr (Some s) = Inr (length (string_text s) + 1, string_text s @ [0])"
proof -
  have "escaped_len s = length s" if "\<not> (\<exists>c \<in> set s. needs_escape c)"
    using plain_text [OF assms that] escaped_length [of s] by simp
  then show ?thesis
    using plain_text [OF assms] by (auto simp: print_string_ptr_def string_text_def escaped_length)
qed

lemma joined_length: "length (joined fmt es) \<le> (\<Sum>e\<leftarrow>es. length e + 2 + (if fmt then 1 else 0))"
  by (induction fmt es rule: joined.induct) (auto split: if_splits)

lemma members_length:
  "length (members fmt depth ms)
     \<le> (\<Sum>(name, e)\<leftarrow>ms. length e + length name + 2 + (if fmt then 2 + depth else 0))"
  by (induction fmt depth ms rule: members.induct) auto

lemma compose_array_ok:
  assumes "\<forall>n. alloc n" and "\<forall>e \<in> set es. 0 \<notin> set e"
  shows "compose_array alloc fmt (Some es) = Inr (Some (91 # joined fmt es @ [93]))" (is "_ = Inr (Some ?t)")
proof -
  have "0 \<notin> set (joined fmt es)" using joined_set [of fmt es] assms(2) by auto
  then have "0 \<notin> set ?t" by simp
  moreover have "length ?t < 5 + (\<Sum>e\<leftarrow>es. length e + 2 + (if fmt then 1 else 0))"
    using joined_length [of fmt es] by (simp del: sum_list_addf)
  ultimately have "print_block alloc (5 + (\<Sum>e\<leftarrow>es. length e + 2 + (if fmt then 1 else 0)), ?t @ [0]) = Inr (Some ?t)"
    by (intro print_block_fits [OF assms(1)])
  then show ?thesis by (simp only: compose_array_def option.case append_Cons append_assoc append_Nil)
qed

lemma compose_object_ok:
  assumes "\<forall>n. alloc n" and "\<forall>(n, e) \<in> set ms. 0 \<notin> set n \<and> 0 \<notin> set e"
  shows "compose_object alloc fmt (depth + 1) (Some ms)
    = Inr (Some (123 # (if fmt then [10] else []) @ members fmt (depth + 1) ms
        @ (if fmt then replicate depth 9 else []) @ [125]))" (is "_ = Inr (Some ?t)")
proof -
  have "0 \<notin> set (members fmt (depth + 1) ms)" using members_set [of fmt "depth + 1" ms] assms(2) by auto
  then have "0 \<notin> set ?t" by simp
  moreover have "length ?t < 7 + (if fmt then depth + 1 else 0)
      + (\<Sum>(name, e)\<leftarrow>ms. length e + length name + 2 + (if fmt then 2 + (depth + 1) else 0))"
    using members_length [of fmt "depth + 1" ms] by (cases fmt) simp_all
  ultimately have "print_block alloc (7 + (if fmt then depth + 1 else 0)
      + (\<Sum>(name, e)\<leftarrow>ms. length e + length name + 2 + (if fmt then 2 + (depth + 1) else 0)), ?t @ [0]) = Inr (Some ?t)"
    by (intro print_block_fits [OF assms(1)])
  then show ?thesis
    by (simp only: compose_object_def option.case append_Cons append_assoc append_Nil diff_add_inverse2)
qed

lemma print_entries_ok:
  assumes "\<forall>c \<in> set cs. print_value alloc fl fmt depth c = Inr (Some (f c))"
  shows "print_entries alloc fl fmt depth cs = Inr (Some (map f cs))"
  using assms by (induction cs) simp_all

lemma print_pairs_ok:
  assumes "\<forall>n. alloc n" and "\<forall>c \<in> set cs. print_value alloc fl fmt depth c = Inr (Some (f c)) \<and> string_ok (jstring c)"
  shows "print_pairs alloc fl fmt depth cs = Inr (Some (map (\<lambda>c. (string_text (the (jstring c)), f c)) cs))"
  using assms(2)
proof (induction cs)
  case (Cons c cs)
  from Cons.prems obtain s where s: "jstring c = Some s" "0 \<notin> set s" by (auto dest: string_okD)
  have "rbind (print_string_ptr (jstring c)) (print_block alloc) = Inr (Some (string_text s))"
    using print_string_ptr_ok [OF s(2)] print_block_fits [OF assms(1) _ string_text_nonzero [OF s(2)]] s(1)
    by simp
  with Cons s(1) show ?case by simp
qed simp

text \<open>The first form of the printer.\<close>

lemma print_value_ok:
  assumes "\<forall>n. alloc n"
  shows "printable fl it \<Longrightarrow> print_value alloc fl fmt depth it = Inr (Some (json_text fl fmt depth it))"
proof (induction it arbitrary: depth)
  case (CJSON ty vs vi vd nm cs)
  let ?it = "CJSON ty vs vi vd nm cs" and ?kind = "ty AND 255"
  let ?f = "json_text fl fmt (depth + 1)"
  note nz = json_text_nonzero [OF CJSON.prems, of fmt depth]
  have kind: "?kind \<in> {0..6}" using CJSON.prems by (simp add: Let_def)
  have arr: "rbind (print_entries alloc fl fmt (depth + 1) cs) (compose_array alloc fmt)
      = Inr (Some (91 # joined fmt (map ?f cs) @ [93]))" if "?kind = cJSON_Array"
  proof -
    have ok: "\<forall>c \<in> set cs. printable fl c" using CJSON.prems that by (auto simp: Let_def cJSON_types)
    then have "\<forall>c \<in> set cs. print_value alloc fl fmt (depth + 1) c = Inr (Some (?f c))"
      using CJSON.IH by blast
    from print_entries_ok [OF this] have "print_entries alloc fl fmt (depth + 1) cs = Inr (Some (map ?f cs))" .
    moreover have "\<forall>e \<in> set (map ?f cs). 0 \<notin> set e" using ok json_text_nonzero by auto
    ultimately show ?thesis by (simp add: compose_array_ok [OF assms] del: One_nat_def)
  qed
  have obj: "rbind (print_pairs alloc fl fmt (depth + 1) cs) (compose_object alloc fmt (depth + 1))
      = Inr (Some (123 # (if fmt then [10] else [])
        @ members fmt (depth + 1) (map (\<lambda>c. (string_text (the (jstring c)), ?f c)) cs)
        @ (if fmt then replicate depth 9 else []) @ [125]))" if "?kind = cJSON_Object"
  proof -
    have ok: "\<forall>c \<in> set cs. printable fl c \<and> string_ok (jstring c)"
      using CJSON.prems that by (auto simp: Let_def cJSON_types)
    then have "\<forall>c \<in> set cs. print_value alloc fl fmt (depth + 1) c = Inr (Some (?f c)) \<and> string_ok (jstring c)"
      using CJSON.IH by blast
    note pairs = print_pairs_ok [OF assms this]
    have "\<forall>(n, e) \<in> set (map (\<lambda>c. (string_text (the (jstring c)), ?f c)) cs). 0 \<notin> set n \<and> 0 \<notin> set e"
      using ok json_text_nonzero by (auto dest!: bspec string_okD intro: string_text_nonzero [THEN notE])
    from compose_object_ok [OF assms this, of fmt depth] show ?thesis by (simp only: pairs rbind_Inr)
  qed
  from kind_cases [OF kind] consider
      "?kind = cJSON_NULL" | "?kind = cJSON_False" | "?kind = cJSON_True" | "?kind = cJSON_Number"
    | "?kind = cJSON_String" | "?kind = cJSON_Array" | "?kind = cJSON_Object" by blast
  then show ?case
  proof cases
    case 4
    obtain needed tx where p: "print_number fl ?it = (needed, tx)" by (cases "print_number fl ?it")
    then have "tx = butlast tx @ [0]" by (auto simp: print_number_def Let_def split: if_splits)
    moreover from p have "length (butlast tx) < needed" "0 \<notin> set (butlast tx)"
      using CJSON.prems 4 calculation
      by (auto simp: Let_def number_ok_def cJSON_types) (metis One_nat_def Suc_le_lessD length_append_singleton length_butlast)
    ultimately show ?thesis
      using 4 p print_block_fits [OF assms, of "butlast tx" needed] by (simp add: Let_def cJSON_types)
  next
    case 5
    then obtain s where s: "vs = Some s" "0 \<notin> set s"
      using CJSON.prems by (auto simp: Let_def cJSON_types dest: string_okD)
    then show ?thesis
      using 5 print_string_ptr_ok [OF s(2)] print_block_fits [OF assms _ string_text_nonzero [OF s(2)]]
      by (simp add: Let_def cJSON_types print_string_def)
  next
    case 6
    then show ?thesis
      using arr [OF 6] assms [rule_format, of "4 * length cs"] print_block_fits [OF assms, of "[91, 93]" 3]
      by (simp add: Let_def cJSON_types)
  next
    case 7
    let ?t = "123 # (if fmt then 10 # replicate (depth - 1) 9 else []) @ [125]"
    have "print_block alloc (print_empty_object fmt depth) = Inr (Some ?t)"
      using print_block_fits [OF assms, of ?t "if fmt then depth + 4 else 3"]
      by (cases fmt) (simp_all add: print_empty_object_def)
    then show ?thesis
      using 7 obj [OF 7] assms [rule_format, of "4 * length cs"] by (simp add: Let_def cJSON_types)
  qed (simp_all add: Let_def cJSON_types strdup_ok [OF assms] text_null_def text_false_def text_true_def)
qed

end
