(* ===== verification/JsonBuffer.thy ===== *)
theory JsonBuffer
  imports JsonText
begin

unbundle bit_operations_syntax

text \<open>
  The second form of the printer writes the same texts, and every write lands inside the buffer, which
  \<^verbatim>\<open>ensure\<close> grows in time.
\<close>

section \<open>Growing\<close>

lemma or_ge: "0 \<le> x \<Longrightarrow> 0 \<le> y \<Longrightarrow> x \<le> x OR (y :: int)"
  by (simp add: OR_lower or_greater_eq)

lemma pow2gt_ge:
  assumes "1 \<le> x" and "x \<le> 2 ^ 30"
  shows "x \<le> pow2gt x \<and> pow2gt x \<le> 2 ^ 30"
proof -
  have step: "y \<le> y OR drop_bit k y \<and> y OR drop_bit k y < 2 ^ 30" if "0 \<le> y" "y < 2 ^ 30" for y :: int and k
  proof -
    have d: "0 \<le> drop_bit k y" "drop_bit k y \<le> y"
      using that(1) zdiv_mono2 [of y 1 "2 ^ k"] by (simp_all add: drop_bit_eq_div pos_imp_zdiv_nonneg_iff)
    show ?thesis using or_ge [OF that(1) d(1)] OR_upper [of y 30 "drop_bit k y"] that d by simp
  qed
  let ?a = "x - 1"
  let ?b = "?a OR drop_bit 1 ?a" let ?c = "?b OR drop_bit 2 ?b" let ?d = "?c OR drop_bit 4 ?c"
  let ?e = "?d OR drop_bit 8 ?d" let ?f = "?e OR drop_bit 16 ?e"
  have a: "0 \<le> ?a" "?a < 2 ^ 30" using assms by simp_all
  have b: "?a \<le> ?b" "?b < 2 ^ 30" using step [OF a, of 1] by simp_all
  have c: "?b \<le> ?c" "?c < 2 ^ 30" using step [of ?b 2] a b by simp_all
  have d: "?c \<le> ?d" "?d < 2 ^ 30" using step [of ?c 4] a b c by simp_all
  have e: "?d \<le> ?e" "?e < 2 ^ 30" using step [of ?d 8] a b c d by simp_all
  have f: "?e \<le> ?f" "?f < 2 ^ 30" using step [of ?e 16] a b c d e by simp_all
  have "signed_take_bit 31 (?f + 1) = ?f + 1"
    using f a b c d e by (intro signed_take_bit_int_eq_self) simp_all
  then show ?thesis using a b c d e f by (simp add: pow2gt_def Let_def)
qed

section \<open>Writing at the offset\<close>

text \<open>The buffer holds \<open>pre\<close> before its offset and \<open>t\<close> from there on.\<close>

definition buf_text :: "printbuffer \<Rightarrow> wchar list \<Rightarrow> wchar list \<Rightarrow> bool" where
  "buf_text p pre t \<longleftrightarrow>
     (\<exists>rest. buffer p = Some (map Some (pre @ t) @ rest) \<and> poffset p = length pre
        \<and> plength p = length (pre @ t) + length rest)"

text \<open>The buffer holds \<open>s\<close> and a zero, and its offset is somewhere in \<open>s\<close>.\<close>

definition buf_full :: "printbuffer \<Rightarrow> wchar list \<Rightarrow> bool" where
  "buf_full p s \<longleftrightarrow> (\<exists>pre t. s = pre @ t \<and> buf_text p pre (t @ [0]))"

lemma buf_text_advance: "buf_text p pre (t @ u) \<Longrightarrow> buf_text (advance (length t) p) (pre @ t) u"
  by (auto simp: buf_text_def advance_def)

lemma buf_text_forget: "buf_text p pre t \<Longrightarrow> buf_text p pre []"
  unfolding buf_text_def by (metis append.right_neutral append.assoc length_append length_map map_append add.assoc)

lemma ensure_ok:
  assumes al: "\<forall>n. alloc n" and p: "buf_text p pre t" and small: "1 \<le> needed" "length pre + needed \<le> 2 ^ 30"
  shows "\<exists>p'. ensure alloc p needed = Inr (True, p') \<and> buf_text p' pre t \<and> length pre + needed \<le> plength p'"
proof -
  obtain rest where rest: "buffer p = Some (map Some (pre @ t) @ rest)" "poffset p = length pre"
    "plength p = length (pre @ t) + length rest" using p by (auto simp: buf_text_def)
  let ?n = "needed + length pre" let ?new = "nat (pow2gt (int ?n))"
  show ?thesis
  proof (cases "?n \<le> plength p")
    case True
    with rest p show ?thesis by (auto simp: ensure_def add.commute)
  next
    case False
    have "int ?n \<le> pow2gt (int ?n)" using pow2gt_ge [of "int ?n"] small by simp
    then have new: "?n \<le> ?new" by simp
    let ?blk = "map Some (pre @ t) @ rest"
    have "mem_read ?blk 0 (plength p) = Inr ?blk" using rest(3) by (simp add: mem_read_def)
    moreover have "mem_write (replicate ?new None) 0 ?blk = Inr (?blk @ replicate (?new - length ?blk) None)"
      using rest(3) False new by (simp add: mem_write_def)
    moreover have "plength p \<le> ?new" using False new by simp
    ultimately show ?thesis
      using rest False new al [rule_format, of "2 * ?new"]
      by (auto simp: ensure_def Let_def buf_text_def intro!: exI [of _ "rest @ replicate (?new - length ?blk) None"])
  qed
qed

lemma print_at_ok:
  assumes "\<forall>n. alloc n" and "buf_text p pre t0" and "1 \<le> needed" and "length pre + needed \<le> 2 ^ 30"
    and "length t \<le> needed"
  shows "\<exists>p'. print_at alloc (needed, t) p = Inr (True, p') \<and> buf_text p' pre t"
proof -
  from ensure_ok [OF assms(1) buf_text_forget [OF assms(2)] assms(3,4)] obtain p1 where p1:
      "ensure alloc p needed = Inr (True, p1)" "buf_text p1 pre []" "length pre + needed \<le> plength p1" by blast
  then obtain rest where rest: "buffer p1 = Some (map Some pre @ rest)" "poffset p1 = length pre"
    "plength p1 = length pre + length rest" by (auto simp: buf_text_def)
  have "mem_write (map Some pre @ rest) (length pre) (map Some t) = Inr (map Some (pre @ t) @ drop (length t) rest)"
    using rest p1(3) assms(5) by (simp add: mem_write_def)
  then show ?thesis
    using p1(1,3) rest assms(5) by (auto simp: print_at_def put_text_def buf_text_def)
qed

lemma and_print_ok:
  assumes "\<forall>n. alloc n" and "buf_text p pre t0" and "1 \<le> needed" and "length pre + needed \<le> 2 ^ 30"
    and "length (t @ u) \<le> needed" and "n = length t"
  shows "\<exists>p'. and_print alloc (needed, t @ u) n p f = f p' \<and> buf_text p' (pre @ t) u"
proof -
  from print_at_ok [OF assms(1-5)] obtain p' where "print_at alloc (needed, t @ u) p = Inr (True, p')" "buf_text p' pre (t @ u)"
    by blast
  then show ?thesis using buf_text_advance [of p' pre t u] assms(6) by (auto simp: and_print_def)
qed

lemma set_offset_ok:
  assumes "buf_full p s" and "0 \<notin> set s"
  shows "\<exists>p'. set_offset p = Inr p' \<and> buf_text p' s [0]"
proof -
  from assms(1) obtain pre t where t: "s = pre @ t" "buf_text p pre (t @ [0])" by (auto simp: buf_full_def)
  then obtain rest where rest: "buffer p = Some (map Some (pre @ t @ [0]) @ rest)" "poffset p = length pre"
    "plength p = length (pre @ t @ [0]) + length rest" by (auto simp: buf_text_def)
  have "c_wide (map Some (t @ [0]) @ rest) = Inr t" by (rule c_wide_text) (use assms(2) t(1) in simp)
  then show ?thesis
    using rest t(1) by (auto simp: set_offset_def update_def buf_text_def)
qed

lemma buf_fullI: "buf_text p pre (t @ [0]) \<Longrightarrow> buf_full p (pre @ t)"
  by (auto simp: buf_full_def)

section \<open>Values\<close>

text \<open>Into any buffer that has text before its offset, a printing function adds \<open>e\<close>; 64 characters are kept in reserve.\<close>

definition adds :: "(printbuffer \<Rightarrow> (bool \<times> printbuffer) res) \<Rightarrow> wchar list \<Rightarrow> bool" where
  "adds f e \<longleftrightarrow> (\<forall>p pre t. buf_text p pre t \<longrightarrow> 0 \<notin> set pre \<longrightarrow> length pre + length e + 64 \<le> 2 ^ 30 \<longrightarrow>
     (\<exists>p'. f p = Inr (True, p') \<and> buf_full p' (pre @ e)))"

lemma addsD:
  "adds f e \<Longrightarrow> buf_text p pre t \<Longrightarrow> 0 \<notin> set pre \<Longrightarrow> length pre + length e + 64 \<le> 2 ^ 30 \<Longrightarrow>
     \<exists>p'. f p = Inr (True, p') \<and> buf_full p' (pre @ e)"
  unfolding adds_def by blast

lemma print_at_adds:
  assumes "\<forall>n. alloc n" and "length e < needed" and "needed \<le> length e + 64"
  shows "adds (print_at alloc (needed, e @ [0])) e"
  unfolding adds_def
proof (intro allI impI)
  fix p pre t assume p: "buf_text p pre t" "length pre + length e + 64 \<le> 2 ^ 30"
  have "1 \<le> needed" "length pre + needed \<le> 2 ^ 30" "length (e @ [0]) \<le> needed" using assms(2,3) p(2) by simp_all
  from print_at_ok [OF assms(1) p(1) this] obtain p' where
    "print_at alloc (needed, e @ [0]) p = Inr (True, p')" "buf_text p' pre (e @ [0])" by blast
  then show "\<exists>p'. print_at alloc (needed, e @ [0]) p = Inr (True, p') \<and> buf_full p' (pre @ e)"
    using buf_fullI by blast
qed

text \<open>A value, the new offset, and what comes next.\<close>

lemma adds_set_offset:
  assumes "adds f e" and "buf_text p pre t" and "0 \<notin> set pre" "0 \<notin> set e" and "length pre + length e + 64 \<le> 2 ^ 30"
  shows "\<exists>p'. rbind (f p) (\<lambda>(_, p). rbind (set_offset p) g) = g p' \<and> buf_text p' (pre @ e) [0]"
proof -
  from addsD [OF assms(1-3,5)] obtain p1 where p1: "f p = Inr (True, p1)" "buf_full p1 (pre @ e)" by blast
  from set_offset_ok [OF p1(2)] assms(3,4) obtain p2 where "set_offset p1 = Inr p2" "buf_text p2 (pre @ e) [0]" by auto
  with p1(1) show ?thesis by auto
qed

lemma print_elements_buf_adds:
  assumes al: "\<forall>n. alloc n"
  shows "\<forall>c \<in> set cs. adds (print_value_buf alloc fl fmt depth c) (f c) \<and> 0 \<notin> set (f c) \<Longrightarrow>
    adds (print_elements_buf alloc fl fmt depth cs) (joined fmt (map f cs) @ [93])"
proof (induction cs)
  case Nil
  show ?case using print_at_adds [OF al, of "[93]" 2] by simp
next
  case (Cons c cs)
  have c: "adds (print_value_buf alloc fl fmt depth c) (f c)" "0 \<notin> set (f c)" using Cons.prems by auto
  have rest: "adds (print_elements_buf alloc fl fmt depth cs) (joined fmt (map f cs) @ [93])"
    using Cons by auto
  show ?case unfolding adds_def
  proof (intro allI impI)
    fix p pre t
    assume p: "buf_text p pre t" "0 \<notin> set pre" "length pre + length (joined fmt (map f (c # cs)) @ [93]) + 64 \<le> 2 ^ 30"
    have fits: "length pre + length (f c) + 64 \<le> 2 ^ 30" using p(3) by (cases cs) auto
    obtain g where g: "g = (\<lambda>p. if cs \<noteq> [] then
         and_print alloc (if fmt then (3, [44, 32, 0]) else (2, [44, 0])) (if fmt then 2 else 1) p
           (print_elements_buf alloc fl fmt depth cs)
       else print_elements_buf alloc fl fmt depth cs p)" by simp
    from adds_set_offset [OF c(1) p(1,2) c(2) fits, of g] obtain p2 where
      p2: "print_elements_buf alloc fl fmt depth (c # cs) p = g p2" "buf_text p2 (pre @ f c) [0]"
      by (auto simp: g)
    show "\<exists>p'. print_elements_buf alloc fl fmt depth (c # cs) p = Inr (True, p')
        \<and> buf_full p' (pre @ joined fmt (map f (c # cs)) @ [93])"
    proof (cases "cs = []")
      case True
      then show ?thesis
        using addsD [OF rest p2(2)] p(2,3) c(2) p2(1) by (auto simp: g)
    next
      case False
      let ?sep = "44 # (if fmt then [32] else []) :: wchar list"
      have j: "joined fmt (map f (c # cs)) = f c @ ?sep @ joined fmt (map f cs)" using False by (cases cs) auto
      have "g p2 = and_print alloc (if fmt then 3 else 2, ?sep @ [0]) (length ?sep) p2
          (print_elements_buf alloc fl fmt depth cs)" using False by (auto simp: g numeral_2_eq_2)
      moreover have "\<exists>p'. and_print alloc (if fmt then 3 else 2, ?sep @ [0]) (length ?sep) p2
          (print_elements_buf alloc fl fmt depth cs) = print_elements_buf alloc fl fmt depth cs p'
          \<and> buf_text p' ((pre @ f c) @ ?sep) [0]"
        by (rule and_print_ok [OF al p2(2)]) (use p(3) j in auto)
      ultimately obtain p3 where p3: "g p2 = print_elements_buf alloc fl fmt depth cs p3"
        "buf_text p3 ((pre @ f c) @ ?sep) [0]" by auto
      have "0 \<notin> set ((pre @ f c) @ ?sep)" using p(2) c(2) by auto
      moreover have "length ((pre @ f c) @ ?sep) + length (joined fmt (map f cs) @ [93]) + 64 \<le> 2 ^ 30"
        using p(3) unfolding j by simp
      ultimately show ?thesis
        using addsD [OF rest p3(2)] p2(1) p3(1) unfolding j by simp
    qed
  qed
qed

text \<open>One member behind its indentation: name, colon, value, separator, and then \<open>g\<close>.\<close>

lemma member_buf:
  assumes al: "\<forall>n. alloc n" and p: "buf_text p pre t" "0 \<notin> set pre"
    and name: "jstring c = Some s" "0 \<notin> set s"
    and val: "adds (print_value_buf alloc fl fmt depth c) e" "0 \<notin> set e"
    and fits: "length pre + length (string_text s) + length e + (if fmt then 2 else 1) + 64 \<le> 2 ^ 30"
  shows "\<exists>p'. rbind (print_string_ptr (jstring c)) (\<lambda>img.
        rbind (print_at alloc img p) (\<lambda>(_, p).
        rbind (set_offset p) (\<lambda>p.
        and_print alloc (if fmt then (2, [58, 9]) else (1, [58])) (if fmt then 2 else 1) p (\<lambda>p.
        rbind (print_value_buf alloc fl fmt depth c p) (\<lambda>(_, p).
        rbind (set_offset p) (\<lambda>p.
        let len = (if fmt then 1 else 0) + (if others then 1 else 0) in
        and_print alloc (len + 1, (if others then [44] else []) @ (if fmt then [10] else []) @ [0]) len p g))))))
      = g p' \<and> buf_text p' (pre @ string_text s @ [58] @ (if fmt then [9] else []) @ e
          @ (if others then [44] else []) @ (if fmt then [10] else [])) [0]"
proof -
  let ?colon = "58 # (if fmt then [9] else []) :: wchar list"
    and ?sep = "(if others then [44] else []) @ (if fmt then [10] else []) :: wchar list"
  obtain g3 where g3: "g3 = (\<lambda>p. let len = (if fmt then 1 else 0) + (if others then 1 else 0) in
        and_print alloc (len + 1, (if others then [44] else []) @ (if fmt then [10] else []) @ [0]) len p g)" by simp
  obtain g2 where g2: "g2 = (\<lambda>p. rbind (print_value_buf alloc fl fmt depth c p) (\<lambda>(_, p). rbind (set_offset p) g3))" by simp
  obtain g1 where g1: "g1 = (\<lambda>p. and_print alloc (if fmt then (2, [58, 9]) else (1, [58])) (if fmt then 2 else 1) p g2)" by simp
  have str: "print_string_ptr (jstring c) = Inr (length (string_text s) + 1, string_text s @ [0])"
    unfolding name(1) by (rule print_string_ptr_ok [OF name(2)])
  have "adds (print_at alloc (length (string_text s) + 1, string_text s @ [0])) (string_text s)"
    by (rule print_at_adds [OF al]) simp_all
  from adds_set_offset [OF this p string_text_nonzero [OF name(2)], of g1] fits obtain p1 where
    p1: "rbind (print_at alloc (length (string_text s) + 1, string_text s @ [0]) p) (\<lambda>(_, p). rbind (set_offset p) g1) = g1 p1"
      "buf_text p1 (pre @ string_text s) [0]" by auto
  have "\<exists>p'. and_print alloc (if fmt then 2 else 1, ?colon @ []) (length ?colon) p1 g2 = g2 p'
      \<and> buf_text p' ((pre @ string_text s) @ ?colon) []"
    by (rule and_print_ok [OF al p1(2)]) (use fits in auto)
  then obtain p2 where p2: "g1 p1 = g2 p2" "buf_text p2 ((pre @ string_text s) @ ?colon) []"
    unfolding g1 by (cases fmt) (auto simp: numeral_2_eq_2)
  have "0 \<notin> set ((pre @ string_text s) @ ?colon)" using p(2) string_text_nonzero [OF name(2)] by auto
  moreover have "length ((pre @ string_text s) @ ?colon) + length e + 64 \<le> 2 ^ 30" using fits by auto
  ultimately obtain p3 where p3: "g2 p2 = g3 p3" "buf_text p3 (((pre @ string_text s) @ ?colon) @ e) [0]"
    using adds_set_offset [OF val(1) p2(2) _ val(2), of g3] unfolding g2 by blast
  have "\<exists>p'. and_print alloc (length ?sep + 1, ?sep @ [0]) (length ?sep) p3 g = g p'
      \<and> buf_text p' ((((pre @ string_text s) @ ?colon) @ e) @ ?sep) [0]"
    by (rule and_print_ok [OF al p3(2)]) (use fits in auto)
  moreover have "g3 p3 = and_print alloc (length ?sep + 1, ?sep @ [0]) (length ?sep) p3 g"
    unfolding g3 Let_def by (cases fmt; cases others) (simp_all add: numeral_2_eq_2)
  ultimately obtain p4 where "g3 p3 = g p4" "buf_text p4 ((((pre @ string_text s) @ ?colon) @ e) @ ?sep) [0]" by auto
  then show ?thesis
    unfolding str rbind_Inr using p1(1) p2(1) p3(1) unfolding g1 g2 g3 by auto
qed

lemma members_Cons:
  "members fmt depth ((n, e) # ms) = (if fmt then replicate depth 9 else []) @ n @ [58] @ (if fmt then [9] else []) @ e
     @ (if ms \<noteq> [] then [44] else []) @ (if fmt then [10] else []) @ members fmt depth ms"
  by simp

lemma print_members_buf_adds:
  assumes al: "\<forall>n. alloc n"
  shows "\<forall>c \<in> set cs. adds (print_value_buf alloc fl fmt (Suc d) c) (f c) \<and> 0 \<notin> set (f c) \<and> string_ok (jstring c) \<Longrightarrow>
    adds (print_members_buf alloc fl fmt (Suc d) cs)
      (members fmt (Suc d) (map (\<lambda>c. (string_text (the (jstring c)), f c)) cs) @ (if fmt then replicate d 9 else []) @ [125])"
proof (induction cs)
  case Nil
  show ?case
    using print_at_adds [OF al, of "replicate d 9 @ [125]" "Suc (Suc d)"] print_at_adds [OF al, of "[125]" 2]
    by (cases fmt) (simp_all add: adds_def)
next
  case (Cons c cs)
  let ?m = "\<lambda>c. (string_text (the (jstring c)), f c)"
  let ?close = "(if fmt then replicate d 9 else []) @ [125]"
  have c: "adds (print_value_buf alloc fl fmt (Suc d) c) (f c)" "0 \<notin> set (f c)" using Cons.prems by auto
  obtain s where s: "jstring c = Some s" "0 \<notin> set s" using Cons.prems by (auto dest: string_okD)
  have rest: "adds (print_members_buf alloc fl fmt (Suc d) cs) (members fmt (Suc d) (map ?m cs) @ ?close)"
    using Cons by auto
  show ?case unfolding adds_def
  proof (intro allI impI)
    fix p pre t
    assume p: "buf_text p pre t" "0 \<notin> set pre"
      and fits: "length pre + length (members fmt (Suc d) (map ?m (c # cs)) @ ?close) + 64 \<le> 2 ^ 30"
    let ?tabs = "if fmt then replicate (Suc d) 9 else [] :: wchar list"
    let ?member = "string_text s @ [58] @ (if fmt then [9] else []) @ f c @ (if cs \<noteq> [] then [44] else []) @ (if fmt then [10] else [])"
    obtain member where member: "member = (\<lambda>p. rbind (print_string_ptr (jstring c)) (\<lambda>img.
        rbind (print_at alloc img p) (\<lambda>(_, p).
        rbind (set_offset p) (\<lambda>p.
        and_print alloc (if fmt then (2, [58, 9]) else (1, [58])) (if fmt then 2 else 1) p (\<lambda>p.
        rbind (print_value_buf alloc fl fmt (Suc d) c p) (\<lambda>(_, p).
        rbind (set_offset p) (\<lambda>p.
        let len = (if fmt then 1 else 0) + (if cs \<noteq> [] then 1 else 0) in
        and_print alloc (len + 1, (if cs \<noteq> [] then [44] else []) @ (if fmt then [10] else []) @ [0]) len p
          (print_members_buf alloc fl fmt (Suc d) cs))))))))" by simp
    have whole: "members fmt (Suc d) (map ?m (c # cs)) = ?tabs @ ?member @ members fmt (Suc d) (map ?m cs)"
      using s(1) by simp
    have "\<exists>p1. print_members_buf alloc fl fmt (Suc d) (c # cs) p = member p1 \<and> (\<exists>u. buf_text p1 (pre @ ?tabs) u)"
    proof (cases fmt)
      case True
      have "\<exists>p1. and_print alloc (Suc d, replicate (Suc d) 9 @ []) (Suc d) p member = member p1
          \<and> buf_text p1 (pre @ replicate (Suc d) 9) []"
        by (rule and_print_ok [OF al p(1)]) (use fits True in \<open>simp_all add: whole\<close>)
      then show ?thesis using True by (auto simp: member Let_def simp del: replicate_Suc)
    qed (use p in \<open>auto simp: member Let_def\<close>)
    then obtain p1 u where p1: "print_members_buf alloc fl fmt (Suc d) (c # cs) p = member p1" "buf_text p1 (pre @ ?tabs) u"
      by blast
    have tabs: "0 \<notin> set (pre @ ?tabs)" using p(2) by auto
    have "length (pre @ ?tabs) + length (string_text s) + length (f c) + (if fmt then 2 else 1) + 64 \<le> 2 ^ 30"
      using fits unfolding whole by auto
    from member_buf [OF al p1(2) tabs s c this, of "cs \<noteq> []" "print_members_buf alloc fl fmt (Suc d) cs"]
    obtain p2 where p2: "member p1 = print_members_buf alloc fl fmt (Suc d) cs p2" "buf_text p2 ((pre @ ?tabs) @ ?member) [0]"
      unfolding member by auto
    have "0 \<notin> set ((pre @ ?tabs) @ ?member)" using tabs c(2) string_text_nonzero [OF s(2)] by auto
    moreover have "length ((pre @ ?tabs) @ ?member) + length (members fmt (Suc d) (map ?m cs) @ ?close) + 64 \<le> 2 ^ 30"
      using fits unfolding whole by auto
    ultimately show "\<exists>p'. print_members_buf alloc fl fmt (Suc d) (c # cs) p = Inr (True, p')
        \<and> buf_full p' (pre @ members fmt (Suc d) (map ?m (c # cs)) @ ?close)"
      using addsD [OF rest p2(2)] p1(1) p2(1) unfolding whole by simp
  qed
qed

lemma print_number_length: "number_ok fl it \<Longrightarrow> print_number fl it = (needed, tx) \<Longrightarrow>
    \<exists>e. tx = e @ [0] \<and> length e < needed \<and> needed \<le> 64"
  by (auto simp: number_ok_def print_number_def Let_def split: if_splits)

lemma and_print_adds:
  assumes al: "\<forall>n. alloc n" and "adds f e" and "0 \<notin> set t" and "length (t @ u) \<le> needed" and "needed \<le> 64"
    and "n = length t" and "1 \<le> needed"
  shows "adds (\<lambda>p. and_print alloc (needed, t @ u) n p f) (t @ e)"
  unfolding adds_def
proof (intro allI impI)
  fix p pre t0 assume p: "buf_text p pre t0" "0 \<notin> set pre" "length pre + length (t @ e) + 64 \<le> 2 ^ 30"
  have "length pre + needed \<le> 2 ^ 30" using p(3) assms(5) by simp
  from and_print_ok [OF al p(1) assms(7) this assms(4,6)] obtain p' where
    "and_print alloc (needed, t @ u) n p f = f p'" "buf_text p' (pre @ t) u" by blast
  with addsD [OF assms(2) this(2)] p(2,3) assms(3)
  show "\<exists>p'. and_print alloc (needed, t @ u) n p f = Inr (True, p') \<and> buf_full p' (pre @ t @ e)" by auto
qed

lemma print_value_buf_adds:
  assumes al: "\<forall>n. alloc n"
  shows "printable fl it \<Longrightarrow> adds (print_value_buf alloc fl fmt depth it) (json_text fl fmt depth it)"
proof (induction it arbitrary: depth)
  case (CJSON ty vs vi vd nm cs)
  let ?it = "CJSON ty vs vi vd nm cs" and ?kind = "ty AND 255"
  let ?f = "json_text fl fmt (depth + 1)"
  have kind: "?kind \<in> {0..6}" using CJSON.prems by (simp add: Let_def)
  have kids: "adds (print_value_buf alloc fl fmt (depth + 1) c) (?f c) \<and> 0 \<notin> set (?f c)"
    if "c \<in> set cs" "?kind = cJSON_Array \<or> ?kind = cJSON_Object" for c
  proof -
    have "printable fl c" using CJSON.prems that by (auto simp: Let_def cJSON_types)
    then show ?thesis using CJSON.IH [OF that(1)] json_text_nonzero by blast
  qed
  from kind_cases [OF kind] consider
      "?kind = cJSON_NULL" | "?kind = cJSON_False" | "?kind = cJSON_True" | "?kind = cJSON_Number"
    | "?kind = cJSON_String" | "?kind = cJSON_Array" | "?kind = cJSON_Object" by blast
  then show ?case
  proof cases
    case 1
    with print_at_adds [OF al, of text_null 5] show ?thesis
      by (simp add: adds_def cJSON_types text_null_def)
  next
    case 2
    with print_at_adds [OF al, of text_false 6] show ?thesis
      by (simp add: adds_def cJSON_types text_false_def)
  next
    case 3
    with print_at_adds [OF al, of text_true 5] show ?thesis
      by (simp add: adds_def cJSON_types text_true_def)
  next
    case 4
    obtain needed tx where n: "print_number fl ?it = (needed, tx)" by (cases "print_number fl ?it")
    have "number_ok fl ?it" using CJSON.prems 4 by (auto simp: Let_def cJSON_types)
    from print_number_length [OF this n] obtain e where "tx = e @ [0]" "length e < needed" "needed \<le> 64" by blast
    with print_at_adds [OF al, of e needed] show ?thesis
      using 4 n by (simp add: adds_def cJSON_types Let_def)
  next
    case 5
    then obtain s where s: "vs = Some s" "0 \<notin> set s"
      using CJSON.prems by (auto simp: Let_def cJSON_types dest: string_okD)
    then show ?thesis
      using 5 print_at_adds [OF al, of "string_text s" "length (string_text s) + 1"] print_string_ptr_ok [OF s(2)]
      by (simp add: adds_def cJSON_types Let_def print_string_def)
  next
    case 6
    show ?thesis
    proof (cases "cs = []")
      case True
      with 6 print_at_adds [OF al, of "[91, 93]" 3] show ?thesis by (simp add: adds_def cJSON_types Let_def)
    next
      case False
      have "adds (print_elements_buf alloc fl fmt (depth + 1) cs) (joined fmt (map ?f cs) @ [93])"
        by (rule print_elements_buf_adds [OF al]) (use kids 6 in blast)
      from and_print_adds [OF al this, of "[91]" "[]" 1 1] show ?thesis
        using 6 False by (simp add: adds_def cJSON_types Let_def)
    qed
  next
    case 7
    show ?thesis
    proof (cases "cs = []")
      case True
      have "adds (print_at alloc (print_empty_object fmt depth)) (123 # (if fmt then 10 # replicate (depth - 1) 9 else []) @ [125])"
        using print_at_adds [OF al, of "123 # (if fmt then 10 # replicate (depth - 1) 9 else []) @ [125]" "if fmt then depth + 4 else 3"]
        by (cases fmt) (simp_all add: print_empty_object_def)
      with 7 True show ?thesis by (simp add: adds_def cJSON_types Let_def)
    next
      case False
      have "\<forall>c \<in> set cs. string_ok (jstring c)" using CJSON.prems 7 by (auto simp: Let_def cJSON_types)
      then have "adds (print_members_buf alloc fl fmt (Suc depth) cs)
          (members fmt (Suc depth) (map (\<lambda>c. (string_text (the (jstring c)), ?f c)) cs)
            @ (if fmt then replicate depth 9 else []) @ [125])"
        by (intro print_members_buf_adds [OF al]) (use kids 7 in auto)
      from and_print_adds [OF al this, of "if fmt then [123, 10] else [123]" "[0]" "if fmt then 3 else 2" "if fmt then 2 else 1"]
      show ?thesis using 7 False by (cases fmt) (simp_all add: adds_def cJSON_types Let_def)
    qed
  qed
qed

lemma cJSON_PrintBuffered_ok:
  assumes "\<forall>n. alloc n" and "printable fl it" and "length (json_text fl fmt 0 it) + 64 \<le> 2 ^ 30"
  shows "cJSON_PrintBuffered alloc fl it prebuffer fmt = Inr (Some (json_text fl fmt 0 it))"
proof -
  let ?p = "\<lparr>buffer = Some (replicate prebuffer None), plength = prebuffer, poffset = 0\<rparr>"
  have "buf_text ?p [] []" by (auto simp: buf_text_def)
  from addsD [OF print_value_buf_adds [OF assms(1,2)] this, of fmt 0] assms(3) obtain p where
    p: "print_value_buf alloc fl fmt 0 it ?p = Inr (True, p)" "buf_full p (json_text fl fmt 0 it)" by auto
  then obtain rest where "buffer p = Some (map Some (json_text fl fmt 0 it @ [0]) @ rest)"
    by (auto simp: buf_full_def buf_text_def)
  then show ?thesis
    using p(1) c_wide_text [OF json_text_nonzero [OF assms(2)]] assms(1) [rule_format, of "2 * prebuffer"]
    by (simp add: cJSON_PrintBuffered_def)
qed

end
