(* ===== verification/JsonTotal.thy ===== *)
theory JsonTotal
  imports JsonText
begin

text \<open>
  What holds of the parser on every text: it returns, what it accepts is shorter than what it was given, and
  the items it makes are well formed.
\<close>

section \<open>Well-formed items\<close>

text \<open>
  The items the parser makes: a type, the fields of that type, zeros elsewhere, names exactly in objects. \<open>num\<close>
  says which pairs of \<^verbatim>\<open>valueint\<close> and \<^verbatim>\<open>valuedouble\<close> a number may have.
\<close>

fun typed :: "(int \<Rightarrow> rat \<Rightarrow> bool) \<Rightarrow> bool \<Rightarrow> cjson \<Rightarrow> bool" where
  "typed num named (CJSON ty vs vi vd nm cs) \<longleftrightarrow>
     (if named then string_ok nm else nm = None)
     \<and> (if ty = cJSON_Number then num vi vd else vi = (if ty = cJSON_True then 1 else 0) \<and> vd = 0)
     \<and> (if ty = cJSON_String then string_ok vs else vs = None)
     \<and> (if ty = cJSON_Array then \<forall>c \<in> set cs. typed num False c
        else if ty = cJSON_Object then \<forall>c \<in> set cs. typed num True c
        else cs = [])
     \<and> ty \<in> {0..6}"

section \<open>Every call takes something and returns\<close>

lemma rbind_Diverges [simp]:
  "rbind m f = Inl Diverges \<longleftrightarrow> m = Inl Diverges \<or> (\<exists>x. m = Inr x \<and> f x = Inl Diverges)"
  by (cases m) auto

lemma peek_Diverges [simp]: "peek v \<noteq> Inl Diverges"
  by (cases v) simp_all

lemma peek_Inr: "peek v = Inr c \<longleftrightarrow> (\<exists>cs. v = c # cs)"
  by (cases v) auto

lemma skip_Diverges [simp]: "skip v \<noteq> Inl Diverges"
  by (induction v) simp_all

lemma skip_shorter: "skip v = Inr p \<Longrightarrow> length p \<le> length v"
  by (induction v) (auto split: if_splits)

lemma mem_write_Diverges [simp]: "mem_write m i x \<noteq> Inl Diverges"
  by (simp add: mem_write_def)

lemma hex_digits_Diverges [simp]: "hex_digits k h v \<noteq> Inl Diverges"
  by (induction k h v rule: hex_digits.induct) (simp_all split: option.splits)

lemma parse_hex4_Diverges [simp]: "parse_hex4 v \<noteq> Inl Diverges"
  by (simp add: parse_hex4_def)

lemma hex_escape_Diverges [simp]: "hex_escape v \<noteq> Inl Diverges"
  by (auto simp: hex_escape_def)

lemma string_len_Diverges [simp]: "string_len v \<noteq> Inl Diverges"
  by (induction v rule: string_len.induct) auto

lemma string_loop_Diverges [simp]: "string_loop v out i \<noteq> Inl Diverges"
  by (induction v out i rule: string_loop.induct) auto

lemma string_loop_shorter: "string_loop v out i = Inr (r, out', i') \<Longrightarrow> length r \<le> length v"
proof (induction v out i rule: string_loop.induct)
  case (2 c cs out i)
  then show ?case
    by (auto simp: rbind_eq_Inr peek_Inr split: if_splits) (fastforce dest: le_trans)+
qed simp

lemma c_wide_Diverges [simp]: "c_wide b \<noteq> Inl Diverges"
  by (induction b rule: c_wide.induct) auto

lemma c_wide_nonzero: "c_wide b = Inr s \<Longrightarrow> 0 \<notin> set s"
  by (induction b arbitrary: s rule: c_wide.induct) (auto simp: rbind_eq_Inr split: if_splits)

lemma parse_string_Diverges [simp]: "parse_string alloc v \<noteq> Inl Diverges"
  by (auto simp: parse_string_def split: prod.splits)

lemma parse_string_shorter: "parse_string alloc v = Inr (Parsed s r) \<Longrightarrow> length r < length v \<and> 0 \<notin> set s"
  by (cases v) (auto simp: parse_string_def rbind_eq_Inr peek_Inr split: if_splits dest!: string_loop_shorter dest: c_wide_nonzero)

lemma digit_loop_Diverges [simp]: "digit_loop f s v \<noteq> Inl Diverges"
  by (induction f s v rule: digit_loop.induct) auto

lemma digit_loop_shorter: "digit_loop f s v = Inr (s', r) \<Longrightarrow> length r \<le> length v"
  by (induction f s v rule: digit_loop.induct) (auto split: if_splits)

lemma digit_loop_takes: "digit_loop f s (c # cs) = Inr (s', r) \<Longrightarrow> is_digit c \<Longrightarrow> length r \<le> length cs"
  by (auto dest: digit_loop_shorter)

lemma starts_with_Diverges [simp]: "starts_with w v \<noteq> Inl Diverges"
  by (induction w v rule: starts_with.induct) auto

lemma starts_with_True: "starts_with w v = Inr True \<Longrightarrow> length w \<le> length v"
  by (induction w v rule: starts_with.induct) (auto split: if_splits)

lemma integer_part_Diverges [simp]: "integer_part fl v \<noteq> Inl Diverges"
  by (auto simp: integer_part_def Let_def)

lemma fraction_part_Diverges [simp]: "fraction_part fl n v \<noteq> Inl Diverges"
  by (auto simp: fraction_part_def)

lemma exponent_part_Diverges [simp]: "exponent_part v \<noteq> Inl Diverges"
  by (auto simp: exponent_part_def Let_def split: prod.splits)

lemma parse_number_Diverges [simp]: "parse_number fl v \<noteq> Inl Diverges"
  by (auto simp: parse_number_def Let_def split: prod.splits)

lemma integer_part_shorter: "integer_part fl v = Inr (n, r) \<Longrightarrow> length r \<le> length v"
  by (auto simp: integer_part_def Let_def rbind_eq_Inr split: if_splits dest!: digit_loop_shorter)

lemma digit_not_zero: "is_digit c \<Longrightarrow> c \<noteq> 48 \<Longrightarrow> 49 \<le> c \<and> c \<le> 57"
  by (auto simp: is_digit_def word_le_nat_alt word_unat_eq_iff)

lemma integer_part_takes:
  assumes "integer_part fl (c # cs) = Inr (n, r)" and "is_digit c"
  shows "length r \<le> length cs"
proof (cases "c = 48")
  case True
  with assms show ?thesis
    by (auto simp: integer_part_def rbind_eq_Inr split: if_splits dest!: digit_loop_shorter)
next
  case False
  with digit_not_zero [OF assms(2)] assms show ?thesis
    by (auto simp: integer_part_def dest: digit_loop_shorter)
qed

lemma fraction_part_shorter: "fraction_part fl n v = Inr (m, r) \<Longrightarrow> length r \<le> length v"
  by (auto simp: fraction_part_def rbind_eq_Inr split: if_splits dest!: digit_loop_shorter)

lemma exponent_part_shorter: "exponent_part v = Inr (m, r) \<Longrightarrow> length r \<le> length v"
  by (auto simp: exponent_part_def Let_def rbind_eq_Inr split: if_splits prod.splits dest!: digit_loop_shorter)

text \<open>A number starts with its sign or a digit, and \<^verbatim>\<open>parse_number\<close> takes that at least.\<close>

lemma parse_number_shorter:
  assumes "parse_number fl (c # cs) = Inr (it, r)" and "c = 45 \<or> is_digit c"
  shows "length r \<le> length cs \<and> (\<exists>vi vd. it = CJSON cJSON_Number None vi vd None [])"
proof -
  from assms(1) obtain n num1 m num2 power where
      1: "integer_part fl (if c = 45 then cs else c # cs) = Inr (n, num1)"
    and 2: "fraction_part fl n num1 = Inr (m, num2)" and 3: "exponent_part num2 = Inr (power, r)"
    and it: "\<exists>vi vd. it = CJSON cJSON_Number None vi vd None []"
    by (cases "c = 45") (auto simp: parse_number_def Let_def rbind_eq_Inr split: prod.splits)
  from 1 assms(2) have "length num1 \<le> length cs"
    by (cases "c = 45") (auto dest: integer_part_shorter integer_part_takes)
  with fraction_part_shorter [OF 2] exponent_part_shorter [OF 3] it show ?thesis by simp
qed

definition consuming :: "value_parser \<Rightarrow> bool" where
  "consuming parse \<longleftrightarrow> (\<forall>v it r. parse v = Inr (Parsed it r) \<longrightarrow> length r < length v)"

definition returns_below :: "nat \<Rightarrow> value_parser \<Rightarrow> bool" where
  "returns_below n parse \<longleftrightarrow> (\<forall>v. length v < n \<longrightarrow> parse v \<noteq> Inl Diverges)"

lemma consumingD: "consuming parse \<Longrightarrow> parse v = Inr (Parsed it r) \<Longrightarrow> length r < length v"
  by (simp add: consuming_def)

lemma and_skip_cases:
  "and_skip (Inl e) f = Inl e" "and_skip (Inr (Rejected ep)) f = Inr (Rejected ep)"
  "and_skip (Inr (Parsed x r)) f = rbind (skip r) (f x)"
  by (simp_all add: and_skip_def)

lemma parsed_res_cases:
  obtains e where "m = Inl e" | ep where "m = Inr (Rejected ep)" | x r where "m = Inr (Parsed x r)"
  by (cases m) (auto, metis parsed.exhaust)

lemma and_skip_Inr:
  "and_skip m f = Inr (Parsed y q) \<longleftrightarrow> (\<exists>x r p. m = Inr (Parsed x r) \<and> skip r = Inr p \<and> f x p = Inr (Parsed y q))"
  by (cases m rule: parsed_res_cases) (auto simp: and_skip_cases rbind_eq_Inr)

lemma and_skip_Diverges:
  "and_skip m f = Inl Diverges
     \<longleftrightarrow> m = Inl Diverges \<or> (\<exists>x r p. m = Inr (Parsed x r) \<and> skip r = Inr p \<and> f x p = Inl Diverges)"
  by (cases m rule: parsed_res_cases) (auto simp: and_skip_cases)

lemma parse_elements_shorter:
  "consuming parse \<Longrightarrow> parse_elements alloc parse k its v = Inr (Parsed it r) \<Longrightarrow> length r < length v"
proof (induction k arbitrary: its v)
  case (Suc k)
  then obtain c cs where v: "v = c # cs" by (cases v) auto
  show ?case
  proof (cases "c = 44")
    case True
    with Suc.prems(2) v obtain p x q u where s: "skip cs = Inr p" "parse p = Inr (Parsed x q)" "skip q = Inr u"
      and rest: "parse_elements alloc parse k (its @ [x]) u = Inr (Parsed it r)"
      by (auto simp: rbind_eq_Inr and_skip_Inr split: if_splits)
    from Suc.IH [OF Suc.prems(1) rest] consumingD [OF Suc.prems(1) s(2)] skip_shorter [OF s(1)] skip_shorter [OF s(3)]
    show ?thesis unfolding v by simp
  qed (use Suc.prems(2) v in \<open>auto split: if_splits\<close>)
qed simp

lemma parse_elements_returns:
  assumes "consuming parse" and "returns_below n parse"
  shows "length v \<le> n \<Longrightarrow> length v < k \<Longrightarrow> parse_elements alloc parse k its v \<noteq> Inl Diverges"
proof (induction k arbitrary: its v)
  case (Suc k)
  show ?case
  proof
    assume d: "parse_elements alloc parse (Suc k) its v = Inl Diverges"
    then obtain cs p where v: "v = 44 # cs" "skip cs = Inr p"
      "and_skip (parse p) (\<lambda>it. parse_elements alloc parse k (its @ [it])) = Inl Diverges"
      by (auto simp: peek_Inr split: if_splits)
    have p: "length p < length v" using skip_shorter [OF v(2)] v(1) by simp
    then have "parse p \<noteq> Inl Diverges" using assms(2) Suc.prems(1) by (simp add: returns_below_def)
    with v(3) obtain x q u where "parse p = Inr (Parsed x q)" "skip q = Inr u"
      "parse_elements alloc parse k (its @ [x]) u = Inl Diverges" by (auto simp: and_skip_Diverges)
    moreover have "length u < length p"
      using consumingD [OF assms(1) calculation(1)] skip_shorter [OF calculation(2)] by simp
    ultimately show False using Suc.IH [of u] p Suc.prems by simp
  qed
qed simp

lemma map_parsed_Parsed [simp]:
  "(case x of Rejected ep \<Rightarrow> Rejected ep | Parsed y r \<Rightarrow> Parsed (f y) r) = Parsed it r'
     \<longleftrightarrow> (\<exists>y. x = Parsed y r' \<and> it = f y)"
  by (cases x) auto

lemma case_parsed_Inr:
  "(case x of Rejected ep \<Rightarrow> f ep | Parsed y r \<Rightarrow> g y r) = Inr z
     \<longleftrightarrow> (\<exists>ep. x = Rejected ep \<and> f ep = Inr z) \<or> (\<exists>y r. x = Parsed y r \<and> g y r = Inr z)"
  by (cases x) auto

lemma parse_member_shorter: "consuming parse \<Longrightarrow> consuming (parse_member alloc parse)"
proof -
  assume c: "consuming parse"
  show ?thesis unfolding consuming_def
  proof (intro allI impI)
    fix v it r assume "parse_member alloc parse v = Inr (Parsed it r)"
    then obtain s r1 cs p q x where "parse_string alloc v = Inr (Parsed s r1)" "skip r1 = Inr (58 # cs)" "skip cs = Inr p"
      "parse p = Inr (Parsed x r)"
      by (auto simp: parse_member_def and_skip_Inr rbind_eq_Inr peek_Inr split: if_splits parsed.splits)
    with parse_string_shorter [of alloc v s r1] skip_shorter [of r1 "58 # cs"] skip_shorter [of cs p] consumingD [OF c, of p x r]
    show "length r < length v" by simp
  qed
qed

lemma parse_member_returns: "returns_below n parse \<Longrightarrow> returns_below (Suc n) (parse_member alloc parse)"
proof -
  assume c: "returns_below n parse"
  show ?thesis unfolding returns_below_def
  proof (intro allI impI notI)
    fix v assume v: "length v < Suc n" and "parse_member alloc parse v = Inl Diverges"
    then obtain s r1 cs p where "parse_string alloc v = Inr (Parsed s r1)" "skip r1 = Inr (58 # cs)" "skip cs = Inr p"
      "parse p = Inl Diverges"
      by (auto simp: parse_member_def and_skip_Diverges peek_Inr split: if_splits)
    with v parse_string_shorter [of alloc v s r1] skip_shorter [of r1 "58 # cs"] skip_shorter [of cs p] c
    show False by (simp add: returns_below_def)
  qed
qed

lemma parse_members_shorter:
  "consuming (parse_member alloc parse) \<Longrightarrow> parse_members alloc parse k its v = Inr (Parsed it r) \<Longrightarrow> length r < length v"
proof (induction k arbitrary: its v)
  case (Suc k)
  then obtain c cs where v: "v = c # cs" by (cases v) auto
  show ?case
  proof (cases "c = 44")
    case True
    with Suc.prems(2) v obtain p x q u where s: "skip cs = Inr p" "parse_member alloc parse p = Inr (Parsed x q)" "skip q = Inr u"
      and rest: "parse_members alloc parse k (its @ [x]) u = Inr (Parsed it r)"
      by (auto simp: rbind_eq_Inr and_skip_Inr split: if_splits)
    from Suc.IH [OF Suc.prems(1) rest] consumingD [OF Suc.prems(1) s(2)] skip_shorter [OF s(1)] skip_shorter [OF s(3)]
    show ?thesis unfolding v by simp
  qed (use Suc.prems(2) v in \<open>auto split: if_splits\<close>)
qed simp

lemma parse_members_returns:
  assumes "consuming (parse_member alloc parse)" and "returns_below n (parse_member alloc parse)"
  shows "length v \<le> n \<Longrightarrow> length v < k \<Longrightarrow> parse_members alloc parse k its v \<noteq> Inl Diverges"
proof (induction k arbitrary: its v)
  case (Suc k)
  show ?case
  proof
    assume d: "parse_members alloc parse (Suc k) its v = Inl Diverges"
    then obtain cs p where v: "v = 44 # cs" "skip cs = Inr p"
      "and_skip (parse_member alloc parse p) (\<lambda>it. parse_members alloc parse k (its @ [it])) = Inl Diverges"
      by (auto simp: peek_Inr split: if_splits)
    have p: "length p < length v" using skip_shorter [OF v(2)] v(1) by simp
    then have "parse_member alloc parse p \<noteq> Inl Diverges" using assms(2) Suc.prems(1) by (simp add: returns_below_def)
    with v(3) obtain x q u where "parse_member alloc parse p = Inr (Parsed x q)" "skip q = Inr u"
      "parse_members alloc parse k (its @ [x]) u = Inl Diverges" by (auto simp: and_skip_Diverges)
    moreover have "length u < length p"
      using consumingD [OF assms(1) calculation(1)] skip_shorter [OF calculation(2)] by simp
    ultimately show False using Suc.IH [of u] p Suc.prems by simp
  qed
qed simp

text \<open>Arrays, objects and values.\<close>

lemma parse_array_shorter:
  assumes "consuming parse" and "parse_array alloc parse v = Inr (Parsed it r)"
  shows "length r < length v"
proof -
  from assms(2) obtain cs p where v: "v = 91 # cs" "skip cs = Inr p"
    by (auto simp: parse_array_def rbind_eq_Inr peek_Inr split: if_splits)
  show ?thesis
  proof (cases "\<exists>u. p = 93 # u")
    case True
    with assms(2) v skip_shorter [OF v(2)] show ?thesis by (auto simp: parse_array_def)
  next
    case False
    with assms(2) v obtain q x r1 u where q: "skip p = Inr q" "parse q = Inr (Parsed x r1)" "skip r1 = Inr u"
      "parse_elements alloc parse (length q) [x] u = Inr (Parsed it r)"
      by (auto simp: parse_array_def rbind_eq_Inr peek_Inr and_skip_Inr split: if_splits)
    from parse_elements_shorter [OF assms(1) q(4)] skip_shorter [OF q(1)] skip_shorter [OF q(3)] skip_shorter [OF v(2)]
      consumingD [OF assms(1) q(2)] v(1)
    show ?thesis by simp
  qed
qed

lemma parse_array_returns:
  assumes "consuming parse" and "returns_below n parse" and "length v \<le> n"
  shows "parse_array alloc parse v \<noteq> Inl Diverges"
proof
  assume "parse_array alloc parse v = Inl Diverges"
  then obtain cs p q where v: "v = 91 # cs" "skip cs = Inr p" "skip p = Inr q"
      "and_skip (parse q) (\<lambda>it rest. parse_elements alloc parse (length q) [it] rest) = Inl Diverges"
    by (auto simp: parse_array_def peek_Inr split: if_splits)
  have q: "length q < length v" using skip_shorter [OF v(2)] skip_shorter [OF v(3)] v(1) by simp
  with assms(2,3) have "parse q \<noteq> Inl Diverges" by (simp add: returns_below_def)
  with v(4) obtain x r u where r: "parse q = Inr (Parsed x r)" "skip r = Inr u"
    "parse_elements alloc parse (length q) [x] u = Inl Diverges" by (auto simp: and_skip_Diverges)
  have "length u < length q" using consumingD [OF assms(1) r(1)] skip_shorter [OF r(2)] by simp
  with parse_elements_returns [OF assms(1,2), of u "length q"] q assms(3) r(3) show False by simp
qed

lemma parse_object_shorter:
  assumes "consuming (parse_member alloc parse)" and "parse_object alloc parse v = Inr (Parsed it r)"
  shows "length r < length v"
proof -
  from assms(2) obtain cs p where v: "v = 123 # cs" "skip cs = Inr p"
    by (auto simp: parse_object_def rbind_eq_Inr peek_Inr split: if_splits)
  show ?thesis
  proof (cases "\<exists>u. p = 125 # u")
    case True
    with assms(2) v skip_shorter [OF v(2)] show ?thesis by (auto simp: parse_object_def)
  next
    case False
    with assms(2) v obtain q x r1 u where q: "skip p = Inr q" "parse_member alloc parse q = Inr (Parsed x r1)"
      "skip r1 = Inr u" "parse_members alloc parse (length q) [x] u = Inr (Parsed it r)"
      by (auto simp: parse_object_def rbind_eq_Inr peek_Inr and_skip_Inr split: if_splits)
    from parse_members_shorter [OF assms(1) q(4)] skip_shorter [OF q(1)] skip_shorter [OF q(3)] skip_shorter [OF v(2)]
      consumingD [OF assms(1) q(2)] v(1)
    show ?thesis by simp
  qed
qed

lemma parse_object_returns:
  assumes "consuming (parse_member alloc parse)" and "returns_below n (parse_member alloc parse)" and "length v \<le> n"
  shows "parse_object alloc parse v \<noteq> Inl Diverges"
proof
  assume "parse_object alloc parse v = Inl Diverges"
  then obtain cs p q where v: "v = 123 # cs" "skip cs = Inr p" "skip p = Inr q"
      "and_skip (parse_member alloc parse q) (\<lambda>it rest. parse_members alloc parse (length q) [it] rest) = Inl Diverges"
    by (auto simp: parse_object_def peek_Inr split: if_splits)
  have q: "length q < length v" using skip_shorter [OF v(2)] skip_shorter [OF v(3)] v(1) by simp
  with assms(2,3) have "parse_member alloc parse q \<noteq> Inl Diverges" by (simp add: returns_below_def)
  with v(4) obtain x r u where r: "parse_member alloc parse q = Inr (Parsed x r)" "skip r = Inr u"
    "parse_members alloc parse (length q) [x] u = Inl Diverges" by (auto simp: and_skip_Diverges)
  have "length u < length q" using consumingD [OF assms(1) r(1)] skip_shorter [OF r(2)] by simp
  with parse_members_returns [OF assms(1,2), of u "length q"] q assms(3) r(3) show False by simp
qed

lemma parse_value_shorter: "consuming (parse_value alloc fl k)"
proof (induction k)
  case (Suc k)
  show ?case unfolding consuming_def
  proof (intro allI impI)
    fix v it r assume a: "parse_value alloc fl (Suc k) v = Inr (Parsed it r)"
    show "length r < length v"
    proof (cases v)
      case Nil
      with a show ?thesis by (simp add: text_null_def)
    next
      case (Cons c cs)
      note pieces = parse_array_shorter [OF Suc.IH] parse_object_shorter [OF parse_member_shorter [OF Suc.IH]]
      from a show ?thesis
        unfolding Cons
        by (auto simp: rbind_eq_Inr split: if_splits parsed.splits
            dest!: pieces parse_number_shorter parse_string_shorter starts_with_True
            simp: text_null_def text_false_def text_true_def)
    qed
  qed
qed (simp add: consuming_def)

lemma parse_value_returns: "returns_below k (parse_value alloc fl k)"
proof (induction k)
  case (Suc k)
  show ?case unfolding returns_below_def
  proof (intro allI impI notI)
    fix v assume v: "length v < Suc k" and "parse_value alloc fl (Suc k) v = Inl Diverges"
    then show False
      using parse_array_returns [OF parse_value_shorter Suc.IH, of v alloc]
        parse_object_returns [OF parse_member_shorter [OF parse_value_shorter] parse_member_returns [OF Suc.IH], of v]
      by (auto split: if_splits prod.splits)
  qed
qed (simp add: returns_below_def)

section \<open>What the parser makes\<close>

abbreviation well_formed :: "bool \<Rightarrow> cjson \<Rightarrow> bool" where
  "well_formed \<equiv> typed (\<lambda>_ _. True)"

definition makes :: "bool \<Rightarrow> value_parser \<Rightarrow> bool" where
  "makes named parse \<longleftrightarrow> (\<forall>v it r. parse v = Inr (Parsed it r) \<longrightarrow> well_formed named it)"

lemma makesD: "makes named parse \<Longrightarrow> parse v = Inr (Parsed it r) \<Longrightarrow> well_formed named it"
  unfolding makes_def by blast

lemma well_formed_named: "well_formed False it \<Longrightarrow> 0 \<notin> set s \<Longrightarrow> well_formed True (with_name s it)"
  by (cases it) (auto simp: with_name_def)

lemma parse_member_makes: "makes False parse \<Longrightarrow> makes True (parse_member alloc parse)"
  by (auto simp: makes_def parse_member_def and_skip_Inr rbind_eq_Inr split: if_splits
      intro!: well_formed_named dest: parse_string_shorter)

lemma parse_elements_makes:
  "makes False parse \<Longrightarrow> \<forall>c \<in> set its. well_formed False c \<Longrightarrow>
     parse_elements alloc parse k its v = Inr (Parsed it r) \<Longrightarrow> well_formed False it"
proof (induction k arbitrary: its v)
  case (Suc k)
  have "well_formed False it"
    if "parse x = Inr (Parsed y q)" "parse_elements alloc parse k (its @ [y]) p = Inr (Parsed it r)" for x y q p
    using Suc.IH [OF Suc.prems(1) _ that(2)] makesD [OF Suc.prems(1) that(1)] Suc.prems(2) by auto
  with Suc.prems(2,3) show ?case
    by (auto simp: rbind_eq_Inr and_skip_Inr cJSON_types split: if_splits)
qed simp

lemma parse_members_makes:
  "makes True (parse_member alloc parse) \<Longrightarrow> \<forall>c \<in> set its. well_formed True c \<Longrightarrow>
     parse_members alloc parse k its v = Inr (Parsed it r) \<Longrightarrow> well_formed False it"
proof (induction k arbitrary: its v)
  case (Suc k)
  have "well_formed False it"
    if "parse_member alloc parse x = Inr (Parsed y q)" "parse_members alloc parse k (its @ [y]) p = Inr (Parsed it r)" for x y q p
    using Suc.IH [OF Suc.prems(1) _ that(2)] makesD [OF Suc.prems(1) that(1)] Suc.prems(2) by auto
  with Suc.prems(2,3) show ?case
    by (auto simp: rbind_eq_Inr and_skip_Inr cJSON_types split: if_splits)
qed simp

lemma parse_array_makes: "makes False parse \<Longrightarrow> makes False (parse_array alloc parse)"
proof -
  assume m: "makes False parse"
  have "well_formed False it"
    if "parse x = Inr (Parsed y q)" "parse_elements alloc parse k [y] p = Inr (Parsed it r)" for x y q p k it r
    using parse_elements_makes [OF m _ that(2)] makesD [OF m that(1)] by auto
  then show ?thesis
    unfolding makes_def [of False "parse_array alloc parse"]
    by (auto simp: parse_array_def rbind_eq_Inr and_skip_Inr cJSON_types split: if_splits)
qed

lemma parse_object_makes: "makes True (parse_member alloc parse) \<Longrightarrow> makes False (parse_object alloc parse)"
proof -
  assume m: "makes True (parse_member alloc parse)"
  have "well_formed False it"
    if "parse_member alloc parse x = Inr (Parsed y q)" "parse_members alloc parse k [y] p = Inr (Parsed it r)" for x y q p k it r
    using parse_members_makes [OF m _ that(2)] makesD [OF m that(1)] by auto
  then show ?thesis
    unfolding makes_def [of False "parse_object alloc parse"]
    by (auto simp: parse_object_def rbind_eq_Inr and_skip_Inr cJSON_types split: if_splits)
qed

lemma parse_value_makes: "makes False (parse_value alloc fl k)"
proof (induction k)
  case (Suc k)
  show ?case unfolding makes_def
  proof (intro allI impI)
    fix v it r assume a: "parse_value alloc fl (Suc k) v = Inr (Parsed it r)"
    then show "well_formed False it"
      by (cases v) (auto simp: rbind_eq_Inr cJSON_types split: if_splits
          dest!: makesD [OF parse_array_makes [OF Suc.IH]] makesD [OF parse_object_makes [OF parse_member_makes [OF Suc.IH]]]
            parse_string_shorter parse_number_shorter)
  qed
qed (simp add: makes_def)

section \<open>Texts without a backslash\<close>

text \<open>The rest of a text that ends with its only zero and has no backslash.\<close>

definition plain :: "wchar list \<Rightarrow> bool" where
  "plain v \<longleftrightarrow> v \<noteq> [] \<and> last v = 0 \<and> 92 \<notin> set v"

lemma plain_Cons: "plain (c # cs) \<Longrightarrow> c \<noteq> 0 \<Longrightarrow> plain cs"
  by (auto simp: plain_def split: if_splits)

lemma plain_cases: "plain v \<Longrightarrow> \<exists>c cs. v = c # cs \<and> c \<noteq> 92 \<and> (c = 0 \<or> plain cs)"
  by (cases v) (auto simp: plain_def split: if_splits)

lemma plain_peek: "plain v \<Longrightarrow> \<exists>c. peek v = Inr c \<and> c \<noteq> 92"
  using plain_cases by fastforce

lemma skip_plain: "plain v \<Longrightarrow> \<exists>p. skip v = Inr p \<and> plain p"
proof (induction v)
  case (Cons c cs)
  then show ?case using plain_Cons [OF Cons.prems] by auto
qed (simp add: plain_def)

lemma starts_with_plain:
  "plain v \<Longrightarrow> 0 \<notin> set w \<Longrightarrow> \<exists>b. starts_with w v = Inr b \<and> (b \<longrightarrow> plain (drop (length w) v))"
proof (induction w v rule: starts_with.induct)
  case (2 c cs)
  then show ?case by (simp add: plain_def)
next
  case (3 c cs v vs)
  then show ?case by (cases "c = v") (auto dest: plain_Cons)
qed auto

lemma digit_loop_plain: "plain v \<Longrightarrow> \<exists>s' r. digit_loop f s v = Inr (s', r) \<and> plain r"
proof (induction f s v rule: digit_loop.induct)
  case (2 f s c cs)
  show ?case
  proof (cases "is_digit c")
    case True
    then have "c \<noteq> 0" by auto
    with 2 True plain_Cons show ?thesis by simp
  qed (use 2 in simp)
qed (simp add: plain_def)

lemma string_plain:
  "plain v \<Longrightarrow> \<exists>n. string_len v = Inr n \<and>
     (\<forall>out i. i + n < length out \<longrightarrow> (\<exists>r new. string_loop v out i
        = Inr (r, take i out @ map Some new @ drop (i + n) out, i + n) \<and> length new = n \<and> plain r))"
proof (induction v)
  case (Cons c cs)
  show ?case
  proof (cases "c = 34 \<or> c = 0")
    case True
    with Cons.prems show ?thesis by auto
  next
    case False
    then have c: "c \<noteq> 92" "plain cs" using Cons.prems plain_Cons by (auto simp: plain_def)
    with Cons.IH obtain n where n: "string_len cs = Inr n" and loop: "\<And>out i. i + n < length out \<Longrightarrow>
        (\<exists>r new. string_loop cs out i = Inr (r, take i out @ map Some new @ drop (i + n) out, i + n)
           \<and> length new = n \<and> plain r)" by auto
    have "\<exists>r new. string_loop (c # cs) out i
        = Inr (r, take i out @ map Some new @ drop (i + Suc n) out, i + Suc n) \<and> length new = Suc n \<and> plain r"
      if room: "i + Suc n < length out" for out i
    proof -
      let ?out = "take i out @ [Some c] @ drop (i + 1) out"
      have "i + 1 + n < length ?out" using room by simp
      from loop [OF this] obtain r new where r: "string_loop cs ?out (i + 1)
          = Inr (r, take (i + 1) ?out @ map Some new @ drop (i + 1 + n) ?out, i + 1 + n)" "length new = n" "plain r"
        by blast
      have "take (i + 1) ?out = take i out @ [Some c]" "drop (i + 1 + n) ?out = drop (i + Suc n) out"
        using room by (simp_all add: add.commute)
      moreover have "mem_write out i [Some c] = Inr ?out" using room by (simp add: mem_write_def)
      ultimately show ?thesis using r False c(1) by (intro exI [of _ r] exI [of _ "c # new"]) simp
    qed
    with n False c(1) show ?thesis by simp
  qed
qed (simp add: plain_def)

lemma c_wide_plain: "0 \<in> set b \<Longrightarrow> \<exists>s. c_wide (map Some b) = Inr s"
  by (induction b) auto

lemma parse_string_plain:
  assumes "plain v"
  shows "\<exists>x. parse_string alloc v = Inr x \<and> (\<forall>s r. x = Parsed s r \<longrightarrow> plain r)"
proof -
  from plain_cases [OF assms] obtain c cs where v: "v = c # cs" "c = 0 \<or> plain cs" by blast
  show ?thesis
  proof (cases "c = 34")
    case False
    with v show ?thesis by (simp add: parse_string_def)
  next
    case True
    with v have "plain cs" by auto
    from string_plain [OF this] obtain n where n: "string_len cs = Inr n" and loop: "\<And>out i. i + n < length out \<Longrightarrow>
        (\<exists>r new. string_loop cs out i = Inr (r, take i out @ map Some new @ drop (i + n) out, i + n)
           \<and> length new = n \<and> plain r)" by auto
    have "0 + n < length (replicate (n + 1) None :: wchar option list)" by simp
    from loop [OF this] obtain r new where "string_loop cs (replicate (n + 1) None) 0
        = Inr (r, take 0 (replicate (n + 1) None) @ map Some new @ drop (0 + n) (replicate (n + 1) None), 0 + n)"
      and new: "length new = n" "plain r" by blast
    moreover have "drop (0 + n) (replicate (n + 1) (None :: wchar option)) = [None]" unfolding drop_replicate by simp
    ultimately have r: "string_loop cs (replicate (n + 1) None) 0 = Inr (r, map Some new @ [None], n)"
      "length new = n" "plain r" by (simp_all del: replicate_Suc)
    from c_wide_plain [of "new @ [0]"] obtain s where s: "c_wide (map Some new @ [Some 0]) = Inr s" by auto
    from plain_cases [OF r(3)] obtain d ds where d: "r = d # ds" "d = 0 \<or> plain ds" by blast
    have "mem_write (map Some new @ [None]) n [Some 0] = Inr (map Some new @ [Some 0])"
      using r(2) by (simp add: mem_write_def)
    then show ?thesis
      using n r s d True v by (auto simp: parse_string_def simp del: replicate_Suc)
  qed
qed

lemma integer_part_plain: "plain v \<Longrightarrow> \<exists>n r. integer_part fl v = Inr (n, r) \<and> plain r"
proof -
  assume v: "plain v"
  obtain c cs where c: "v = c # cs" "c = 0 \<or> plain cs" using plain_cases [OF v] by blast
  obtain w where w: "w = (if c = 48 then cs else v)" by simp
  with c v have "plain w" by auto
  from plain_peek [OF this] digit_loop_plain [OF this, of "double_digit fl" 0] this show ?thesis
    using c by (auto simp: integer_part_def w Let_def split: if_splits)
qed

lemma fraction_part_plain: "plain v \<Longrightarrow> \<exists>m r. fraction_part fl n v = Inr (m, r) \<and> plain r"
proof -
  assume v: "plain v"
  obtain c cs where c: "v = c # cs" "c = 0 \<or> plain cs" using plain_cases [OF v] by blast
  show ?thesis
  proof (cases "c = 46")
    case True
    then have "plain cs" using c by auto
    from digit_loop_plain [OF this, of "\<lambda>(n, scale) d. (double_digit fl n d, scale - 1)" "(n, 0 :: int)"] obtain m r where
      "digit_loop (\<lambda>(n, scale) d. (double_digit fl n d, scale - 1)) (n, 0 :: int) cs = Inr (m, r)" "plain r" by blast
    with plain_peek [OF \<open>plain cs\<close>] v True c show ?thesis by (cases m) (auto simp: fraction_part_def)
  qed (use v c in \<open>simp add: fraction_part_def\<close>)
qed

lemma exponent_part_plain: "plain v \<Longrightarrow> \<exists>m r. exponent_part v = Inr (m, r) \<and> plain r"
proof -
  assume v: "plain v"
  obtain c cs where c: "v = c # cs" "c = 0 \<or> plain cs" using plain_cases [OF v] by blast
  show ?thesis
  proof (cases "c = 101 \<or> c = 69")
    case True
    then have cs: "plain cs" using c by auto
    obtain d ds where d: "cs = d # ds" "d = 0 \<or> plain ds" using plain_cases [OF cs] by blast
    obtain w where w: "w = (if d = 43 \<or> d = 45 then ds else cs)" by simp
    with d cs have "plain w" by auto
    from digit_loop_plain [OF this, of exponent_digit 0] obtain m r where "digit_loop exponent_digit 0 w = Inr (m, r)" "plain r" by blast
    then show ?thesis
      using True c(1) d(1) w by (auto simp: exponent_part_def Let_def split: if_splits)
  qed (use v c in \<open>simp add: exponent_part_def\<close>)
qed

lemma parse_number_plain: "plain v \<Longrightarrow> \<exists>it r. parse_number fl v = Inr (it, r) \<and> plain r"
proof -
  assume v: "plain v"
  obtain c cs where c: "v = c # cs" "c = 0 \<or> plain cs" using plain_cases [OF v] by blast
  obtain num where num: "num = (if c = 45 then cs else v)" by simp
  with c v have "plain num" by auto
  from integer_part_plain [OF this] obtain n num1 where 1: "integer_part fl num = Inr (n, num1)" "plain num1" by blast
  from fraction_part_plain [OF 1(2)] obtain m num2 where 2: "fraction_part fl n num1 = Inr (m, num2)" "plain num2" by blast
  from exponent_part_plain [OF 2(2)] obtain e num3 where 3: "exponent_part num2 = Inr (e, num3)" "plain num3" by blast
  from 1 2 3 show ?thesis
    using c(1) num by (cases "c = 45"; cases m) (auto simp: parse_number_def Let_def)
qed

text \<open>A parser that runs on such a text only runs out of fuel or answers, with a rest of the same kind.\<close>

definition safe :: "value_parser \<Rightarrow> bool" where
  "safe parse \<longleftrightarrow> (\<forall>v. plain v \<longrightarrow> parse v = Inl Diverges \<or> (\<exists>ep. parse v = Inr (Rejected ep))
     \<or> (\<exists>it r. parse v = Inr (Parsed it r) \<and> plain r))"

lemma safe_cases:
  assumes "safe parse" and "plain v"
  obtains "parse v = Inl Diverges" | ep where "parse v = Inr (Rejected ep)"
    | it r where "parse v = Inr (Parsed it r)" "plain r"
  using assms unfolding safe_def by blast

lemma parse_elements_safe:
  assumes "safe parse"
  shows "plain v \<Longrightarrow> parse_elements alloc parse k its v = Inl Diverges
    \<or> (\<exists>ep. parse_elements alloc parse k its v = Inr (Rejected ep))
    \<or> (\<exists>it r. parse_elements alloc parse k its v = Inr (Parsed it r) \<and> plain r)"
proof (induction k arbitrary: its v)
  case (Suc k)
  from plain_cases [OF Suc.prems] obtain c cs where v: "v = c # cs" "c = 0 \<or> plain cs" by blast
  show ?case
  proof (cases "c = 44")
    case True
    then obtain p where p: "skip cs = Inr p" "plain p" using v skip_plain by auto
    from assms p(2) show ?thesis
    proof (cases rule: safe_cases)
      case (3 it r)
      from skip_plain [OF 3(2)] obtain u where "skip r = Inr u" "plain u" by blast
      with Suc.IH [of u] 3 show ?thesis using True v(1) p(1) by (simp add: and_skip_cases)
    qed (use True v(1) p(1) in \<open>simp_all add: and_skip_cases\<close>)
  qed (use v in auto)
qed simp

lemma parse_member_safe: "safe parse \<Longrightarrow> safe (parse_member alloc parse)"
proof -
  assume safe: "safe parse"
  show ?thesis unfolding safe_def
  proof (intro allI impI)
    fix v assume "plain v"
    from parse_string_plain [OF this, of alloc] obtain x where x: "parse_string alloc v = Inr x"
      "\<forall>s r. x = Parsed s r \<longrightarrow> plain r" by blast
    show "parse_member alloc parse v = Inl Diverges \<or> (\<exists>ep. parse_member alloc parse v = Inr (Rejected ep))
        \<or> (\<exists>it r. parse_member alloc parse v = Inr (Parsed it r) \<and> plain r)"
    proof (cases x)
      case (Parsed s r)
      with x(2) skip_plain obtain p where p: "skip r = Inr p" "plain p" by blast
      from plain_cases [OF p(2)] obtain c cs where c: "p = c # cs" "c = 0 \<or> plain cs" by blast
      show ?thesis
      proof (cases "c = 58")
        case True
        with c skip_plain [of cs] obtain q where q: "skip cs = Inr q" "plain q" by auto
        from safe q(2) show ?thesis
          by (cases rule: safe_cases) (use x(1) Parsed p(1) c(1) True q(1) in \<open>simp_all add: parse_member_def and_skip_cases\<close>)
      qed (use x(1) Parsed p(1) c(1) in \<open>simp add: parse_member_def and_skip_cases\<close>)
    qed (use x(1) in \<open>simp add: parse_member_def and_skip_cases\<close>)
  qed
qed

lemma parse_members_safe:
  assumes "safe (parse_member alloc parse)"
  shows "plain v \<Longrightarrow> parse_members alloc parse k its v = Inl Diverges
    \<or> (\<exists>ep. parse_members alloc parse k its v = Inr (Rejected ep))
    \<or> (\<exists>it r. parse_members alloc parse k its v = Inr (Parsed it r) \<and> plain r)"
proof (induction k arbitrary: its v)
  case (Suc k)
  from plain_cases [OF Suc.prems] obtain c cs where v: "v = c # cs" "c = 0 \<or> plain cs" by blast
  show ?case
  proof (cases "c = 44")
    case True
    then obtain p where p: "skip cs = Inr p" "plain p" using v skip_plain by auto
    from assms p(2) show ?thesis
    proof (cases rule: safe_cases)
      case (3 it r)
      from skip_plain [OF 3(2)] obtain u where "skip r = Inr u" "plain u" by blast
      with Suc.IH [of u] 3 show ?thesis using True v(1) p(1) by (simp add: and_skip_cases)
    qed (use True v(1) p(1) in \<open>simp_all add: and_skip_cases\<close>)
  qed (use v in auto)
qed simp

lemma parse_array_safe: "safe parse \<Longrightarrow> safe (parse_array alloc parse)"
proof -
  assume safe: "safe parse"
  show ?thesis unfolding safe_def
  proof (intro allI impI)
    fix v assume "plain v"
    from plain_cases [OF this] obtain c cs where v: "v = c # cs" "c = 0 \<or> plain cs" by blast
    show "parse_array alloc parse v = Inl Diverges \<or> (\<exists>ep. parse_array alloc parse v = Inr (Rejected ep))
        \<or> (\<exists>it r. parse_array alloc parse v = Inr (Parsed it r) \<and> plain r)"
    proof (cases "c = 91")
      case True
      with v skip_plain [of cs] obtain p where p: "skip cs = Inr p" "plain p" by auto
      from plain_cases [OF p(2)] obtain d ds where d: "p = d # ds" "d = 0 \<or> plain ds" by blast
      from skip_plain [OF p(2)] obtain q where q: "skip p = Inr q" "plain q" by blast
      from safe q(2) show ?thesis
      proof (cases rule: safe_cases)
        case (3 it r)
        from skip_plain [OF 3(2)] obtain u where "skip r = Inr u" "plain u" by blast
        with parse_elements_safe [OF safe, of u alloc "length q" "[it]"] 3 show ?thesis
          using v(1) True p d q by (auto simp: parse_array_def and_skip_cases)
      qed (use v(1) True p d q in \<open>auto simp: parse_array_def and_skip_cases\<close>)
    qed (use v(1) in \<open>simp add: parse_array_def\<close>)
  qed
qed

lemma parse_object_safe: "safe parse \<Longrightarrow> safe (parse_object alloc parse)"
proof -
  assume "safe parse"
  then have safe: "safe (parse_member alloc parse)" by (rule parse_member_safe)
  show ?thesis unfolding safe_def
  proof (intro allI impI)
    fix v assume "plain v"
    from plain_cases [OF this] obtain c cs where v: "v = c # cs" "c = 0 \<or> plain cs" by blast
    show "parse_object alloc parse v = Inl Diverges \<or> (\<exists>ep. parse_object alloc parse v = Inr (Rejected ep))
        \<or> (\<exists>it r. parse_object alloc parse v = Inr (Parsed it r) \<and> plain r)"
    proof (cases "c = 123")
      case True
      with v skip_plain [of cs] obtain p where p: "skip cs = Inr p" "plain p" by auto
      from plain_cases [OF p(2)] obtain d ds where d: "p = d # ds" "d = 0 \<or> plain ds" by blast
      from skip_plain [OF p(2)] obtain q where q: "skip p = Inr q" "plain q" by blast
      from safe q(2) show ?thesis
      proof (cases rule: safe_cases)
        case (3 it r)
        from skip_plain [OF 3(2)] obtain u where "skip r = Inr u" "plain u" by blast
        with parse_members_safe [OF safe, of u "length q" "[it]"] 3 show ?thesis
          using v(1) True p d q by (auto simp: parse_object_def and_skip_cases)
      qed (use v(1) True p d q in \<open>auto simp: parse_object_def and_skip_cases\<close>)
    qed (use v(1) in \<open>simp add: parse_object_def\<close>)
  qed
qed

lemma words:
  "0 \<notin> set text_null" "0 \<notin> set text_false" "0 \<notin> set text_true"
  "length text_null = 4" "length text_false = 5" "length text_true = 4"
  by (simp_all add: text_null_def text_false_def text_true_def)

lemma parse_value_safe: "safe (parse_value alloc fl k)"
proof (induction k)
  case (Suc k)
  show ?case unfolding safe_def
  proof (intro allI impI)
    fix v assume v: "plain v"
    obtain n where n: "starts_with text_null v = Inr n" "n \<longrightarrow> plain (drop 4 v)"
      using starts_with_plain [OF v words(1)] by (auto simp: words)
    obtain f where f: "starts_with text_false v = Inr f" "f \<longrightarrow> plain (drop 5 v)"
      using starts_with_plain [OF v words(2)] by (auto simp: words)
    obtain t where t: "starts_with text_true v = Inr t" "t \<longrightarrow> plain (drop 4 v)"
      using starts_with_plain [OF v words(3)] by (auto simp: words)
    obtain c where c: "peek v = Inr c" using plain_peek [OF v] by blast
    obtain x where x: "parse_string alloc v = Inr x" "\<forall>s r. x = Parsed s r \<longrightarrow> plain r"
      using parse_string_plain [OF v] by blast
    obtain it r where num: "parse_number fl v = Inr (it, r)" "plain r" using parse_number_plain [OF v] by blast
    show "parse_value alloc fl (Suc k) v = Inl Diverges \<or> (\<exists>ep. parse_value alloc fl (Suc k) v = Inr (Rejected ep))
        \<or> (\<exists>it r. parse_value alloc fl (Suc k) v = Inr (Parsed it r) \<and> plain r)"
      using parse_array_safe [OF Suc.IH, of alloc] parse_object_safe [OF Suc.IH, of alloc] n f t c x num v
      unfolding safe_def by (cases x) auto
  qed
qed (simp add: safe_def)

lemma cJSON_ParseWithOpts_plain:
  assumes "plain v"
  shows "\<exists>x. cJSON_ParseWithOpts alloc fl v require_null = Inr x"
proof -
  from skip_plain [OF assms] obtain p where p: "skip v = Inr p" "plain p" by blast
  have "parse_value alloc fl (enough_fuel v) p \<noteq> Inl Diverges"
    using parse_value_returns [of "enough_fuel v" alloc fl] skip_shorter [OF p(1)]
    by (simp add: returns_below_def enough_fuel_def del: parse_value.simps)
  moreover have "\<exists>u c. skip r = Inr u \<and> peek u = Inr c" if "plain r" for r
    using skip_plain [OF that] plain_peek by blast
  ultimately show ?thesis
    using p(1) by (cases rule: safe_cases [OF parse_value_safe [of alloc fl "enough_fuel v"] p(2)])
      (fastforce simp: cJSON_ParseWithOpts_def simp del: parse_value.simps)+
qed

end
