(* ===== verification/JsonRoundTrip.thy ===== *)
theory JsonRoundTrip
  imports JsonText JsonTotal
begin

text \<open>
  Parsing what was printed gives the item back, formatted or not, for every item the parser itself could
  have made whose numbers are integers of 32 bits.
\<close>

section \<open>Strings\<close>

lemma unat_small_wchar: "n < 65536 \<Longrightarrow> unat (of_nat n :: wchar) = n"
  by (simp add: unsigned_of_nat take_bit_nat_eq_self)

lemma hex_digit_char: "d < 16 \<Longrightarrow> hex_digit (hex_char d) = Some d"
proof -
  assume d: "d < 16"
  have "unat (48 + of_nat d :: wchar) = 48 + d" "unat (87 + of_nat d :: wchar) = 87 + d"
    using d by (simp_all add: unat_word_ariths unat_small_wchar)
  with d show ?thesis
    by (cases "d < 10") (simp_all add: hex_digit_def hex_char_def word_le_nat_alt)
qed

lemma hex_char_plain: "d < 16 \<Longrightarrow> hex_char d \<noteq> 34 \<and> hex_char d \<noteq> 92 \<and> hex_char d \<noteq> 0"
  using hex_digit_char [of d] by (auto simp: hex_digit_def word_le_nat_alt)

lemma hex_digits_chars:
  assumes "a < 16" "b < 16" "c < 16" "d < 16"
  shows "hex_digits 4 0 (hex_char a # hex_char b # hex_char c # hex_char d # x) = Inr (((a * 16 + b) * 16 + c) * 16 + d)"
proof -
  have four: "4 = Suc (Suc (Suc (Suc 0)))" by simp
  show ?thesis unfolding four hex_digits.simps using assms by (simp add: hex_digit_char)
qed

lemma nibbles:
  assumes "n < 65536"
  shows "((n div 4096 mod 16 * 16 + n div 256 mod 16) * 16 + n div 16 mod 16) * 16 + n mod 16 = (n :: nat)"
proof -
  have "n div 256 = n div 16 div 16" "n div 4096 = n div 16 div 16 div 16" by (simp_all add: div_mult2_eq [symmetric])
  moreover have "n div 16 div 16 div 16 mod 16 = n div 16 div 16 div 16"
    using assms by (simp add: div_mult2_eq [symmetric] less_mult_imp_div_less)
  ultimately show ?thesis by (simp only: div_mult_mod_eq)
qed

lemma parse_u_escape: "parse_hex4 (drop 1 (u_escape c @ x)) = Inr (of_nat (unat c))"
proof -
  have "unat c < 65536" using unsigned_less [of c] by simp
  then show ?thesis
    using nibbles [of "unat c"] hex_digits_chars [of "unat c div 4096 mod 16" "unat c div 256 mod 16" "unat c div 16 mod 16" "unat c mod 16" x]
    by (simp add: u_escape_def Let_def parse_hex4_def)
qed

lemma hex_escape_u_escape:
  assumes "unat c < 32" and "c \<noteq> 0"
  shows "hex_escape (u_escape c @ x) = Inr ([c], 4)"
proof -
  let ?u = "of_nat (unat c) :: dword"
  have u: "unat ?u = unat c" by (rule unat_of_nat_dword) (use assms(1) in simp)
  then have "?u < 0x80" "?u \<noteq> 0" "\<not> 0xDC00 \<le> ?u" "\<not> 0xD800 \<le> ?u"
    using assms by (auto simp: word_less_nat_alt word_le_nat_alt unat_eq_0)
  moreover have "ucast ?u = c" using u by (simp add: word_unat_eq_iff unsigned_ucast_eq take_bit_word_eq_self)
  ultimately show ?thesis
    by (simp only: hex_escape_def parse_u_escape rbind_Inr) (simp add: utf8_bytes_def)
qed

lemma string_len_u_escape:
  "string_len (92 # u_escape c @ x) = rbind (string_len x) (\<lambda>n. Inr (n + 5))"
proof -
  have plain: "hex_char (n mod 16) \<noteq> 34 \<and> hex_char (n mod 16) \<noteq> 92 \<and> hex_char (n mod 16) \<noteq> 0" for n
    by (rule hex_char_plain) simp
  show ?thesis by (cases "string_len x") (simp_all add: u_escape_def Let_def plain)
qed

lemma u_escape_first: "\<exists>r. u_escape c = 117 # r \<and> length r = 4"
  by (simp add: u_escape_def Let_def)

lemma small_char: "\<not> 31 < c \<longleftrightarrow> unat c < 32" for c :: wchar
  by (auto simp: word_less_nat_alt)

lemma escape_char_cases:
  "c \<noteq> 0 \<Longrightarrow> (escape_char c = [c] \<and> c \<noteq> 34 \<and> c \<noteq> 92)
    \<or> (\<exists>e. escape_char c = [92, e] \<and> e \<noteq> 117 \<and> unescaped e = c)
    \<or> (escape_char c = 92 # u_escape c \<and> unat c < 32)"
  using small_char [of c] by (auto simp: escape_char_def unescaped_def)

lemma string_len_escape:
  assumes "c \<noteq> 0"
  shows "\<exists>k. string_len (escape_char c @ x) = rbind (string_len x) (\<lambda>n. Inr (n + k)) \<and> 0 < k"
  using escape_char_cases [OF assms]
proof (elim disjE exE conjE)
  assume "escape_char c = [c]" "c \<noteq> 34" "c \<noteq> 92"
  with assms show ?thesis by (intro exI [of _ 1]) (cases "string_len x"; simp)
next
  fix e assume "escape_char c = [92, e]"
  with assms show ?thesis by (intro exI [of _ 1]) (cases "string_len x"; simp)
next
  assume "escape_char c = 92 # u_escape c"
  then show ?thesis using string_len_u_escape [of c x] by (intro exI [of _ 5]) simp
qed

lemma string_loop_escape:
  assumes "c \<noteq> 0"
  shows "string_loop (escape_char c @ x) out i = rbind (mem_write out i [Some c]) (\<lambda>out. string_loop x out (i + 1))"
  using escape_char_cases [OF assms]
proof (elim disjE exE conjE)
  assume "escape_char c = [c]" "c \<noteq> 34" "c \<noteq> 92"
  with assms show ?thesis by simp
next
  fix e assume "escape_char c = [92, e]" "e \<noteq> 117" "unescaped e = c"
  then show ?thesis by simp
next
  assume e: "escape_char c = 92 # u_escape c" and c: "unat c < 32"
  obtain r where r: "u_escape c = 117 # r" "length r = 4" using u_escape_first by blast
  show ?thesis
    using hex_escape_u_escape [OF c assms, of x] r by (simp add: e)
qed

lemma string_body_len:
  "0 \<notin> set s \<Longrightarrow> \<exists>n \<ge> length s. string_len (concat (map escape_char s) @ 34 # r) = Inr n"
proof (induction s)
  case (Cons c s)
  then obtain n where "length s \<le> n" "string_len (concat (map escape_char s) @ 34 # r) = Inr n" by auto
  moreover from Cons.prems have "c \<noteq> 0" by auto
  with string_len_escape [of c "concat (map escape_char s) @ 34 # r"] obtain k where
    "string_len (escape_char c @ concat (map escape_char s) @ 34 # r)
       = rbind (string_len (concat (map escape_char s) @ 34 # r)) (\<lambda>n. Inr (n + k))" "0 < k" by auto
  ultimately show ?case by (intro exI [of _ "n + k"]) simp
qed simp

lemma string_body_loop:
  "0 \<notin> set s \<Longrightarrow> i + length s \<le> length out \<Longrightarrow>
     string_loop (concat (map escape_char s) @ 34 # r) out i
       = Inr (34 # r, take i out @ map Some s @ drop (i + length s) out, i + length s)"
proof (induction s arbitrary: out i)
  case (Cons c s)
  let ?out = "take i out @ [Some c] @ drop (i + 1) out"
  from Cons.prems have "mem_write out i [Some c] = Inr ?out" by (simp add: mem_write_def)
  moreover have "string_loop (concat (map escape_char s) @ 34 # r) ?out (i + 1)
      = Inr (34 # r, take (i + 1) ?out @ map Some s @ drop (i + 1 + length s) ?out, i + 1 + length s)"
    by (rule Cons.IH) (use Cons.prems in auto)
  moreover have "take (i + 1) ?out = take i out @ [Some c]" "drop (i + 1 + length s) ?out = drop (i + Suc (length s)) out"
    using Cons.prems by (simp_all add: add.commute)
  ultimately show ?case
    using Cons.prems string_loop_escape [of c "concat (map escape_char s) @ 34 # r" out i]
    by auto
qed simp

lemma parse_string_text:
  assumes "\<forall>n. alloc n" and "0 \<notin> set s"
  shows "parse_string alloc (string_text s @ r) = Inr (Parsed s r)"
proof -
  obtain n where n: "length s \<le> n" "string_len (concat (map escape_char s) @ 34 # r) = Inr n"
    using string_body_len [OF assms(2)] by blast
  let ?out = "replicate (n + 1) None :: wchar option list"
  have loop: "string_loop (concat (map escape_char s) @ 34 # r) ?out 0
      = Inr (34 # r, map Some s @ replicate (n + 1 - length s) None, length s)"
    using string_body_loop [OF assms(2), of 0 ?out r] n(1) by (simp del: replicate_Suc)
  have "mem_write (map Some s @ replicate (n + 1 - length s) None) (length s) [Some 0]
      = Inr (map Some (s @ [0]) @ replicate (n - length s) None)"
    using n(1) by (simp add: mem_write_def)
  then show ?thesis
    using n loop c_wide_text [OF assms(2)] assms(1) [rule_format, of "2 * (n + 1)"]
    by (simp add: parse_string_def string_text_def del: replicate_Suc)
qed

section \<open>Numbers\<close>

lemma digit_loop_append:
  "(\<forall>x \<in> set xs. is_digit x) \<Longrightarrow>
     digit_loop f s (xs @ r) = digit_loop f (foldl f s (map (\<lambda>c. unat c - 48) xs)) r"
  by (induction xs arbitrary: s) auto

lemma digit_value: "d < 10 \<Longrightarrow> unat (48 + of_nat d :: wchar) = 48 + d"
  by (simp add: unat_word_ariths unat_small_wchar)

lemma digits_value:
  assumes "exact_integers fl"
  shows "n < 2 ^ 32 \<Longrightarrow> foldl (double_digit fl) 0 (map (\<lambda>c. unat c - 48) (digits_of n)) = of_nat n"
proof (induction n rule: digits_of.induct)
  case (1 n)
  show ?case
  proof (cases "n < 10")
    case True
    then show ?thesis
      using double_digit_nat [OF assms, of 0 n] by (subst digits_of.simps) (simp add: digit_value)
  next
    case False
    have "n div 10 * 10 + n mod 10 = n" by simp
    then show ?thesis
      using 1 False double_digit_nat [OF assms, of "n div 10" "n mod 10"]
      by (subst digits_of.simps) (simp add: digit_value)
  qed
qed

lemma digits_of_first: "0 < n \<Longrightarrow> \<exists>c r. digits_of n = c # r \<and> 49 \<le> c \<and> c \<le> 57"
proof (induction n rule: digits_of.induct)
  case (1 n)
  show ?case
  proof (cases "n < 10")
    case True
    then show ?thesis
      using 1(2) by (subst digits_of.simps) (auto simp: word_le_nat_alt digit_value)
  next
    case False
    then obtain c r where "digits_of (n div 10) = c # r" "49 \<le> c" "c \<le> 57" using 1(1) by fastforce
    then show ?thesis using False by (subst digits_of.simps) auto
  qed
qed

text \<open>Characters that may follow a number.\<close>

definition ends_number :: "wchar \<Rightarrow> bool" where
  "ends_number c \<longleftrightarrow> \<not> is_digit c \<and> c \<noteq> 46 \<and> c \<noteq> 101 \<and> c \<noteq> 69"

text \<open>The steps of \<^verbatim>\<open>parse_number\<close> behind the sign.\<close>

lemma parse_number_integer:
  assumes fl: "exact_integers fl" and n: "\<bar>n\<bar> < 2 ^ 32" "n \<noteq> 0" and t: "ends_number t"
  shows "parse_number fl (decimal n @ t # r)
    = Inr (CJSON cJSON_Number None (double_to_int (of_int n)) (of_int n) None [], t # r)"
proof -
  let ?m = "nat \<bar>n\<bar>"
  obtain c cs where ds: "digits_of ?m = c # cs" "49 \<le> c" "c \<le> 57" using digits_of_first [of ?m] n(2) by auto
  then have c: "c \<noteq> 45" "c \<noteq> 48" by (auto simp: word_le_nat_alt)
  have "\<forall>x \<in> set (c # cs). is_digit x" using digits_of_range ds(1) by metis
  from digit_loop_append [OF this, of "double_digit fl" 0 "t # r"] digits_value [OF fl, of ?m] n(1) ds(1) t
  have loop: "digit_loop (double_digit fl) 0 (c # cs @ t # r) = Inr (of_nat ?m, t # r)"
    by (simp add: ends_number_def del: digit_loop.simps) (simp add: ends_number_def)
  have exact: "rounded fl (of_int n) = of_int n" using n(1) by (intro rounded_int [OF fl]) simp
  have pow: "pow10 fl 0 = 1" using fl by (simp add: exact_integers_def)
  show ?thesis
  proof (cases "n < 0")
    case True
    then have "decimal n = 45 # c # cs" using ds(1) by (simp add: decimal_def)
    moreover have "- of_nat ?m = (of_int n :: rat)" using True by simp
    ultimately show ?thesis
      using c ds t loop exact pow by (simp add: parse_number_def number_parts Let_def ends_number_def)
  next
    case False
    then have "decimal n = c # cs" using ds(1) n(2) by (simp add: decimal_def)
    moreover have "of_nat ?m = (of_int n :: rat)" using False by simp
    ultimately show ?thesis
      using c ds t loop exact pow by (simp add: parse_number_def number_parts Let_def ends_number_def)
  qed
qed

lemma parse_number_zero:
  assumes "exact_integers fl" and "ends_number t"
  shows "parse_number fl (48 # t # r) = Inr (CJSON cJSON_Number None 0 0 None [], t # r)"
proof -
  have "rounded fl 0 = 0" using rounded_int [OF assms(1), of 0] by simp
  moreover have "\<not> (49 \<le> t \<and> t \<le> 57)" using assms(2) by (auto simp: ends_number_def is_digit_def word_le_nat_alt)
  ultimately show ?thesis
    using assms(2) by (simp add: parse_number_def number_parts Let_def ends_number_def double_to_int_def) 
qed

section \<open>Values\<close>

text \<open>Items whose numbers are integers of 32 bits.\<close>

abbreviation canonical :: "bool \<Rightarrow> cjson \<Rightarrow> bool" where
  "canonical \<equiv> typed (\<lambda>vi vd. - (2 ^ 31) \<le> vi \<and> vi < 2 ^ 31 \<and> vd = of_int vi)"

definition unnamed :: "cjson \<Rightarrow> cjson" where
  "unnamed it = CJSON (jtype it) (valuestring it) (valueint it) (valuedouble it) None (child it)"

lemma canonical_unnamed: "canonical False it \<Longrightarrow> unnamed it = it"
  by (cases it) (simp add: unnamed_def)

lemma canonical_named: "canonical True it \<Longrightarrow> \<exists>s. jstring it = Some s \<and> 0 \<notin> set s \<and> with_name s (unnamed it) = it"
  by (cases it) (auto simp: unnamed_def with_name_def dest: string_okD)

lemma kind_small: "ty \<in> {0..6} \<Longrightarrow> ty AND 255 = (ty :: int)"
proof -
  assume "ty \<in> {0..6}"
  then have "ty = 0 \<or> ty = 1 \<or> ty = 2 \<or> ty = 3 \<or> ty = 4 \<or> ty = 5 \<or> ty = 6" by auto
  then show ?thesis by (elim disjE) simp_all
qed

lemma canonical_number:
  assumes "exact_integers fl" and "- (2 ^ 31) \<le> vi" and "vi < 2 ^ 31"
  shows "print_number fl (CJSON ty vs vi (of_int vi) nm cs)
    = (if vi = 0 then (2, [48, 0]) else (21, decimal vi @ [0]))"
proof -
  have "rounded fl 0 = 0" using rounded_int [OF assms(1), of 0] by simp
  moreover have "(of_int vi :: rat) \<le> 2147483647" "- 2147483648 \<le> (of_int vi :: rat)"
    using assms(2,3) of_int_le_iff [of vi 2147483647, where 'a = rat] of_int_le_iff [of "- 2147483648" vi, where 'a = rat]
    by simp_all
  ultimately show ?thesis by (simp add: print_number_def DBL_EPSILON_def INT_MAX_def INT_MIN_def)
qed

lemma digits_of_length: "n < 10 ^ Suc k \<Longrightarrow> length (digits_of n) \<le> Suc k"
proof (induction k arbitrary: n)
  case 0
  then show ?case by (subst digits_of.simps) simp
next
  case (Suc k)
  then have "n div 10 < 10 ^ Suc k" by (simp add: div_less_iff_less_mult)
  with Suc.IH show ?case by (subst digits_of.simps) simp
qed

lemma decimal_length: "\<bar>n\<bar> < 2 ^ 32 \<Longrightarrow> length (decimal n) \<le> 11"
proof -
  assume "\<bar>n\<bar> < 2 ^ 32"
  then have "nat \<bar>n\<bar> < 10 ^ Suc 9" by (simp add: nat_less_iff)
  from digits_of_length [OF this] show ?thesis by (cases "n < 0") (simp_all add: decimal_def)
qed

lemma canonical_printable: "exact_integers fl \<Longrightarrow> canonical named it \<Longrightarrow> printable fl it"
proof (induction it arbitrary: named)
  case (CJSON ty vs vi vd nm cs)
  have kids: "printable fl c" if "c \<in> set cs" for c
    using CJSON.IH [OF that CJSON.prems(1)] CJSON.prems(2) that by (auto split: if_splits)
  have names: "string_ok (jstring c)" if "c \<in> set cs" "ty = cJSON_Object" for c
    using CJSON.prems(2) that canonical_named [of c] by (auto simp: cJSON_types)
  have "number_ok fl (CJSON ty vs vi vd nm cs)" if "ty = cJSON_Number"
  proof -
    have vi: "- (2 ^ 31) \<le> vi" "vi < 2 ^ 31" "vd = of_int vi" using CJSON.prems(2) that by (auto simp: cJSON_types)
    then have "length (decimal vi) \<le> 11" by (intro decimal_length) simp
    then show ?thesis
      using decimal_nonzero [of vi]
      unfolding vi(3) number_ok_def canonical_number [OF CJSON.prems(1) vi(1,2)] by simp
  qed
  then show ?case
    using CJSON.prems(2) kind_small [of ty] kids names by (auto simp: cJSON_types split: if_splits)
qed

text \<open>The first character of a text is no space and closes nothing.\<close>

definition starts_value :: "wchar list \<Rightarrow> bool" where
  "starts_value x \<longleftrightarrow> (\<exists>c r. x = c # r \<and> 32 < c \<and> c \<noteq> 93 \<and> c \<noteq> 125)"

lemma json_text_first:
  assumes "exact_integers fl" and "canonical named it"
  shows "starts_value (json_text fl fmt depth it)"
proof (cases it)
  case (CJSON ty vs vi vd nm cs)
  have ty: "ty AND 255 = ty" "ty \<in> {0..6}" using assms(2) CJSON kind_small by auto
  show ?thesis
  proof (cases "ty = cJSON_Number")
    case True
    then have vi: "- (2 ^ 31) \<le> vi" "vi < 2 ^ 31" "vd = of_int vi" using assms(2) CJSON by (auto simp: cJSON_types)
    have "json_text fl fmt depth it = (if vi = 0 then [48] else decimal vi)"
      using True ty vi canonical_number [OF assms(1) vi(1,2)] CJSON by (simp add: cJSON_types Let_def)
    moreover have "starts_value (decimal vi)" if "vi \<noteq> 0"
      using digits_of_first [of "nat \<bar>vi\<bar>"] that
      by (auto simp: decimal_def starts_value_def word_less_nat_alt word_le_nat_alt)
    ultimately show ?thesis by (simp add: starts_value_def)
  next
    case False
    then show ?thesis
      using CJSON ty kind_cases [OF ty(2)]
      by (auto simp: starts_value_def cJSON_types Let_def text_null_def text_false_def text_true_def string_text_def)
  qed
qed

lemma skip_spaces: "skip (replicate n 9 @ x) = skip x" "skip (10 # x) = skip x" "skip (9 # x) = skip x"
  "skip (32 # x) = skip x"
  by (induction n) simp_all

lemma skip_text: "starts_value x \<Longrightarrow> skip (x @ y) = Inr (x @ y)"
  by (auto simp: starts_value_def)

definition parses_to :: "value_parser \<Rightarrow> wchar list \<Rightarrow> cjson \<Rightarrow> bool" where
  "parses_to parse x it \<longleftrightarrow>
     starts_value x \<and> (\<forall>t r. ends_number t \<longrightarrow> parse (x @ t # r) = Inr (Parsed it (t # r)))"

lemma ends_number_marks [simp]: "ends_number 44" "ends_number 93" "ends_number 125" "ends_number 10" "ends_number 0"
  by (simp_all add: ends_number_def is_digit_def)

text \<open>The elements behind the first, as they stand in the text.\<close>

lemma joined_Cons: "joined fmt (e # es) = e @ concat (map (\<lambda>e. 44 # (if fmt then [32] else []) @ e) es)"
  by (induction es arbitrary: e) auto

lemma parse_elements_text:
  assumes al: "\<forall>n. alloc n"
  shows "list_all2 (parses_to parse) es its \<Longrightarrow> length es < k \<Longrightarrow>
    parse_elements alloc parse k acc (concat (map (\<lambda>e. 44 # (if fmt then [32] else []) @ e) es) @ 93 # r)
      = Inr (Parsed (CJSON cJSON_Array None 0 0 None (acc @ its)) r)"
proof (induction es arbitrary: its k acc)
  case Nil
  then show ?case by (cases k) auto
next
  case (Cons e es)
  then obtain it its' k' where its: "its = it # its'" "parses_to parse e it" "list_all2 (parses_to parse) es its'"
      "k = Suc k'" "length es < k'" by (cases k) (auto simp: list_all2_Cons1)
  let ?rest = "concat (map (\<lambda>e. 44 # (if fmt then [32] else []) @ e) es) @ 93 # r"
  obtain t u where t: "?rest = t # u" "t = 44 \<or> t = 93" by (cases es) auto
  have "parse (e @ ?rest) = Inr (Parsed it ?rest)" using its(2) t by (auto simp: parses_to_def)
  moreover have "skip ?rest = Inr ?rest" using t by auto
  moreover have "skip ((if fmt then [32] else []) @ e @ ?rest) = Inr (e @ ?rest)"
    using its(2) skip_text [of e ?rest] by (auto simp: parses_to_def)
  ultimately show ?case
    using Cons.IH [OF its(3,5), of "acc @ [it]"] its(1,4) al [rule_format, of sizeof_cJSON]
    by (simp add: and_skip_def)
qed

lemma parse_array_text:
  assumes al: "\<forall>n. alloc n" and "list_all2 (parses_to parse) es its"
  shows "parse_array alloc parse (91 # joined fmt es @ 93 # r)
    = Inr (Parsed (CJSON cJSON_Array None 0 0 None its) r)"
proof (cases es)
  case Nil
  with assms show ?thesis by (simp add: parse_array_def)
next
  case (Cons e es')
  with assms(2) obtain it its' where its: "its = it # its'" "parses_to parse e it" "list_all2 (parses_to parse) es' its'"
    by (auto simp: list_all2_Cons1)
  obtain rest where rest_def: "rest = concat (map (\<lambda>e. 44 # (if fmt then [32] else []) @ e) es') @ 93 # r" by simp
  have whole: "91 # joined fmt es @ 93 # r = 91 # e @ rest" by (simp add: Cons joined_Cons rest_def del: joined.simps)
  obtain c u where e: "e = c # u" "32 < c" "c \<noteq> 93" using its(2) by (auto simp: parses_to_def starts_value_def)
  obtain t v where t: "rest = t # v" "t = 44 \<or> t = 93" by (cases es') (auto simp: rest_def)
  have "parse (e @ rest) = Inr (Parsed it rest)" using its(2) t by (auto simp: parses_to_def)
  moreover have "skip rest = Inr rest" using t by auto
  moreover have "length es' < length (e @ rest)" unfolding rest_def by (induction es') auto
  from parse_elements_text [OF al its(3) this, of "[it]" fmt r]
  have "parse_elements alloc parse (length (e @ rest)) [it] rest
      = Inr (Parsed (CJSON cJSON_Array None 0 0 None its) r)"
    by (simp only: rest_def its(1) append_Cons append_Nil)
  moreover have "skip (e @ rest) = Inr (e @ rest)" using e(1,2) by auto
  moreover have "peek (e @ rest) = Inr c" using e(1) by simp
  ultimately show ?thesis
    using e(3) al [rule_format, of sizeof_cJSON] unfolding whole
    by (simp add: parse_array_def and_skip_def del: parse_elements.simps length_append)
qed

text \<open>What follows the value of a member.\<close>

definition behind :: "bool \<Rightarrow> nat \<Rightarrow> (wchar list \<times> wchar list) list \<Rightarrow> wchar list \<Rightarrow> wchar list" where
  "behind fmt depth ms close =
     (if ms \<noteq> [] then [44] else []) @ (if fmt then [10] else []) @ members fmt depth ms @ close"

definition member_ok :: "value_parser \<Rightarrow> wchar list \<times> wchar list \<Rightarrow> cjson \<Rightarrow> bool" where
  "member_ok parse m it \<longleftrightarrow>
     (\<exists>s it0. fst m = string_text s \<and> 0 \<notin> set s \<and> parses_to parse (snd m) it0 \<and> it = with_name s it0)"

lemma behind_first:
  "\<exists>t u. behind fmt depth ms (replicate j 9 @ 125 # r) = t # u \<and> ends_number t"
proof (cases "ms = [] \<and> \<not> fmt")
  case True
  then show ?thesis by (cases j) (auto simp: behind_def ends_number_def is_digit_def)
qed (auto simp: behind_def)

lemma parse_member_text:
  assumes "\<forall>n. alloc n" and "member_ok parse m it" and "ends_number t"
  shows "parse_member alloc parse (fst m @ 58 # (if fmt then [9] else []) @ snd m @ t # u) = Inr (Parsed it (t # u))"
proof -
  from assms(2) obtain s it0 where m: "fst m = string_text s" "0 \<notin> set s" "parses_to parse (snd m) it0" "it = with_name s it0"
    by (auto simp: member_ok_def)
  have "skip ((if fmt then [9] else []) @ snd m @ t # u) = Inr (snd m @ t # u)"
    using m(3) skip_text [of "snd m" "t # u"] by (auto simp: parses_to_def)
  moreover have "parse (snd m @ t # u) = Inr (Parsed it0 (t # u))" using m(3) assms(3) by (simp add: parses_to_def)
  ultimately show ?thesis
    using parse_string_text [OF assms(1) m(2)] by (simp add: parse_member_def and_skip_def m(1,4))
qed

lemma skip_member:
  "member_ok parse m it \<Longrightarrow> skip ((if fmt then [10] else []) @ (if fmt then replicate depth 9 else []) @ fst m @ x) = Inr (fst m @ x)"
  by (auto simp: member_ok_def string_text_def skip_spaces)

lemma parse_members_text:
  assumes al: "\<forall>n. alloc n"
  shows "list_all2 (member_ok parse) ms its \<Longrightarrow> length ms < k \<Longrightarrow>
    \<exists>p. skip (behind fmt depth ms (replicate j 9 @ 125 # r)) = Inr p
      \<and> parse_members alloc parse k acc p = Inr (Parsed (CJSON cJSON_Object None 0 0 None (acc @ its)) r)"
proof (induction ms arbitrary: its k acc)
  case Nil
  then show ?case by (cases k) (auto simp: behind_def skip_spaces)
next
  case (Cons m ms)
  then obtain it its' k' where its: "its = it # its'" "member_ok parse m it" "list_all2 (member_ok parse) ms its'"
      "k = Suc k'" "length ms < k'" by (cases k) (auto simp: list_all2_Cons1)
  let ?next = "behind fmt depth ms (replicate j 9 @ 125 # r)"
  let ?member = "fst m @ 58 # (if fmt then [9] else []) @ snd m @ ?next"
  obtain t u where t: "?next = t # u" "ends_number t" using behind_first by blast
  from Cons.IH [OF its(3,5), of "acc @ [it]"] obtain p where p: "skip ?next = Inr p"
    "parse_members alloc parse k' (acc @ [it]) p = Inr (Parsed (CJSON cJSON_Object None 0 0 None (acc @ its)) r)"
    using its(1) by auto
  have whole: "behind fmt depth (m # ms) (replicate j 9 @ 125 # r)
      = 44 # (if fmt then [10] else []) @ (if fmt then replicate depth 9 else []) @ ?member"
    by (cases m) (simp add: behind_def)
  have "parse_member alloc parse ?member = Inr (Parsed it ?next)"
    unfolding t(1) by (rule parse_member_text [OF al its(2) t(2)])
  then have "parse_members alloc parse k acc
      (44 # (if fmt then [10] else []) @ (if fmt then replicate depth 9 else []) @ ?member)
      = Inr (Parsed (CJSON cJSON_Object None 0 0 None (acc @ its)) r)"
    using p al [rule_format, of sizeof_cJSON] skip_member [OF its(2), of fmt depth]
    unfolding its(4) by (simp add: and_skip_def del: if_split)
  then show ?case unfolding whole by simp
qed

lemma parse_object_text:
  assumes al: "\<forall>n. alloc n" and "list_all2 (member_ok parse) ms its" and "ms \<noteq> []"
  shows "parse_object alloc parse
      (123 # (if fmt then [10] else []) @ members fmt depth ms @ replicate j 9 @ 125 # r)
    = Inr (Parsed (CJSON cJSON_Object None 0 0 None its) r)"
proof -
  obtain m ms' where ms: "ms = m # ms'" using assms(3) by (cases ms) auto
  with assms(2) obtain it its' where its: "its = it # its'" "member_ok parse m it" "list_all2 (member_ok parse) ms' its'"
    by (auto simp: list_all2_Cons1)
  let ?next = "behind fmt depth ms' (replicate j 9 @ 125 # r)"
  obtain this_text where this_def: "this_text = fst m @ 58 # (if fmt then [9] else []) @ snd m @ ?next" by simp
  obtain t u where t: "?next = t # u" "ends_number t" using behind_first by blast
  have whole: "123 # (if fmt then [10] else []) @ members fmt depth ms @ replicate j 9 @ 125 # r
      = 123 # (if fmt then [10] else []) @ (if fmt then replicate depth 9 else []) @ this_text"
    by (cases m) (simp add: ms behind_def this_def)
  have "length ms' \<le> length (members fmt depth ms')" by (induction ms') auto
  then have "length ms' < length this_text" by (simp add: this_def behind_def)
  from parse_members_text [OF al its(3) this, of fmt depth j r "[it]"] obtain p where p: "skip ?next = Inr p"
    "parse_members alloc parse (length this_text) [it] p = Inr (Parsed (CJSON cJSON_Object None 0 0 None its) r)"
    using its(1) by auto
  have "parse_member alloc parse this_text = Inr (Parsed it ?next)"
    unfolding t(1) this_def by (rule parse_member_text [OF al its(2) t(2)])
  moreover have "skip ((if fmt then [10] else []) @ (if fmt then replicate depth 9 else []) @ this_text) = Inr this_text"
    unfolding this_def by (rule skip_member [OF its(2)])
  moreover have "\<exists>v. this_text = 34 # v" using its(2) by (auto simp: member_ok_def string_text_def this_def)
  ultimately show ?thesis
    using p al [rule_format, of sizeof_cJSON] unfolding whole
    by (auto simp: parse_object_def and_skip_def simp del: if_split)
qed

text \<open>The dispatch of \<^verbatim>\<open>parse_value\<close> on the first character.\<close>

lemma parse_value_number:
  assumes "c = 45 \<or> is_digit c"
  shows "parse_value alloc fl (Suc k) (c # cs) = rbind (parse_number fl (c # cs)) (\<lambda>(it, rest). Inr (Parsed it rest))"
proof -
  have "c \<noteq> 110" "c \<noteq> 102" "c \<noteq> 116" "c \<noteq> 34" using assms by (auto simp: is_digit_def word_le_nat_alt)
  then show ?thesis using assms by (simp add: text_null_def text_false_def text_true_def)
qed

lemma parse_value_first:
  "parse_value alloc fl (Suc k) (34 # cs) = rbind (parse_string alloc (34 # cs)) (\<lambda>r. Inr (case r of
       Rejected ep \<Rightarrow> Rejected ep
     | Parsed s rest \<Rightarrow> Parsed (CJSON cJSON_String (Some s) 0 0 None []) rest))"
  "parse_value alloc fl (Suc k) (91 # cs) = parse_array alloc (parse_value alloc fl k) (91 # cs)"
  "parse_value alloc fl (Suc k) (123 # cs) = parse_object alloc (parse_value alloc fl k) (123 # cs)"
  by (simp_all add: text_null_def text_false_def text_true_def is_digit_def)

lemma parse_value_word:
  "parse_value alloc fl (Suc k) (text_null @ r) = Inr (Parsed (CJSON cJSON_NULL None 0 0 None []) r)"
  "parse_value alloc fl (Suc k) (text_false @ r) = Inr (Parsed (CJSON cJSON_False None 0 0 None []) r)"
  "parse_value alloc fl (Suc k) (text_true @ r) = Inr (Parsed (CJSON cJSON_True None 1 0 None []) r)"
  by (simp_all add: text_null_def text_false_def text_true_def)

lemma parse_value_decimal:
  assumes fl: "exact_integers fl" and vi: "- (2 ^ 31) \<le> vi" "vi < 2 ^ 31" and t: "ends_number t"
  shows "parse_value alloc fl (Suc k) ((if vi = 0 then [48] else decimal vi) @ t # r)
    = Inr (Parsed (CJSON cJSON_Number None vi (of_int vi) None []) (t # r))"
proof (cases "vi = 0")
  case True
  then show ?thesis
    using parse_value_number [of 48] parse_number_zero [OF fl t] by (simp add: is_digit_def del: parse_value.simps)
next
  case False
  obtain c cs where d: "decimal vi = c # cs" "c = 45 \<or> is_digit c"
    using digits_of_first [of "nat \<bar>vi\<bar>"] False
    by (cases "vi < 0") (auto simp: decimal_def is_digit_def word_le_nat_alt)
  have "parse_number fl (c # cs @ t # r) = Inr (CJSON cJSON_Number None vi (of_int vi) None [], t # r)"
    using parse_number_integer [OF fl _ False t, of r] vi d(1) double_to_int_of_int [OF vi] by simp
  then show ?thesis
    using parse_value_number [OF d(2)] d(1) False by (simp del: parse_value.simps)
qed

lemma joined_longer: "c \<in> set es \<Longrightarrow> length c \<le> length (joined fmt es)"
  by (induction fmt es rule: joined.induct) auto

lemma members_longer: "m \<in> set ms \<Longrightarrow> length (snd m) \<le> length (members fmt depth ms)"
  by (induction fmt depth ms rule: members.induct) auto

lemma parse_value_text:
  assumes al: "\<forall>n. alloc n" and fl: "exact_integers fl"
  shows "canonical named it \<Longrightarrow> length (json_text fl fmt depth it) < k \<Longrightarrow>
    parses_to (parse_value alloc fl k) (json_text fl fmt depth it) (unnamed it)"
proof (induction it arbitrary: named depth k)
  case (CJSON ty vs vi vd nm cs)
  let ?it = "CJSON ty vs vi vd nm cs" and ?f = "json_text fl fmt (depth + 1)"
  obtain k' where k: "k = Suc k'" using CJSON.prems(2) by (cases k) auto
  have ty: "ty \<in> {0..6}" "ty AND 255 = ty" using CJSON.prems(1) kind_small by auto
  have start: "starts_value (json_text fl fmt depth ?it)" by (rule json_text_first [OF fl CJSON.prems(1)])
  have kid: "parses_to (parse_value alloc fl k') (?f c) (unnamed c)"
    if "c \<in> set cs" "canonical n c" "length (?f c) < k'" for c n
    using CJSON.IH that by blast
  have "parse_value alloc fl k (json_text fl fmt depth ?it @ t # r) = Inr (Parsed (unnamed ?it) (t # r))"
    if t: "ends_number t" for t r
    using kind_cases [OF ty(1)]
  proof (elim disjE)
    assume n: "ty = cJSON_Number"
    then have vi: "- (2 ^ 31) \<le> vi" "vi < 2 ^ 31" "vd = of_int vi" "cs = []" "vs = None"
      using CJSON.prems(1) by (auto simp: cJSON_types)
    have "json_text fl fmt depth ?it = (if vi = 0 then [48] else decimal vi)"
      using n ty vi canonical_number [OF fl vi(1,2)] by (simp add: cJSON_types Let_def)
    then show ?thesis
      using parse_value_decimal [OF fl vi(1,2) t] n vi by (simp only: k unnamed_def cjson.sel)
  next
    assume s: "ty = cJSON_String"
    then obtain x where x: "vs = Some x" "0 \<notin> set x" "vi = 0" "vd = 0" "cs = []"
      using CJSON.prems(1) by (auto simp: cJSON_types dest: string_okD)
    then have "parse_string alloc (34 # concat (map escape_char x) @ 34 # t # r) = Inr (Parsed x (t # r))"
      using parse_string_text [OF al x(2), of "t # r"] by (simp add: string_text_def)
    then show ?thesis
      using s x ty by (simp add: k unnamed_def cJSON_types string_text_def parse_value_first del: parse_value.simps)
  next
    assume a: "ty = cJSON_Array"
    then have c: "vs = None" "vi = 0" "vd = 0" "\<forall>c \<in> set cs. canonical False c"
      using CJSON.prems(1) by (auto simp: cJSON_types)
    have whole: "json_text fl fmt depth ?it = 91 # joined fmt (map ?f cs) @ [93]"
      using a ty by (simp add: cJSON_types)
    have "parses_to (parse_value alloc fl k') (?f c) c" if "c \<in> set cs" for c
      using kid [OF that, of False] c(4) that joined_longer [of "?f c" "map ?f cs" fmt] CJSON.prems(2)
      unfolding whole k by (auto simp: canonical_unnamed)
    then have "list_all2 (parses_to (parse_value alloc fl k')) (map ?f cs) cs"
      by (simp add: list_all2_map1 list_all2_same)
    from parse_array_text [OF al this, of fmt "t # r"] show ?thesis
      using a c unfolding whole by (simp add: k unnamed_def parse_value_first del: parse_value.simps)
  next
    assume o: "ty = cJSON_Object"
    then have c: "vs = None" "vi = 0" "vd = 0" "\<forall>c \<in> set cs. canonical True c"
      using CJSON.prems(1) by (auto simp: cJSON_types)
    let ?m = "\<lambda>c. (string_text (the (jstring c)), ?f c)"
    show ?thesis
    proof (cases "cs = []")
      case True
      with o ty c show ?thesis
        by (simp add: k unnamed_def parse_value_first cJSON_types parse_object_def skip_spaces del: parse_value.simps)
    next
      case False
      have whole: "json_text fl fmt depth ?it = 123 # (if fmt then [10] else []) @ members fmt (depth + 1) (map ?m cs)
          @ replicate (if fmt then depth else 0) 9 @ [125]"
        using o ty False by (simp add: cJSON_types)
      have "member_ok (parse_value alloc fl k') (?m c) c" if cs: "c \<in> set cs" for c
      proof -
        from c(4) cs obtain s where s: "jstring c = Some s" "0 \<notin> set s" "with_name s (unnamed c) = c"
          using canonical_named by blast
        have "length (?f c) < k'"
          using members_longer [of "?m c" "map ?m cs" fmt "depth + 1"] cs CJSON.prems(2) unfolding whole k by auto
        with kid [OF cs, of True] c(4) cs show ?thesis
          unfolding member_ok_def using s by (intro exI [of _ s] exI [of _ "unnamed c"]) simp
      qed
      then have "list_all2 (member_ok (parse_value alloc fl k')) (map ?m cs) cs"
        by (simp add: list_all2_map1 list_all2_same)
      from parse_object_text [OF al this, of fmt "depth + 1" "if fmt then depth else 0" "t # r"] show ?thesis
        using o c False unfolding whole by (simp add: k unnamed_def parse_value_first del: parse_value.simps)
    qed
  qed (use CJSON.prems(1) ty in \<open>auto simp: k unnamed_def cJSON_types parse_value_word simp del: parse_value.simps\<close>)
  with start show ?case by (simp add: parses_to_def)
qed

lemma cJSON_Parse_text:
  assumes "\<forall>n. alloc n" and "exact_integers fl" and "canonical False it"
  shows "cJSON_ParseWithOpts alloc fl (json_text fl fmt depth it @ [0]) True = Inr (Some it, None, Some [0])"
proof -
  let ?t = "json_text fl fmt depth it"
  have "skip (?t @ [0]) = Inr (?t @ [0])" by (rule skip_text [OF json_text_first [OF assms(2,3)]])
  moreover have "parse_value alloc fl (enough_fuel (?t @ [0])) (?t @ [0]) = Inr (Parsed it [0])"
    using parse_value_text [OF assms, of fmt depth "enough_fuel (?t @ [0])"] canonical_unnamed [OF assms(3)]
    by (simp add: parses_to_def enough_fuel_def del: parse_value.simps)
  ultimately show ?thesis
    using assms(1) [rule_format, of sizeof_cJSON] by (simp add: cJSON_ParseWithOpts_def)
qed

end
