(* ===== verification/JsonMinify.thy ===== *)
theory JsonMinify
  imports JsonRoundTrip
begin

text \<open>
  \<^verbatim>\<open>cJSON_Minify\<close>, which removes spaces and comments from a text in place. Its writing pointer is never ahead
  of the reading one, so what it reads is the text it was given; the loop yields the characters written.
\<close>

section \<open>The function\<close>

fun skip_line :: "wchar list \<Rightarrow> wchar list res" where
  "skip_line [] = Inl OutOfBounds"
| "skip_line (c # cs) = (if c \<noteq> 0 \<and> c \<noteq> 10 then skip_line cs else Inr (c # cs))"

fun skip_comment :: "wchar list \<Rightarrow> wchar list res" where
  "skip_comment [] = Inl OutOfBounds"
| "skip_comment (c # cs) =
     (if c = 0 then Inr (c # cs)
      else if c = 42 then rbind (peek cs) (\<lambda>d. if d = 47 then Inr (c # cs) else skip_comment cs)
      else skip_comment cs)"

text \<open>Putting characters before what the rest of a loop writes.\<close>

definition written :: "wchar list \<Rightarrow> wchar list res \<Rightarrow> wchar list res" where
  "written out m = rbind m (\<lambda>o'. Inr (out @ o'))"

lemma written_simps [simp]:
  "written out (Inr o') = Inr (out @ o')" "written out (Inl e) = Inl e" "written [] m = m"
  "written x (written y m) = written (x @ y) m"
  by (cases m; simp add: written_def)+

text \<open>Behind the opening quote: the characters up to the closing one (or the zero), both included, and the rest.\<close>

fun copy_string :: "wchar list \<Rightarrow> (wchar list \<times> wchar list) res" where
  "copy_string [] = Inl OutOfBounds"
| "copy_string (c # cs) =
     (if c = 0 \<or> c = 34 then Inr ([c], cs)
      else if c = 92 then
        rbind (peek cs) (\<lambda>d. rbind (copy_string (tl cs)) (\<lambda>(out, rest). Inr (c # d # out, rest)))
      else rbind (copy_string cs) (\<lambda>(out, rest). Inr (c # out, rest)))"

lemma skip_line_shorter: "skip_line v = Inr r \<Longrightarrow> length r \<le> length v"
  by (induction v) (auto split: if_splits)

lemma skip_comment_shorter: "skip_comment v = Inr r \<Longrightarrow> length r \<le> length v"
proof (induction v rule: skip_comment.induct)
  case (2 c cs)
  then show ?case by (cases "c = 42") (fastforce simp: rbind_eq_Inr split: if_splits)+
qed simp

lemma copy_string_shorter: "copy_string v = Inr (out, r) \<Longrightarrow> length r < length v"
proof (induction v arbitrary: out rule: copy_string.induct)
  case (2 c cs)
  then show ?case by (auto simp: rbind_eq_Inr split: if_splits) (fastforce dest: less_le_trans)+
qed simp

function minify_loop :: "wchar list \<Rightarrow> wchar list res" where
  "minify_loop [] = Inl OutOfBounds"
| "minify_loop (c # cs) =
     (if c = 0 then Inr []
      else if c = 32 \<or> c = 9 \<or> c = 13 \<or> c = 10 then minify_loop cs
      else if c = 47 then
        rbind (peek cs) (\<lambda>d.
        if d = 47 then rbind (skip_line cs) minify_loop
        else if d = 42 then rbind (skip_comment cs) (\<lambda>json. minify_loop (drop 2 json))
        else written [c] (minify_loop cs))
      else if c = 34 then rbind (copy_string cs) (\<lambda>(out, rest). written (c # out) (minify_loop rest))
      else written [c] (minify_loop cs))"
  by pat_completeness auto
termination
  by (relation "measure length")
    (auto dest!: skip_line_shorter skip_comment_shorter copy_string_shorter)

lemma copy_string_length: "copy_string v = Inr (out, r) \<Longrightarrow> length out + length r = length v"
proof (induction v arbitrary: out rule: copy_string.induct)
  case (2 c cs)
  show ?case
  proof (cases "c = 0 \<or> c = 34")
    case False
    show ?thesis
    proof (cases "c = 92")
      case True
      with 2 False show ?thesis by (cases cs) (fastforce simp: rbind_eq_Inr split: if_splits)+
    qed (use 2 False in \<open>auto simp: rbind_eq_Inr\<close>)
  qed (use 2 in auto)
qed simp

lemma written_Inr: "written out m = Inr x \<longleftrightarrow> (\<exists>y. m = Inr y \<and> x = out @ y)"
  by (cases m) auto

text \<open>What is written, and the zero behind it, fit where the text was.\<close>

lemma minify_loop_shorter: "minify_loop v = Inr out \<Longrightarrow> length out < length v"
proof (induction v arbitrary: out rule: length_induct)
  case (1 v)
  then obtain c cs where v: "v = c # cs" by (cases v) auto
  have rec: "length o' \<le> length cs" if "minify_loop w = Inr o'" "length w \<le> length cs" for w o'
  proof -
    from that 1(1) v have "length o' < length w" by simp
    with that show ?thesis by simp
  qed
  have rec': "length o' < length w" if "minify_loop w = Inr o'" "length w \<le> length cs" for w o'
    using that 1(1) v by simp
  consider "c = 0" | "c \<in> {32, 9, 13, 10}" | "c = 47" | "c = 34" | "c \<notin> {0, 32, 9, 13, 10, 47, 34}" by blast
  then show ?case
  proof cases
    case 3
    have "length out \<le> length cs" if "skip_comment cs = Inr w" "minify_loop (drop 2 w) = Inr out" for w
      using rec [OF that(2)] skip_comment_shorter [OF that(1)] by simp
    moreover have "length out \<le> length cs" if "skip_line cs = Inr w" "minify_loop w = Inr out" for w
      using rec [OF that(2)] skip_line_shorter [OF that(1)] by simp
    moreover have "length out \<le> length cs" if "out = [c] @ y" "minify_loop cs = Inr y" for y
      using rec' [OF that(2)] that(1) by simp
    ultimately show ?thesis
      using 1(2) 3 v by (auto simp: rbind_eq_Inr written_Inr less_Suc_eq_le split: if_splits)
  next
    case 4
    have "length out \<le> length cs" if "copy_string cs = Inr (o1, w)" "minify_loop w = Inr o2" "out = 34 # o1 @ o2" for o1 w o2
      using copy_string_length [OF that(1)] rec' [OF that(2)] that(3) by simp
    then show ?thesis using 1(2) 4 v by (auto simp: rbind_eq_Inr written_Inr less_Suc_eq_le)
  qed (use 1(2) v rec rec' in \<open>auto simp: written_Inr less_Suc_eq_le dest!: rec'\<close>)
qed

definition cJSON_Minify :: "wchar list \<Rightarrow> wchar list res" where
  "cJSON_Minify json = rbind (minify_loop json) (\<lambda>out. mem_write json 0 (out @ [0]))"

section \<open>Formatted texts\<close>

definition minifies :: "wchar list \<Rightarrow> wchar list \<Rightarrow> bool" where
  "minifies x y \<longleftrightarrow> (\<forall>r. minify_loop (x @ r) = written y (minify_loop r))"

lemma minifies_append: "minifies x y \<Longrightarrow> minifies x' y' \<Longrightarrow> minifies (x @ x') (y @ y')"
  by (simp add: minifies_def)

lemma minifies_Nil: "minifies [] []"
  by (simp add: minifies_def)

lemma minifies_space: "c = 32 \<or> c = 9 \<or> c = 10 \<Longrightarrow> minifies (replicate n c) []"
  by (induction n) (auto simp: minifies_def)

lemma minifies_char: "c \<noteq> 0 \<Longrightarrow> c \<notin> {32, 9, 13, 10, 47, 34} \<Longrightarrow> minifies [c] [c]"
  by (simp add: minifies_def)

lemma minifies_chars: "\<forall>c \<in> set x. c \<noteq> 0 \<and> c \<notin> {32, 9, 13, 10, 47, 34} \<Longrightarrow> minifies x x"
proof (induction x)
  case (Cons c x)
  from minifies_append [of "[c]" "[c]" x x] Cons minifies_char [of c] show ?case by auto
qed (rule minifies_Nil)

lemma copy_string_escape:
  assumes "c \<noteq> 0"
  shows "copy_string (escape_char c @ r) = rbind (copy_string r) (\<lambda>(out, rest). Inr (escape_char c @ out, rest))"
  using escape_char_cases [OF assms]
proof (elim disjE exE conjE)
  assume e: "escape_char c = 92 # u_escape c"
  have plain: "hex_char (n mod 16) \<noteq> 34 \<and> hex_char (n mod 16) \<noteq> 92 \<and> hex_char (n mod 16) \<noteq> 0" for n
    by (rule hex_char_plain) simp
  show ?thesis unfolding e by (cases "copy_string r") (auto simp: u_escape_def Let_def plain)
qed (use assms in \<open>cases "copy_string r"; auto\<close>)+

lemma copy_string_text:
  "0 \<notin> set s \<Longrightarrow> copy_string (concat (map escape_char s) @ 34 # r) = Inr (concat (map escape_char s) @ [34], r)"
  by (induction s) (auto simp: copy_string_escape)

lemma minifies_string: "0 \<notin> set s \<Longrightarrow> minifies (string_text s) (string_text s)"
  by (auto simp: minifies_def string_text_def copy_string_text)

lemma minifies_decimal: "minifies (decimal n) (decimal n)"
proof (rule minifies_chars)
  show "\<forall>c \<in> set (decimal n). c \<noteq> 0 \<and> c \<notin> {32, 9, 13, 10, 47, 34}"
  proof
    fix c assume "c \<in> set (decimal n)"
    then have "c = 45 \<or> is_digit c" by (auto simp: decimal_def dest: digits_of_range split: if_splits)
    then show "c \<noteq> 0 \<and> c \<notin> {32, 9, 13, 10, 47, 34}" by (auto simp: is_digit_def word_le_nat_alt)
  qed
qed

lemma minifies_joined:
  "\<forall>c \<in> set cs. minifies (f c) (g c) \<Longrightarrow> minifies (joined True (map f cs)) (joined False (map g cs))"
proof (induction cs)
  case (Cons c cs)
  show ?case
  proof (cases cs)
    case (Cons d ds)
    have "minifies (f c @ [44] @ [32] @ joined True (map f cs)) (g c @ [44] @ [] @ joined False (map g cs))"
      using Cons.IH Cons.prems minifies_char [of 44] minifies_space [of 32 1]
      by (intro minifies_append) (simp_all add: local.Cons)
    with Cons show ?thesis by simp
  qed (use Cons in simp)
qed (simp add: minifies_Nil)

lemma minifies_members:
  "\<forall>c \<in> set cs. minifies (f c) (g c) \<and> minifies (n c) (n c) \<Longrightarrow>
     minifies (members True d (map (\<lambda>c. (n c, f c)) cs)) (members False e (map (\<lambda>c. (n c, g c)) cs))"
proof (induction cs)
  case (Cons c cs)
  have comma: "minifies (if cs \<noteq> [] then [44] else []) (if cs \<noteq> [] then [44] else [])"
    using minifies_char [of 44] minifies_Nil by simp
  have "minifies (replicate d 9 @ n c @ [58] @ [9] @ f c @ (if cs \<noteq> [] then [44] else []) @ [10]
        @ members True d (map (\<lambda>c. (n c, f c)) cs))
      ([] @ n c @ [58] @ [] @ g c @ (if cs \<noteq> [] then [44] else []) @ [] @ members False e (map (\<lambda>c. (n c, g c)) cs))"
    using Cons minifies_char [of 58] minifies_space [of 9 1] minifies_space [of 10 1] minifies_space [of 9 d] comma
    by (intro minifies_append) simp_all
  then show ?case by simp
qed (simp add: minifies_Nil)

lemma minifies_json_text:
  assumes fl: "exact_integers fl"
  shows "canonical named it \<Longrightarrow> minifies (json_text fl True d it) (json_text fl False e it)"
proof (induction it arbitrary: named d e)
  case (CJSON ty vs vi vd nm cs)
  have ty: "ty \<in> {0..6}" "ty AND 255 = ty" using CJSON.prems kind_small by auto
  have kids: "minifies (json_text fl True (d + 1) c) (json_text fl False (e + 1) c)" if "c \<in> set cs" for c
    using CJSON.IH [OF that] CJSON.prems that by (auto split: if_splits)
  show ?case
    using kind_cases [OF ty(1)]
  proof (elim disjE)
    assume n: "ty = cJSON_Number"
    then have vi: "- (2 ^ 31) \<le> vi" "vi < 2 ^ 31" "vd = of_int vi" using CJSON.prems by (auto simp: cJSON_types)
    have "minifies [48] [48]" using minifies_char [of 48] by simp
    then show ?thesis
      using n ty minifies_decimal [of vi] by (simp add: vi(3) canonical_number [OF fl vi(1,2)] cJSON_types Let_def)
  next
    assume s: "ty = cJSON_String"
    then obtain x where "vs = Some x" "0 \<notin> set x" using CJSON.prems by (auto simp: cJSON_types dest: string_okD)
    with s ty minifies_string show ?thesis by (simp add: cJSON_types)
  next
    assume a: "ty = cJSON_Array"
    have "minifies ([91] @ joined True (map (json_text fl True (d + 1)) cs) @ [93])
        ([91] @ joined False (map (json_text fl False (e + 1)) cs) @ [93])"
      using minifies_joined [of cs "json_text fl True (d + 1)" "json_text fl False (e + 1)"] kids
        minifies_char [of 91] minifies_char [of 93] by (intro minifies_append) simp_all
    with a ty show ?thesis by (simp add: cJSON_types)
  next
    assume o: "ty = cJSON_Object"
    let ?n = "\<lambda>c. string_text (the (jstring c))"
    have names: "minifies (?n c) (?n c)" if "c \<in> set cs" for c
    proof -
      have "canonical True c" using CJSON.prems o that by (auto simp: cJSON_types)
      from canonical_named [OF this] minifies_string show ?thesis by auto
    qed
    have 1: "minifies [123] [123]" "minifies [125] [125]" using minifies_char by simp_all
    have "minifies ([123] @ (10 # replicate (d - 1) 9) @ [125]) ([123] @ [] @ [125])"
      using minifies_append [OF minifies_space [of 10 1] minifies_space [of 9 "d - 1"]] 1
      by (intro minifies_append) simp_all
    moreover have "minifies
        ([123] @ [10] @ members True (d + 1) (map (\<lambda>c. (?n c, json_text fl True (d + 1) c)) cs) @ replicate d 9 @ [125])
        ([123] @ [] @ members False (e + 1) (map (\<lambda>c. (?n c, json_text fl False (e + 1) c)) cs) @ [] @ [125])"
      using minifies_members [of cs "json_text fl True (d + 1)" "json_text fl False (e + 1)" ?n] kids names
        minifies_space [of 10 1] minifies_space [of 9 d] 1
      by (intro minifies_append) simp_all
    ultimately show ?thesis using o ty by (simp add: cJSON_types)
  qed (use ty minifies_chars [of text_null] minifies_chars [of text_false] minifies_chars [of text_true] in
      \<open>simp_all add: cJSON_types text_null_def text_false_def text_true_def\<close>)
qed

lemma minify_json_text:
  assumes "exact_integers fl" and "canonical named it"
  shows "minify_loop (json_text fl True d it @ [0]) = Inr (json_text fl False e it)"
  using minifies_json_text [OF assms, of d e] by (simp add: minifies_def)

end
