(* ===== verification/JsonProperties.thy ===== *)
theory JsonProperties
  imports JsonBuffer JsonMinify
begin

text \<open>
  The properties of the JSON text functions: parsing what was printed, the two forms of the printer, the
  minifier, what the parser does with arbitrary texts, and the string that makes it leave its block.
\<close>

section \<open>Examples\<close>

text \<open>\<^verbatim>\<open>{"a": -7, "b": ["\""]}\<close>\<close>

definition sample_item :: cjson where
  "sample_item = CJSON cJSON_Object None 0 0 None
     [CJSON cJSON_Number None (-7) (-7) (Some [97]) [],
      CJSON cJSON_Array None 0 0 (Some [98]) [CJSON cJSON_String (Some [34]) 0 0 None []]]"

lemma sample_canonical: "canonical False sample_item"
  by (simp add: sample_item_def cJSON_types)

lemma sample_text: "json_text exact_floats False 0 sample_item
    = [123, 34, 97, 34, 58, 45, 55, 44, 34, 98, 34, 58, 91, 34, 92, 34, 34, 93, 125]"
proof -
  have "decimal (-7) = [45, 55]" by (simp add: decimal_def digits_of.simps)
  moreover have "print_number exact_floats (CJSON cJSON_Number None (-7) (-7) (Some [97]) []) = (21, decimal (-7) @ [0])"
    using canonical_number [OF exact_floats_ok, of "-7" cJSON_Number None "Some [97]" "[]"] by simp
  ultimately show ?thesis
    by (simp add: sample_item_def cJSON_types string_text_def escape_char_def)
qed

section \<open>Round trip\<close>



text \<open>C17: printing into a growing buffer, whatever its first size, gives the same text as printing with blocks,
  and no write of either leaves its block, for every item that has a text of less than \<open>2 ^ 30 - 64\<close> characters.\<close>

theorem buffered_printing_agrees:
  assumes "\<forall>n. alloc n" and "printable fl it" and "length (json_text fl fmt 0 it) + 64 \<le> 2 ^ 30"
  shows "cJSON_PrintBuffered alloc fl it prebuffer fmt
      = (if fmt then cJSON_Print alloc fl it else cJSON_PrintUnformatted alloc fl it)
    \<and> cJSON_PrintBuffered alloc fl it prebuffer fmt = Inr (Some (json_text fl fmt 0 it))"
  using cJSON_PrintBuffered_ok [OF assms, of prebuffer] print_value_ok [OF assms(1,2), of fmt 0]
  by (cases fmt) (simp_all add: cJSON_Print_def cJSON_PrintUnformatted_def)

theorem buffered_printing_agrees_witness:
  "cJSON_PrintBuffered (\<lambda>_. True) exact_floats sample_item 1 False
     = Inr (Some [123, 34, 97, 34, 58, 45, 55, 44, 34, 98, 34, 58, 91, 34, 92, 34, 34, 93, 125])"
proof -
  have "length (json_text exact_floats False 0 sample_item) + 64 \<le> 2 ^ 30" by (simp add: sample_text)
  from buffered_printing_agrees [OF _ canonical_printable [OF exact_floats_ok sample_canonical] this, of "\<lambda>_. True" 1]
  have "cJSON_PrintBuffered (\<lambda>_. True) exact_floats sample_item 1 False
      = Inr (Some (json_text exact_floats False 0 sample_item))" by blast
  then show ?thesis by (simp only: sample_text)
qed

text \<open>C18: minifying the formatted text of an item, in place, leaves its unformatted text.\<close>

theorem minify_formatted:
  assumes "exact_integers fl" and "canonical False it"
  shows "\<exists>rest. cJSON_Minify (json_text fl True 0 it @ [0]) = Inr (json_text fl False 0 it @ 0 # rest)"
proof -
  note m = minify_json_text [OF assms, of 0 0]
  from minify_loop_shorter [OF m] show ?thesis by (simp add: cJSON_Minify_def m mem_write_def)
qed

theorem minify_formatted_witness:
  "\<exists>rest. cJSON_Minify (json_text exact_floats True 0 sample_item @ [0])
     = Inr ([123, 34, 97, 34, 58, 45, 55, 44, 34, 98, 34, 58, 91, 34, 92, 34, 34, 93, 125] @ 0 # rest)"
  using minify_formatted [OF exact_floats_ok sample_canonical] by (simp only: sample_text)

section \<open>Arbitrary texts\<close>

lemma four: "4 = Suc (Suc (Suc (Suc 0)))"
  by simp

lemma replicate_small: "replicate 2 x = [x, x]" "replicate 6 x = [x, x, x, x, x, x]"
  by (simp_all add: eval_nat_numeral)


text \<open>C20: every item the parser returns is well formed: its type is one of the seven, a string has its characters,
  members and only members have names, and only arrays and objects have children; then the error pointer is
  null.\<close>

theorem parsed_items_well_formed:
  assumes "cJSON_ParseWithOpts alloc fl value require_null_terminated = Inr (Some it, ep, rest)"
  shows "well_formed False it \<and> ep = None"
  using assms makesD [OF parse_value_makes]
  by (auto simp: cJSON_ParseWithOpts_def rbind_eq_Inr case_parsed_Inr simp del: parse_value.simps split: if_splits)

theorem parsed_items_well_formed_witness:
  "cJSON_ParseWithOpts (\<lambda>_. True) exact_floats [91, 34, 97, 34, 44, 116, 114, 117, 101, 93, 0] True
      = Inr (Some (CJSON cJSON_Array None 0 0 None
          [CJSON cJSON_String (Some [97]) 0 0 None [], CJSON cJSON_True None 1 0 None []]), None, Some [0])
    \<and> well_formed False (CJSON cJSON_Array None 0 0 None
          [CJSON cJSON_String (Some [97]) 0 0 None [], CJSON cJSON_True None 1 0 None []])" (is "?p \<and> well_formed False ?it")
proof -
  have "canonical False ?it" by (simp add: cJSON_types)
  from cJSON_Parse_text [OF _ exact_floats_ok this, of "\<lambda>_. True" False 0] have p: ?p
    by (simp add: cJSON_types string_text_def escape_char_def text_true_def)
  with parsed_items_well_formed [OF p] show ?thesis by blast
qed

text \<open>C21: a text that ends with its only zero and has no backslash is parsed without leaving a block, neither the text
  nor the copy of a string in it; the parser answers an item or a null pointer.\<close>

theorem plain_texts_are_safe:
  assumes "0 \<notin> set s" and "92 \<notin> set s"
  shows "\<exists>x. cJSON_ParseWithOpts alloc fl (s @ [0]) require_null_terminated = Inr x"
  by (rule cJSON_ParseWithOpts_plain) (use assms in \<open>simp add: plain_def\<close>)

theorem plain_texts_are_safe_witness:
  "\<exists>x. cJSON_ParseWithOpts (\<lambda>_. True) exact_floats ([91, 34, 97] @ [0]) True = Inr x"
  by (rule plain_texts_are_safe) simp_all

text \<open>A string that ends in \<^verbatim>\<open>\u\<close> makes the parser jump over the closing quote and copy what follows it into a
  block measured for the string alone: six further characters are enough to write past its end.\<close>

theorem unfinished_escape_overflows:
  assumes "\<forall>n. alloc n" and "0 \<notin> {d, e, f}" and "34 \<notin> {d, e, f}" and "92 \<notin> {d, e, f}"
  shows "cJSON_Parse alloc fl ([34, 92, 117, 34, a, b, c, d, e, f] @ rest) = Inl OutOfBounds"
proof -
  have "parse_hex4 (34 # x) = Inr 0" for x unfolding parse_hex4_def four hex_digits.simps by (simp add: hex_digit_def)
  then have esc: "hex_escape (117 # 34 # x) = Inr ([], 4)" for x by (simp add: hex_escape_def)
  have "string_loop (92 # 117 # 34 # a # b # c # d # e # f # rest) [None, None] 0 = Inl OutOfBounds"
    using assms(2-4) by (simp add: esc mem_write_def)
  then have "parse_string alloc (34 # 92 # 117 # 34 # a # b # c # d # e # f # rest) = Inl OutOfBounds"
    using assms(1) by (simp add: parse_string_def replicate_small)
  then show ?thesis
    using assms(1) [rule_format, of sizeof_cJSON]
    by (simp add: cJSON_Parse_def cJSON_ParseWithOpts_def enough_fuel_def parse_value_first del: parse_value.simps)
qed

theorem unfinished_escape_overflows_witness:
  "cJSON_Parse (\<lambda>_. True) exact_floats ([34, 92, 117, 34, 44, 32, 49, 50, 51, 52] @ [0]) = Inl OutOfBounds"
  by (rule unfinished_escape_overflows) simp_all

text \<open>A \<^verbatim>\<open>\u\<close> escape outside ASCII becomes the bytes of UTF-8, a character each: \<^verbatim>\<open>\u00e9\<close> is parsed as two characters.\<close>

lemma escape_becomes_bytes:
  assumes "\<forall>n. alloc n"
  shows "parse_string alloc [34, 92, 117, 48, 48, 101, 57, 34, 0] = Inr (Parsed [0xC3, 0xA9] [0])"
proof -
  have "parse_hex4 (48 # 48 # 101 # 57 # x) = Inr 0xE9" for x
    unfolding parse_hex4_def four hex_digits.simps by (simp add: hex_digit_def)
  then have "hex_escape (117 # 48 # 48 # 101 # 57 # x) = Inr ([0xC3, 0xA9], 4)" for x
    by (simp add: hex_escape_def utf8_bytes_def)
  then show ?thesis using assms by (simp add: parse_string_def mem_write_def replicate_small)
qed

end
