(* ===== verification/JsonTree.thy ===== *)
theory JsonTree
  imports JsonPrint
begin

text \<open>
  The tree operations of \<^verbatim>\<open>cJSON_Unicode.cpp\<close>, on the nodes as they lie in memory: the children of an array or
  object are a list linked in both directions, and operations work by changing links. Items and strings
  are numbered addresses; an address is not used again.
\<close>

section \<open>Memory\<close>

record jnode =
  node_next :: "nat option"
  node_prev :: "nat option"
  node_child :: "nat option"
  node_type :: int
  node_valuestring :: "nat option"
  node_valueint :: int
  node_valuedouble :: rat
  node_string :: "nat option"

text \<open>A string knows whether it came from \<^verbatim>\<open>malloc\<close>; strings of the caller did not.\<close>

record json_heap =
  items :: "nat \<Rightarrow> jnode option"
  strings :: "nat \<Rightarrow> (bool \<times> wchar list) option"
  next_addr :: nat

definition node_zero :: jnode where
  "node_zero = \<lparr>node_next = None, node_prev = None, node_child = None, node_type = 0, node_valuestring = None,
     node_valueint = 0, node_valuedouble = 0, node_string = None\<rparr>"

text \<open>Reading and changing the item at a pointer.\<close>

definition item_at :: "json_heap \<Rightarrow> nat option \<Rightarrow> jnode res" where
  "item_at h p =
     (case p of None \<Rightarrow> Inl NullPointer
      | Some a \<Rightarrow> (case items h a of None \<Rightarrow> Inl UseAfterFree | Some n \<Rightarrow> Inr n))"

definition set_item :: "nat option \<Rightarrow> (jnode \<Rightarrow> jnode) \<Rightarrow> json_heap \<Rightarrow> json_heap res" where
  "set_item p f h =
     (case p of None \<Rightarrow> Inl NullPointer
      | Some a \<Rightarrow> (case items h a of None \<Rightarrow> Inl UseAfterFree | Some n \<Rightarrow> Inr (h\<lparr>items := (items h)(a \<mapsto> f n)\<rparr>)))"

definition string_at :: "json_heap \<Rightarrow> nat \<Rightarrow> wchar list res" where
  "string_at h a = (case strings h a of None \<Rightarrow> Inl UseAfterFree | Some (_, s) \<Rightarrow> Inr s)"

definition free_item :: "nat \<Rightarrow> json_heap \<Rightarrow> json_heap res" where
  "free_item a h = (case items h a of None \<Rightarrow> Inl UseAfterFree | Some _ \<Rightarrow> Inr (h\<lparr>items := (items h)(a := None)\<rparr>))"

definition free_string :: "nat \<Rightarrow> json_heap \<Rightarrow> json_heap res" where
  "free_string a h =
     (case strings h a of
        None \<Rightarrow> Inl UseAfterFree
      | Some (allocated, _) \<Rightarrow>
          if allocated then Inr (h\<lparr>strings := (strings h)(a := None)\<rparr>) else Inl InvalidFree)"

definition new_item :: "(nat \<Rightarrow> bool) \<Rightarrow> json_heap \<Rightarrow> nat option \<times> json_heap" where
  "new_item alloc h =
     (if \<not> alloc sizeof_cJSON then (None, h)
      else (Some (next_addr h),
            h\<lparr>items := (items h)(next_addr h \<mapsto> node_zero), next_addr := Suc (next_addr h)\<rparr>))"

definition tree_strdup :: "(nat \<Rightarrow> bool) \<Rightarrow> wchar list \<Rightarrow> json_heap \<Rightarrow> nat option \<times> json_heap" where
  "tree_strdup alloc s h =
     (if \<not> alloc (2 * (length s + 1)) then (None, h)
      else (Some (next_addr h),
            h\<lparr>strings := (strings h)(next_addr h \<mapsto> (True, s)), next_addr := Suc (next_addr h)\<rparr>))"

definition is_reference :: "jnode \<Rightarrow> bool" where
  "is_reference n \<longleftrightarrow> node_type n AND cJSON_IsReference \<noteq> 0"

definition const_string :: "jnode \<Rightarrow> bool" where
  "const_string n \<longleftrightarrow> node_type n AND cJSON_StringIsConst \<noteq> 0"

section \<open>Deletion\<close>

text \<open>
  Each condition reads the item again. The fuel is used up by an item whose children contain it; the C code
  would then recurse until its stack is full.
\<close>

definition free_field :: "bool \<Rightarrow> nat option \<Rightarrow> json_heap \<Rightarrow> json_heap res" where
  "free_field cond p h = (case p of Some s \<Rightarrow> if cond then free_string s h else Inr h | None \<Rightarrow> Inr h)"

fun delete_items :: "nat \<Rightarrow> nat option \<Rightarrow> json_heap \<Rightarrow> json_heap res" where
  "delete_items fuel None h = Inr h"
| "delete_items 0 (Some c) h = Inl Diverges"
| "delete_items (Suc fuel) (Some c) h =
     rbind (item_at h (Some c)) (\<lambda>n.
     let next = node_next n in
     rbind (if \<not> is_reference n then delete_items fuel (node_child n) h else Inr h) (\<lambda>h.
     rbind (item_at h (Some c)) (\<lambda>n.
     rbind (free_field (\<not> is_reference n) (node_valuestring n) h) (\<lambda>h.
     rbind (free_field (\<not> const_string n) (node_string n) h) (\<lambda>h.
     rbind (free_item c h) (delete_items fuel next))))))"

definition cJSON_Delete :: "nat option \<Rightarrow> json_heap \<Rightarrow> json_heap res" where
  "cJSON_Delete c h = delete_items (Suc (next_addr h)) c h"

section \<open>Lookup\<close>

definition tolower :: "wchar \<Rightarrow> wchar" where
  "tolower c = (if 65 \<le> c \<and> c \<le> 90 then c + 32 else c)"

fun strcasecmp_loop :: "wchar list \<Rightarrow> wchar list \<Rightarrow> int" where
  "strcasecmp_loop [] [] = 0"
| "strcasecmp_loop [] (d # ds) = - uint (tolower d)"
| "strcasecmp_loop (c # cs) [] = uint (tolower c)"
| "strcasecmp_loop (c # cs) (d # ds) =
     (if tolower c = tolower d then strcasecmp_loop cs ds else uint (tolower c) - uint (tolower d))"

text \<open>The first string may be the null pointer.\<close>

definition cJSON_strcasecmp :: "json_heap \<Rightarrow> nat option \<Rightarrow> wchar list \<Rightarrow> int res" where
  "cJSON_strcasecmp h s1 s2 =
     (case s1 of None \<Rightarrow> Inr 1 | Some a \<Rightarrow> rbind (string_at h a) (\<lambda>s. Inr (strcasecmp_loop s s2)))"

text \<open>The loops along \<^verbatim>\<open>next\<close>; a list with a cycle uses up their fuel, more than there are items.\<close>

fun size_loop :: "nat \<Rightarrow> json_heap \<Rightarrow> nat option \<Rightarrow> nat \<Rightarrow> nat res" where
  "size_loop fuel h None i = Inr i"
| "size_loop 0 h (Some c) i = Inl Diverges"
| "size_loop (Suc fuel) h (Some c) i = rbind (item_at h (Some c)) (\<lambda>n. size_loop fuel h (node_next n) (i + 1))"

fun nth_loop :: "nat \<Rightarrow> json_heap \<Rightarrow> nat option \<Rightarrow> int \<Rightarrow> nat option res" where
  "nth_loop fuel h None i = Inr None"
| "nth_loop 0 h (Some c) i = (if 0 < i then Inl Diverges else Inr (Some c))"
| "nth_loop (Suc fuel) h (Some c) i =
     (if 0 < i then rbind (item_at h (Some c)) (\<lambda>n. nth_loop fuel h (node_next n) (i - 1)) else Inr (Some c))"

fun find_loop :: "nat \<Rightarrow> json_heap \<Rightarrow> nat option \<Rightarrow> wchar list \<Rightarrow> int \<Rightarrow> (nat option \<times> int) res" where
  "find_loop fuel h None s i = Inr (None, i)"
| "find_loop 0 h (Some c) s i = Inl Diverges"
| "find_loop (Suc fuel) h (Some c) s i =
     rbind (item_at h (Some c)) (\<lambda>n.
     rbind (cJSON_strcasecmp h (node_string n) s) (\<lambda>d.
     if d \<noteq> 0 then find_loop fuel h (node_next n) s (i + 1) else Inr (Some c, i)))"

fun last_loop :: "nat \<Rightarrow> json_heap \<Rightarrow> nat \<Rightarrow> nat res" where
  "last_loop 0 h c = Inl Diverges"
| "last_loop (Suc fuel) h c =
     rbind (item_at h (Some c)) (\<lambda>n. case node_next n of None \<Rightarrow> Inr c | Some d \<Rightarrow> last_loop fuel h d)"

definition loop_fuel :: "json_heap \<Rightarrow> nat" where "loop_fuel h = Suc (next_addr h)"

definition cJSON_GetArraySize :: "nat option \<Rightarrow> json_heap \<Rightarrow> nat res" where
  "cJSON_GetArraySize array h = rbind (item_at h array) (\<lambda>a. size_loop (loop_fuel h) h (node_child a) 0)"

definition cJSON_GetArrayItem :: "nat option \<Rightarrow> int \<Rightarrow> json_heap \<Rightarrow> nat option res" where
  "cJSON_GetArrayItem array item h = rbind (item_at h array) (\<lambda>a. nth_loop (loop_fuel h) h (node_child a) item)"

definition cJSON_GetObjectItem :: "nat option \<Rightarrow> wchar list \<Rightarrow> json_heap \<Rightarrow> nat option res" where
  "cJSON_GetObjectItem object s h =
     rbind (item_at h object) (\<lambda>a. rbind (find_loop (loop_fuel h) h (node_child a) s 0) (\<lambda>(c, _). Inr c))"

section \<open>Adding\<close>

definition suffix_object :: "nat option \<Rightarrow> nat option \<Rightarrow> json_heap \<Rightarrow> json_heap res" where
  "suffix_object prev item h =
     rbind (set_item prev (\<lambda>n. n\<lparr>node_next := item\<rparr>) h) (set_item item (\<lambda>n. n\<lparr>node_prev := prev\<rparr>))"

definition create_reference :: "(nat \<Rightarrow> bool) \<Rightarrow> nat option \<Rightarrow> json_heap \<Rightarrow> (nat option \<times> json_heap) res" where
  "create_reference alloc item h =
     (case new_item alloc h of
        (None, h) \<Rightarrow> Inr (None, h)
      | (Some ref, h) \<Rightarrow>
          rbind (item_at h item) (\<lambda>n.
          rbind (set_item (Some ref) (\<lambda>_. n\<lparr>node_string := None, node_type := node_type n OR cJSON_IsReference,
                                           node_next := None, node_prev := None\<rparr>) h) (\<lambda>h. Inr (Some ref, h))))"

definition cJSON_AddItemToArray :: "nat option \<Rightarrow> nat option \<Rightarrow> json_heap \<Rightarrow> json_heap res" where
  "cJSON_AddItemToArray array item h =
     rbind (item_at h array) (\<lambda>a.
     if item = None then Inr h
     else
       (case node_child a of
          None \<Rightarrow> set_item array (\<lambda>n. n\<lparr>node_child := item\<rparr>) h
        | Some c \<Rightarrow> rbind (last_loop (loop_fuel h) h c) (\<lambda>c. suffix_object (Some c) item h)))"

definition cJSON_AddItemToObject ::
    "(nat \<Rightarrow> bool) \<Rightarrow> nat option \<Rightarrow> wchar list \<Rightarrow> nat option \<Rightarrow> json_heap \<Rightarrow> json_heap res" where
  "cJSON_AddItemToObject alloc object s item h =
     (if item = None \<or> object = None then Inr h
      else
        rbind (cJSON_GetObjectItem object s h) (\<lambda>p.
        rbind (if p \<noteq> None then cJSON_Delete p h else Inr h) (\<lambda>h.
        rbind (item_at h item) (\<lambda>n.
        rbind (free_field True (node_string n) h) (\<lambda>h.
        case tree_strdup alloc s h of
          (copy, h) \<Rightarrow>
            rbind (set_item item (\<lambda>n. n\<lparr>node_string := copy\<rparr>) h) (cJSON_AddItemToArray object item))))))"

text \<open>The name \<open>s\<close> is a string of the caller.\<close>

definition cJSON_AddItemToObjectCS :: "nat option \<Rightarrow> nat \<Rightarrow> nat option \<Rightarrow> json_heap \<Rightarrow> json_heap res" where
  "cJSON_AddItemToObjectCS object s item h =
     (if item = None then Inr h
      else
        rbind (item_at h item) (\<lambda>n.
        rbind (free_field (\<not> const_string n) (node_string n) h) (\<lambda>h.
        rbind (set_item item (\<lambda>n. n\<lparr>node_string := Some s, node_type := node_type n OR cJSON_StringIsConst\<rparr>) h)
          (cJSON_AddItemToArray object item))))"

definition cJSON_AddItemReferenceToArray ::
    "(nat \<Rightarrow> bool) \<Rightarrow> nat option \<Rightarrow> nat option \<Rightarrow> json_heap \<Rightarrow> json_heap res" where
  "cJSON_AddItemReferenceToArray alloc array item h =
     rbind (create_reference alloc item h) (\<lambda>(ref, h). cJSON_AddItemToArray array ref h)"

definition cJSON_AddItemReferenceToObject ::
    "(nat \<Rightarrow> bool) \<Rightarrow> nat option \<Rightarrow> wchar list \<Rightarrow> nat option \<Rightarrow> json_heap \<Rightarrow> json_heap res" where
  "cJSON_AddItemReferenceToObject alloc object s item h =
     rbind (create_reference alloc item h) (\<lambda>(ref, h). cJSON_AddItemToObject alloc object s ref h)"

section \<open>Detaching, inserting, replacing\<close>

definition cJSON_DetachItemFromArray :: "nat option \<Rightarrow> int \<Rightarrow> json_heap \<Rightarrow> (nat option \<times> json_heap) res" where
  "cJSON_DetachItemFromArray array which h =
     rbind (item_at h array) (\<lambda>a.
     rbind (nth_loop (loop_fuel h) h (node_child a) which) (\<lambda>c.
     case c of
       None \<Rightarrow> Inr (None, h)
     | Some c \<Rightarrow>
         rbind (item_at h (Some c)) (\<lambda>n.
         rbind (if node_prev n \<noteq> None then set_item (node_prev n) (\<lambda>m. m\<lparr>node_next := node_next n\<rparr>) h else Inr h) (\<lambda>h.
         rbind (if node_next n \<noteq> None then set_item (node_next n) (\<lambda>m. m\<lparr>node_prev := node_prev n\<rparr>) h else Inr h) (\<lambda>h.
         rbind (if Some c = node_child a then set_item array (\<lambda>m. m\<lparr>node_child := node_next n\<rparr>) h else Inr h) (\<lambda>h.
         rbind (set_item (Some c) (\<lambda>m. m\<lparr>node_prev := None, node_next := None\<rparr>) h) (\<lambda>h.
           Inr (Some c, h))))))))"

definition cJSON_DeleteItemFromArray :: "nat option \<Rightarrow> int \<Rightarrow> json_heap \<Rightarrow> json_heap res" where
  "cJSON_DeleteItemFromArray array which h = rbind (cJSON_DetachItemFromArray array which h) (\<lambda>(c, h). cJSON_Delete c h)"

definition cJSON_DetachItemFromObject :: "nat option \<Rightarrow> wchar list \<Rightarrow> json_heap \<Rightarrow> (nat option \<times> json_heap) res" where
  "cJSON_DetachItemFromObject object s h =
     rbind (item_at h object) (\<lambda>a.
     rbind (find_loop (loop_fuel h) h (node_child a) s 0) (\<lambda>(c, i).
     if c \<noteq> None then cJSON_DetachItemFromArray object i h else Inr (None, h)))"

definition cJSON_DeleteItemFromObject :: "nat option \<Rightarrow> wchar list \<Rightarrow> json_heap \<Rightarrow> json_heap res" where
  "cJSON_DeleteItemFromObject object s h = rbind (cJSON_DetachItemFromObject object s h) (\<lambda>(c, h). cJSON_Delete c h)"

definition cJSON_InsertItemInArray :: "nat option \<Rightarrow> int \<Rightarrow> nat option \<Rightarrow> json_heap \<Rightarrow> json_heap res" where
  "cJSON_InsertItemInArray array which newitem h =
     rbind (item_at h array) (\<lambda>a.
     rbind (nth_loop (loop_fuel h) h (node_child a) which) (\<lambda>c.
     case c of
       None \<Rightarrow> cJSON_AddItemToArray array newitem h
     | Some c \<Rightarrow>
         rbind (item_at h (Some c)) (\<lambda>n.
         rbind (set_item newitem (\<lambda>m. m\<lparr>node_next := Some c, node_prev := node_prev n\<rparr>) h) (\<lambda>h.
         rbind (set_item (Some c) (\<lambda>m. m\<lparr>node_prev := newitem\<rparr>) h) (\<lambda>h.
         if Some c = node_child a then set_item array (\<lambda>m. m\<lparr>node_child := newitem\<rparr>) h
         else set_item (node_prev n) (\<lambda>m. m\<lparr>node_next := newitem\<rparr>) h)))))"

definition cJSON_ReplaceItemInArray :: "nat option \<Rightarrow> int \<Rightarrow> nat option \<Rightarrow> json_heap \<Rightarrow> json_heap res" where
  "cJSON_ReplaceItemInArray array which newitem h =
     rbind (item_at h array) (\<lambda>a.
     rbind (nth_loop (loop_fuel h) h (node_child a) which) (\<lambda>c.
     case c of
       None \<Rightarrow> Inr h
     | Some c \<Rightarrow>
         rbind (item_at h (Some c)) (\<lambda>n.
         rbind (set_item newitem (\<lambda>m. m\<lparr>node_next := node_next n, node_prev := node_prev n\<rparr>) h) (\<lambda>h.
         rbind (if node_next n \<noteq> None then set_item (node_next n) (\<lambda>m. m\<lparr>node_prev := newitem\<rparr>) h else Inr h) (\<lambda>h.
         rbind (if Some c = node_child a then set_item array (\<lambda>m. m\<lparr>node_child := newitem\<rparr>) h
                else set_item (node_prev n) (\<lambda>m. m\<lparr>node_next := newitem\<rparr>) h) (\<lambda>h.
         rbind (set_item (Some c) (\<lambda>m. m\<lparr>node_next := None, node_prev := None\<rparr>) h) (cJSON_Delete (Some c))))))))"

definition cJSON_ReplaceItemInObject ::
    "(nat \<Rightarrow> bool) \<Rightarrow> nat option \<Rightarrow> wchar list \<Rightarrow> nat option \<Rightarrow> json_heap \<Rightarrow> json_heap res" where
  "cJSON_ReplaceItemInObject alloc object s newitem h =
     rbind (item_at h object) (\<lambda>a.
     rbind (find_loop (loop_fuel h) h (node_child a) s 0) (\<lambda>(c, i).
     if c \<noteq> None then
       (case tree_strdup alloc s h of
          (copy, h) \<Rightarrow>
            rbind (set_item newitem (\<lambda>m. m\<lparr>node_string := copy\<rparr>) h) (cJSON_ReplaceItemInArray object i newitem))
     else Inr h))"

section \<open>Creation\<close>

definition set_new :: "nat option \<times> json_heap \<Rightarrow> (jnode \<Rightarrow> jnode) \<Rightarrow> nat option \<times> json_heap" where
  "set_new r f =
     (case r of
        (None, h) \<Rightarrow> (None, h)
      | (Some a, h) \<Rightarrow> (Some a, h\<lparr>items := (items h)(a := map_option f (items h a))\<rparr>))"

definition cJSON_CreateNull :: "(nat \<Rightarrow> bool) \<Rightarrow> json_heap \<Rightarrow> nat option \<times> json_heap" where
  "cJSON_CreateNull alloc h = set_new (new_item alloc h) (\<lambda>n. n\<lparr>node_type := cJSON_NULL\<rparr>)"

definition cJSON_CreateTrue :: "(nat \<Rightarrow> bool) \<Rightarrow> json_heap \<Rightarrow> nat option \<times> json_heap" where
  "cJSON_CreateTrue alloc h = set_new (new_item alloc h) (\<lambda>n. n\<lparr>node_type := cJSON_True\<rparr>)"

definition cJSON_CreateFalse :: "(nat \<Rightarrow> bool) \<Rightarrow> json_heap \<Rightarrow> nat option \<times> json_heap" where
  "cJSON_CreateFalse alloc h = set_new (new_item alloc h) (\<lambda>n. n\<lparr>node_type := cJSON_False\<rparr>)"

definition cJSON_CreateBool :: "(nat \<Rightarrow> bool) \<Rightarrow> bool \<Rightarrow> json_heap \<Rightarrow> nat option \<times> json_heap" where
  "cJSON_CreateBool alloc b h = set_new (new_item alloc h) (\<lambda>n. n\<lparr>node_type := if b then cJSON_True else cJSON_False\<rparr>)"

definition cJSON_CreateNumber :: "(nat \<Rightarrow> bool) \<Rightarrow> rat \<Rightarrow> json_heap \<Rightarrow> nat option \<times> json_heap" where
  "cJSON_CreateNumber alloc num h =
     set_new (new_item alloc h)
       (\<lambda>n. n\<lparr>node_type := cJSON_Number, node_valuedouble := num, node_valueint := double_to_int num\<rparr>)"

text \<open>A null string gives the item \<^verbatim>\<open>null\<close>; a failed copy leaves a string item without a string.\<close>

definition cJSON_CreateString :: "(nat \<Rightarrow> bool) \<Rightarrow> wchar list option \<Rightarrow> json_heap \<Rightarrow> nat option \<times> json_heap" where
  "cJSON_CreateString alloc s h =
     (case s of
        None \<Rightarrow> cJSON_CreateNull alloc h
      | Some s \<Rightarrow>
          (case new_item alloc h of
             (None, h) \<Rightarrow> (None, h)
           | (Some a, h) \<Rightarrow>
               (case tree_strdup alloc s h of
                  (copy, h) \<Rightarrow>
                    set_new (Some a, h) (\<lambda>n. n\<lparr>node_type := cJSON_String, node_valuestring := copy\<rparr>))))"

definition cJSON_CreateArray :: "(nat \<Rightarrow> bool) \<Rightarrow> json_heap \<Rightarrow> nat option \<times> json_heap" where
  "cJSON_CreateArray alloc h = set_new (new_item alloc h) (\<lambda>n. n\<lparr>node_type := cJSON_Array\<rparr>)"

definition cJSON_CreateObject :: "(nat \<Rightarrow> bool) \<Rightarrow> json_heap \<Rightarrow> nat option \<times> json_heap" where
  "cJSON_CreateObject alloc h = set_new (new_item alloc h) (\<lambda>n. n\<lparr>node_type := cJSON_Object\<rparr>)"

text \<open>The loop of the four functions that make an array; \<open>p\<close> is the item made last.\<close>

fun array_loop ::
    "('v \<Rightarrow> json_heap \<Rightarrow> nat option \<times> json_heap) \<Rightarrow> nat option \<Rightarrow> nat \<Rightarrow> nat option \<Rightarrow> 'v list \<Rightarrow> json_heap \<Rightarrow> json_heap res"
  where
  "array_loop mk a i p [] h = Inr h"
| "array_loop mk a i p (v # vs) h =
     (case mk v h of
        (n, h) \<Rightarrow>
          rbind (if i = 0 then set_item a (\<lambda>m. m\<lparr>node_child := n\<rparr>) h else suffix_object p n h)
            (array_loop mk a (i + 1) n vs))"

definition create_array_of ::
    "('v \<Rightarrow> json_heap \<Rightarrow> nat option \<times> json_heap) \<Rightarrow> (nat \<Rightarrow> bool) \<Rightarrow> 'v list \<Rightarrow> json_heap \<Rightarrow> (nat option \<times> json_heap) res" where
  "create_array_of mk alloc vs h =
     (case cJSON_CreateArray alloc h of
        (None, h) \<Rightarrow> Inr (None, h)
      | (Some a, h) \<Rightarrow> rbind (array_loop mk (Some a) 0 None vs h) (\<lambda>h. Inr (Some a, h)))"

definition cJSON_CreateIntArray :: "(nat \<Rightarrow> bool) \<Rightarrow> int list \<Rightarrow> json_heap \<Rightarrow> (nat option \<times> json_heap) res" where
  "cJSON_CreateIntArray alloc = create_array_of (\<lambda>i. cJSON_CreateNumber alloc (of_int i)) alloc"

definition cJSON_CreateFloatArray :: "(nat \<Rightarrow> bool) \<Rightarrow> rat list \<Rightarrow> json_heap \<Rightarrow> (nat option \<times> json_heap) res" where
  "cJSON_CreateFloatArray alloc = create_array_of (cJSON_CreateNumber alloc) alloc"

definition cJSON_CreateDoubleArray :: "(nat \<Rightarrow> bool) \<Rightarrow> rat list \<Rightarrow> json_heap \<Rightarrow> (nat option \<times> json_heap) res" where
  "cJSON_CreateDoubleArray alloc = create_array_of (cJSON_CreateNumber alloc) alloc"

definition cJSON_CreateStringArray ::
    "(nat \<Rightarrow> bool) \<Rightarrow> wchar list option list \<Rightarrow> json_heap \<Rightarrow> (nat option \<times> json_heap) res" where
  "cJSON_CreateStringArray alloc = create_array_of (cJSON_CreateString alloc) alloc"

section \<open>Duplication\<close>

text \<open>A field that is a string: the copy, and whether there is one if there must be.\<close>

definition dup_string :: "(nat \<Rightarrow> bool) \<Rightarrow> nat option \<Rightarrow> json_heap \<Rightarrow> (nat option \<times> bool \<times> json_heap) res" where
  "dup_string alloc p h =
     (case p of
        None \<Rightarrow> Inr (None, True, h)
      | Some a \<Rightarrow> rbind (string_at h a) (\<lambda>s. case tree_strdup alloc s h of (q, h) \<Rightarrow> Inr (q, q \<noteq> None, h)))"

definition delete_new :: "nat \<Rightarrow> json_heap \<Rightarrow> (nat option \<times> json_heap) res" where
  "delete_new new h = rbind (cJSON_Delete (Some new) h) (\<lambda>h. Inr (None, h))"

fun duplicate :: "nat \<Rightarrow> (nat \<Rightarrow> bool) \<Rightarrow> nat option \<Rightarrow> bool \<Rightarrow> json_heap \<Rightarrow> (nat option \<times> json_heap) res"
  and duplicate_children ::
    "nat \<Rightarrow> (nat \<Rightarrow> bool) \<Rightarrow> nat \<Rightarrow> nat option \<Rightarrow> nat option \<Rightarrow> json_heap \<Rightarrow> (nat option \<times> json_heap) res" where
  "duplicate fuel alloc None recurse h = Inr (None, h)"
| "duplicate 0 alloc (Some item) recurse h = Inl Diverges"
| "duplicate (Suc fuel) alloc (Some item) recurse h =
     (case new_item alloc h of
        (None, h) \<Rightarrow> Inr (None, h)
      | (Some new, h) \<Rightarrow>
          rbind (item_at h (Some item)) (\<lambda>n.
          rbind (set_item (Some new) (\<lambda>m. m\<lparr>node_type := node_type n AND NOT cJSON_IsReference,
                     node_valueint := node_valueint n, node_valuedouble := node_valuedouble n\<rparr>) h) (\<lambda>h.
          rbind (dup_string alloc (node_valuestring n) h) (\<lambda>(q, ok, h).
          rbind (set_item (Some new) (\<lambda>m. m\<lparr>node_valuestring := q\<rparr>) h) (\<lambda>h.
          if \<not> ok then delete_new new h
          else
            rbind (dup_string alloc (node_string n) h) (\<lambda>(q, ok, h).
            rbind (set_item (Some new) (\<lambda>m. m\<lparr>node_string := q\<rparr>) h) (\<lambda>h.
            if \<not> ok then delete_new new h
            else if \<not> recurse then Inr (Some new, h)
            else duplicate_children fuel alloc new (node_child n) None h)))))))"
| "duplicate_children fuel alloc new None nptr h = Inr (Some new, h)"
| "duplicate_children 0 alloc new (Some c) nptr h = Inl Diverges"
| "duplicate_children (Suc fuel) alloc new (Some c) nptr h =
     rbind (duplicate fuel alloc (Some c) True h) (\<lambda>(newchild, h).
     case newchild of
       None \<Rightarrow> delete_new new h
     | Some d \<Rightarrow>
         rbind (case nptr of
                  Some p \<Rightarrow> rbind (set_item (Some p) (\<lambda>m. m\<lparr>node_next := Some d\<rparr>) h)
                              (set_item (Some d) (\<lambda>m. m\<lparr>node_prev := Some p\<rparr>))
                | None \<Rightarrow> set_item (Some new) (\<lambda>m. m\<lparr>node_child := Some d\<rparr>) h) (\<lambda>h.
         rbind (item_at h (Some c)) (\<lambda>n. duplicate_children fuel alloc new (node_next n) (Some d) h)))"

definition cJSON_Duplicate :: "(nat \<Rightarrow> bool) \<Rightarrow> nat option \<Rightarrow> bool \<Rightarrow> json_heap \<Rightarrow> (nat option \<times> json_heap) res" where
  "cJSON_Duplicate alloc item recurse h = duplicate (2 * Suc (next_addr h)) alloc item recurse h"

end
