(* ===== verification/JsonTreeList.thy ===== *)
theory JsonTreeList
  imports JsonTree
begin

text \<open>
  The children of an array or object as a list of addresses, and what the operations that change links do to
  that list. Nothing else in memory changes.
\<close>

section \<open>Segments of a list in memory\<close>

text \<open>The items \<open>as\<close> from the pointer \<open>p\<close> to the pointer \<open>q\<close>, the first of which points back to \<open>pv\<close>.\<close>

fun dseg :: "(nat \<Rightarrow> jnode option) \<Rightarrow> nat option \<Rightarrow> nat option \<Rightarrow> nat list \<Rightarrow> nat option \<Rightarrow> bool" where
  "dseg m pv p [] q \<longleftrightarrow> p = q"
| "dseg m pv p (a # as) q \<longleftrightarrow> p = Some a \<and> (\<exists>n. m a = Some n \<and> node_prev n = pv \<and> dseg m (Some a) (node_next n) as q)"

abbreviation last_or :: "nat option \<Rightarrow> nat list \<Rightarrow> nat option" where
  "last_or pv as \<equiv> (if as = [] then pv else Some (last as))"

lemma dseg_append: "dseg m pv p (xs @ ys) q \<longleftrightarrow> (\<exists>r. dseg m pv p xs r \<and> dseg m (last_or pv xs) r ys q)"
  by (induction xs arbitrary: pv p) auto

lemma dseg_cong:
  "(\<And>a. a \<in> set as \<Longrightarrow> m' a = m a) \<Longrightarrow> dseg m' pv p as q = dseg m pv p as q"
  by (induction as arbitrary: pv p) auto

lemma dseg_update [simp]: "a \<notin> set as \<Longrightarrow> dseg (m(a := x)) pv p as q = dseg m pv p as q"
  by (rule dseg_cong) auto

lemma dseg_dom: "dseg m pv p as q \<Longrightarrow> set as \<subseteq> dom m"
  by (induction as arbitrary: pv p) auto

lemma dseg_first: "dseg m pv p (a # as) q \<Longrightarrow> p = Some a"
  by simp

section \<open>The children of an item\<close>

definition fresh_from :: "json_heap \<Rightarrow> bool" where
  "fresh_from h \<longleftrightarrow> (\<forall>a. next_addr h \<le> a \<longrightarrow> items h a = None \<and> strings h a = None)"

definition children :: "json_heap \<Rightarrow> nat \<Rightarrow> nat list \<Rightarrow> bool" where
  "children h arr as \<longleftrightarrow> distinct as \<and> arr \<notin> set as
     \<and> (\<exists>n. items h arr = Some n \<and> dseg (items h) None (node_child n) as None)"

lemma children_dom: "children h arr as \<Longrightarrow> set as \<subseteq> dom (items h)"
  unfolding children_def using dseg_dom by blast

lemma fresh_length:
  assumes "fresh_from h" and "distinct as" and "set as \<subseteq> dom (items h)"
  shows "length as \<le> next_addr h"
proof -
  have "set as \<subseteq> {..<next_addr h}"
  proof
    fix a assume "a \<in> set as"
    then show "a \<in> {..<next_addr h}" using assms(1,3) by (cases "next_addr h \<le> a") (auto simp: fresh_from_def)
  qed
  then have "card (set as) \<le> next_addr h" using card_mono [of "{..<next_addr h}" "set as"] by simp
  with assms(2) show ?thesis by (simp add: distinct_card)
qed

lemma children_length: "fresh_from h \<Longrightarrow> children h arr as \<Longrightarrow> length as < loop_fuel h"
  using fresh_length [OF _ _ children_dom] by (fastforce simp: loop_fuel_def children_def)

section \<open>The loops\<close>

lemma size_loop_seg: "dseg (items h) pv p as None \<Longrightarrow> length as \<le> f \<Longrightarrow> size_loop f h p i = Inr (i + length as)"
proof (induction as arbitrary: f p pv i)
  case (Cons a as)
  then show ?case by (cases f) (auto simp: item_at_def)
qed simp

lemma nth_loop_seg:
  "dseg (items h) pv p as None \<Longrightarrow> length as \<le> f \<Longrightarrow>
     nth_loop f h p i = Inr (if nat i < length as then Some (as ! nat i) else None)"
proof (induction as arbitrary: f p pv i)
  case (Cons a as)
  then obtain g n where f: "f = Suc g" and n: "p = Some a" "items h a = Some n" "dseg (items h) (Some a) (node_next n) as None"
    by (cases f) auto
  show ?case
  proof (cases "0 < i")
    case True
    then have "nat i = Suc (nat (i - 1))" by simp
    then show ?thesis using Cons.IH [OF n(3), of g "i - 1"] Cons.prems(2) f n True by (simp add: item_at_def)
  next
    case False
    then show ?thesis using f n by simp
  qed
qed simp

lemma last_loop_seg:
  "dseg (items h) pv (Some a) (a # as) None \<Longrightarrow> length as < f \<Longrightarrow> last_loop f h a = Inr (last (a # as))"
proof (induction as arbitrary: f a pv)
  case Nil
  then show ?case by (cases f) (auto simp: item_at_def)
next
  case (Cons b as)
  then obtain g n where f: "f = Suc g" and n: "items h a = Some n" "node_next n = Some b" "dseg (items h) (Some a) (Some b) (b # as) None"
    by (cases f) auto
  show ?case using Cons.IH [OF n(3), of g] Cons.prems(2) f n by (simp add: item_at_def)
qed

text \<open>An item has the name \<open>s\<close>.\<close>

definition named :: "json_heap \<Rightarrow> wchar list \<Rightarrow> nat \<Rightarrow> bool" where
  "named h s a \<longleftrightarrow> (\<exists>n q b t. items h a = Some n \<and> node_string n = Some q \<and> strings h q = Some (b, t) \<and> strcasecmp_loop t s = 0)"

text \<open>That is, the two are equal up to case.\<close>

lemma tolower_zero: "tolower c = 0 \<longleftrightarrow> c = 0"
  by (auto simp: tolower_def add_eq_0_iff2)

lemma strcasecmp_loop_zero:
  "0 \<notin> set s \<Longrightarrow> 0 \<notin> set t \<Longrightarrow> strcasecmp_loop s t = 0 \<longleftrightarrow> map tolower s = map tolower t"
proof (induction s t rule: strcasecmp_loop.induct)
  case (4 c cs d ds)
  have "uint (tolower c) - uint (tolower d) = 0 \<longleftrightarrow> tolower c = tolower d" by (metis eq_iff_diff_eq_0 word_uint_eqI)
  with 4 show ?case by auto
qed (auto simp: tolower_zero uint_0_iff)

text \<open>The names of all items can be read.\<close>

definition readable :: "json_heap \<Rightarrow> nat list \<Rightarrow> bool" where
  "readable h as \<longleftrightarrow> (\<forall>a \<in> set as. \<forall>n q. items h a = Some n \<and> node_string n = Some q \<longrightarrow> strings h q \<noteq> None)"

lemma readable_simps:
  "readable h (a # as) \<longleftrightarrow> readable h [a] \<and> readable h as" "readable h (as @ bs) \<longleftrightarrow> readable h as \<and> readable h bs"
  by (simp_all add: readable_def ball_Un)

lemma strcasecmp_named:
  assumes "items h a = Some n" and "readable h [a]"
  shows "\<exists>d. cJSON_strcasecmp h (node_string n) s = Inr d \<and> (d = 0 \<longleftrightarrow> named h s a)"
proof (cases "node_string n")
  case (Some q)
  then obtain b t where "strings h q = Some (b, t)" using assms by (auto simp: readable_def)
  then show ?thesis using Some assms(1) by (auto simp: cJSON_strcasecmp_def string_at_def named_def)
qed (use assms in \<open>simp add: cJSON_strcasecmp_def named_def\<close>)

lemma find_loop_none:
  "dseg (items h) pv p as None \<Longrightarrow> length as \<le> f \<Longrightarrow> readable h as \<Longrightarrow> \<forall>a \<in> set as. \<not> named h s a \<Longrightarrow>
     find_loop f h p s i = Inr (None, i + int (length as))"
proof (induction as arbitrary: f p pv i)
  case (Cons a as)
  then obtain g n where f: "f = Suc g" and n: "p = Some a" "items h a = Some n" "dseg (items h) (Some a) (node_next n) as None"
    by (cases f) auto
  from Cons.prems(3) have r: "readable h [a]" "readable h as" unfolding readable_simps(1) [of h a as] by blast+
  from strcasecmp_named [OF n(2) r(1), of s] Cons.prems(4)
  obtain d where "cJSON_strcasecmp h (node_string n) s = Inr d" "d \<noteq> 0" by auto
  with r(2) show ?case using Cons.IH [OF n(3), of g "i + 1"] Cons.prems(2,4) f n by (simp add: item_at_def ac_simps)
qed simp

lemma find_loop_some:
  "dseg (items h) pv p (xs @ c # ys) None \<Longrightarrow> length xs < f \<Longrightarrow> readable h (xs @ [c]) \<Longrightarrow>
     \<forall>a \<in> set xs. \<not> named h s a \<Longrightarrow> named h s c \<Longrightarrow>
     find_loop f h p s i = Inr (Some c, i + int (length xs))"
proof (induction xs arbitrary: f p pv i)
  case Nil
  then obtain g n where f: "f = Suc g" and n: "p = Some c" "items h c = Some n" by (cases f) auto
  from Nil.prems(3) have "readable h [c]" by simp
  from strcasecmp_named [OF n(2) this, of s] Nil.prems(5) f n show ?case by (auto simp: item_at_def)
next
  case (Cons a xs)
  then obtain g n where f: "f = Suc g" and n: "p = Some a" "items h a = Some n"
      "dseg (items h) (Some a) (node_next n) (xs @ c # ys) None"
    by (cases f) auto
  have r: "readable h [a]" "readable h (xs @ [c])"
    using Cons.prems(3) unfolding append_Cons readable_simps(1) [of h a "xs @ [c]"] by blast+
  from strcasecmp_named [OF n(2) r(1), of s] Cons.prems(4)
  obtain d where "cJSON_strcasecmp h (node_string n) s = Inr d" "d \<noteq> 0" by auto
  with r(2) show ?case using Cons.IH [OF n(3), of g "i + 1"] Cons.prems(2,4,5) f n by (simp add: item_at_def ac_simps)
qed

section \<open>What an operation may change\<close>

text \<open>
  Of the children only the links to their neighbours, of the array only the pointer to its children; of other
  items nothing.
\<close>

definition body :: "nat \<Rightarrow> nat \<Rightarrow> jnode \<Rightarrow> jnode" where
  "body arr a n = (if a = arr then n\<lparr>node_child := None\<rparr> else n\<lparr>node_next := None, node_prev := None\<rparr>)"

definition relinked :: "nat \<Rightarrow> json_heap \<Rightarrow> json_heap \<Rightarrow> bool" where
  "relinked arr h h' \<longleftrightarrow> strings h' = strings h \<and> next_addr h' = next_addr h
     \<and> (\<forall>a. map_option (body arr a) (items h' a) = map_option (body arr a) (items h a))"

lemma relinked_refl: "relinked arr h h"
  by (simp add: relinked_def)

lemma relinked_trans: "relinked arr h1 h2 \<Longrightarrow> relinked arr h2 h3 \<Longrightarrow> relinked arr h1 h3"
  by (simp add: relinked_def)

lemma relinked_dom: "relinked arr h h' \<Longrightarrow> items h' a = None \<longleftrightarrow> items h a = None"
  unfolding relinked_def by (metis option.map_disc_iff)

section \<open>Adding at the end\<close>

text \<open>An item that is in no list.\<close>

definition isolated :: "json_heap \<Rightarrow> nat \<Rightarrow> bool" where
  "isolated h x \<longleftrightarrow> (\<exists>n. items h x = Some n \<and> node_next n = None \<and> node_prev n = None)"

lemma AddItemToArray_ok:
  assumes ch: "children h arr as" and "fresh_from h" and x: "isolated h x" "x \<notin> set as" "x \<noteq> arr"
  shows "\<exists>h'. cJSON_AddItemToArray (Some arr) (Some x) h = Inr h' \<and> children h' arr (as @ [x]) \<and> relinked arr h h'"
proof -
  from ch obtain n where n: "items h arr = Some n" "dseg (items h) None (node_child n) as None" "distinct as" "arr \<notin> set as"
    by (auto simp: children_def)
  from x(1) obtain m where m: "items h x = Some m" "node_next m = None" "node_prev m = None" by (auto simp: isolated_def)
  show ?thesis
  proof (cases as rule: rev_cases)
    case Nil
    let ?h = "h\<lparr>items := (items h)(arr \<mapsto> n\<lparr>node_child := Some x\<rparr>)\<rparr>"
    have "cJSON_AddItemToArray (Some arr) (Some x) h = Inr ?h"
      using n Nil by (simp add: cJSON_AddItemToArray_def item_at_def set_item_def)
    moreover have "children ?h arr (as @ [x])" using n m x Nil by (simp add: children_def)
    moreover have "relinked arr h ?h" using n by (simp add: relinked_def body_def)
    ultimately show ?thesis by blast
  next
    case (snoc ys l)
    from n(2) snoc obtain r k where l: "dseg (items h) None (node_child n) ys (Some l)" "items h l = Some k"
        "node_prev k = last_or None ys" "node_next k = None"
      by (auto simp: dseg_append)
    let ?m = "(items h)(l \<mapsto> k\<lparr>node_next := Some x\<rparr>, x \<mapsto> m\<lparr>node_prev := Some l\<rparr>)"
    have "last_loop (loop_fuel h) h (hd as) = Inr l"
      using last_loop_seg [of h None "hd as" "tl as" "loop_fuel h"] n(2) children_length [OF assms(2) ch] snoc
      by (cases ys) auto
    moreover have "node_child n = Some (hd as)" using n(2) snoc by (cases ys) auto
    moreover have ne: "l \<noteq> x" "l \<noteq> arr" "l \<notin> set ys" using n x snoc by auto
    ultimately have "cJSON_AddItemToArray (Some arr) (Some x) h = Inr (h\<lparr>items := ?m\<rparr>)"
      using n m l by (simp add: cJSON_AddItemToArray_def item_at_def set_item_def suffix_object_def)
    moreover have "children (h\<lparr>items := ?m\<rparr>) arr (as @ [x])"
      using n m x l ne snoc by (auto simp: children_def dseg_append)
    moreover have "relinked arr h (h\<lparr>items := ?m\<rparr>)"
      using m l ne x(3) by (auto simp: relinked_def body_def)
    ultimately show ?thesis by blast
  qed
qed

section \<open>Detaching, inserting, replacing\<close>

text \<open>The surroundings of an item of a list.\<close>

lemma children_split:
  assumes "children h arr (xs @ c # ys)"
  shows "\<exists>n k. items h arr = Some n \<and> items h c = Some k \<and> dseg (items h) None (node_child n) xs (Some c)
    \<and> node_prev k = last_or None xs \<and> node_next k = (if ys = [] then None else Some (hd ys))
    \<and> dseg (items h) (Some c) (node_next k) ys None \<and> (node_child n = Some c \<longleftrightarrow> xs = [])
    \<and> (node_child n = (if xs = [] then Some c else Some (hd xs)))"
proof -
  from assms obtain n where n: "items h arr = Some n" "dseg (items h) None (node_child n) (xs @ c # ys) None"
    "distinct (xs @ c # ys)" by (auto simp: children_def)
  then obtain r where "dseg (items h) None (node_child n) xs r" "dseg (items h) (last_or None xs) r (c # ys) None"
    by (auto simp: dseg_append)
  with n show ?thesis by (cases xs; cases ys) auto
qed

text \<open>Changing the end of a segment, and the beginning.\<close>

lemma dseg_set_next:
  assumes "dseg m pv p xs q" and "distinct xs" and "xs \<noteq> [] \<Longrightarrow> m (last xs) = Some k"
  shows "dseg (if xs = [] then m else m(last xs \<mapsto> k\<lparr>node_next := q'\<rparr>)) pv (if xs = [] then q' else p) xs q'"
proof (cases xs rule: rev_cases)
  case (snoc ys l)
  with assms show ?thesis by (auto simp: dseg_append)
qed simp

lemma dseg_set_prev:
  assumes "dseg m pv p ys q" and "distinct ys" and "ys \<noteq> [] \<Longrightarrow> m (hd ys) = Some k"
  shows "dseg (if ys = [] then m else m(hd ys \<mapsto> k\<lparr>node_prev := pv'\<rparr>)) pv' p ys q"
  using assms by (cases ys) auto

lemma DetachItem_ok:
  assumes ch: "children h arr (xs @ c # ys)" and "fresh_from h"
  shows "\<exists>h'. cJSON_DetachItemFromArray (Some arr) (int (length xs)) h = Inr (Some c, h')
    \<and> children h' arr (xs @ ys) \<and> isolated h' c \<and> relinked arr h h'"
proof -
  from children_split [OF ch] obtain n k where n: "items h arr = Some n" "items h c = Some k"
      "dseg (items h) None (node_child n) xs (Some c)" "node_prev k = last_or None xs"
      "node_next k = (if ys = [] then None else Some (hd ys))" "dseg (items h) (Some c) (node_next k) ys None"
      "node_child n = (if xs = [] then Some c else Some (hd xs))" by blast
  have d: "distinct (xs @ c # ys)" "arr \<notin> set (xs @ c # ys)" using ch by (auto simp: children_def)
  have "nth_loop (loop_fuel h) h (node_child n) (int (length xs)) = Inr (Some c)"
    using nth_loop_seg [of h None "node_child n" "xs @ c # ys" "loop_fuel h" "int (length xs)"]
      children_length [OF assms(2) ch] ch n(1) by (auto simp: children_def nth_append)
  moreover obtain kl where kl: "xs \<noteq> [] \<Longrightarrow> items h (last xs) = Some kl"
    using dseg_dom [OF n(3)] by (cases xs rule: rev_cases) auto
  moreover obtain kr where kr: "ys \<noteq> [] \<Longrightarrow> items h (hd ys) = Some kr"
    using dseg_dom [OF n(6)] by (cases ys) auto
  ultimately show ?thesis
    using n d
    by (cases xs rule: rev_cases; cases ys)
      (auto simp: cJSON_DetachItemFromArray_def item_at_def set_item_def children_def isolated_def relinked_def body_def
        dseg_append)
qed

lemma InsertItem_ok:
  assumes ch: "children h arr (xs @ c # ys)" and "fresh_from h" and x: "isolated h x" "x \<notin> set (xs @ c # ys)" "x \<noteq> arr"
  shows "\<exists>h'. cJSON_InsertItemInArray (Some arr) (int (length xs)) (Some x) h = Inr h'
    \<and> children h' arr (xs @ x # c # ys) \<and> relinked arr h h'"
proof -
  from children_split [OF ch] obtain n k where n: "items h arr = Some n" "items h c = Some k"
      "dseg (items h) None (node_child n) xs (Some c)" "node_prev k = last_or None xs"
      "dseg (items h) (Some c) (node_next k) ys None"
      "node_child n = (if xs = [] then Some c else Some (hd xs))" by blast
  have d: "distinct (xs @ c # ys)" "arr \<notin> set (xs @ c # ys)" using ch by (auto simp: children_def)
  from x(1) obtain m where m: "items h x = Some m" by (auto simp: isolated_def)
  have "nth_loop (loop_fuel h) h (node_child n) (int (length xs)) = Inr (Some c)"
    using nth_loop_seg [of h None "node_child n" "xs @ c # ys" "loop_fuel h" "int (length xs)"]
      children_length [OF assms(2) ch] ch n(1) by (auto simp: children_def nth_append)
  moreover obtain kl where kl: "xs \<noteq> [] \<Longrightarrow> items h (last xs) = Some kl"
    using dseg_dom [OF n(3)] by (cases xs rule: rev_cases) auto
  moreover have "xs \<noteq> [] \<longrightarrow> hd xs \<noteq> c" using d by (cases xs) auto
  ultimately show ?thesis
    using n d m x(2,3)
    by (cases xs rule: rev_cases)
      (auto simp: cJSON_InsertItemInArray_def item_at_def set_item_def children_def relinked_def body_def dseg_append)
qed

lemma InsertItem_end:
  assumes ch: "children h arr as" and "fresh_from h" and x: "isolated h x" "x \<notin> set as" "x \<noteq> arr"
  shows "\<exists>h'. cJSON_InsertItemInArray (Some arr) (int (length as)) (Some x) h = Inr h'
    \<and> children h' arr (as @ [x]) \<and> relinked arr h h'"
proof -
  from ch obtain n where n: "items h arr = Some n" "dseg (items h) None (node_child n) as None" by (auto simp: children_def)
  then have "nth_loop (loop_fuel h) h (node_child n) (int (length as)) = Inr None"
    using nth_loop_seg [OF n(2), of "loop_fuel h" "int (length as)"] children_length [OF assms(2) ch] by simp
  with AddItemToArray_ok [OF ch assms(2) x] n show ?thesis by (simp add: cJSON_InsertItemInArray_def item_at_def)
qed

text \<open>Replacing is the same change of links, before the old item is deleted.\<close>

lemma ReplaceItem_ok:
  assumes ch: "children h arr (xs @ c # ys)" and "fresh_from h" and x: "isolated h x" "x \<notin> set (xs @ c # ys)" "x \<noteq> arr"
  shows "\<exists>h'. cJSON_ReplaceItemInArray (Some arr) (int (length xs)) (Some x) h = cJSON_Delete (Some c) h'
    \<and> children h' arr (xs @ x # ys) \<and> isolated h' c \<and> relinked arr h h'"
proof -
  from children_split [OF ch] obtain n k where n: "items h arr = Some n" "items h c = Some k"
      "dseg (items h) None (node_child n) xs (Some c)" "node_prev k = last_or None xs"
      "node_next k = (if ys = [] then None else Some (hd ys))" "dseg (items h) (Some c) (node_next k) ys None"
      "node_child n = (if xs = [] then Some c else Some (hd xs))" by blast
  have d: "distinct (xs @ c # ys)" "arr \<notin> set (xs @ c # ys)" using ch by (auto simp: children_def)
  from x(1) obtain m where m: "items h x = Some m" by (auto simp: isolated_def)
  have nth: "nth_loop (loop_fuel h) h (node_child n) (int (length xs)) = Inr (Some c)"
    using nth_loop_seg [of h None "node_child n" "xs @ c # ys" "loop_fuel h" "int (length xs)"]
      children_length [OF assms(2) ch] ch n(1) by (auto simp: children_def nth_append)
  obtain kl where kl: "xs \<noteq> [] \<Longrightarrow> items h (last xs) = Some kl"
    using dseg_dom [OF n(3)] by (cases xs rule: rev_cases) auto
  obtain kr where kr: "ys \<noteq> [] \<Longrightarrow> items h (hd ys) = Some kr"
    using dseg_dom [OF n(6)] by (cases ys) auto
  let ?m1 = "(items h)(x \<mapsto> m\<lparr>node_next := node_next k, node_prev := node_prev k\<rparr>)"
  let ?m2 = "if ys = [] then ?m1 else ?m1(hd ys \<mapsto> kr\<lparr>node_prev := Some x\<rparr>)"
  let ?m3 = "if xs = [] then ?m2(arr \<mapsto> n\<lparr>node_child := Some x\<rparr>) else ?m2(last xs \<mapsto> kl\<lparr>node_next := Some x\<rparr>)"
  let ?h = "h\<lparr>items := ?m3(c \<mapsto> k\<lparr>node_next := None, node_prev := None\<rparr>)\<rparr>"
  have hd: "xs \<noteq> [] \<Longrightarrow> hd xs \<noteq> c" using d by (cases xs) auto
  have "cJSON_ReplaceItemInArray (Some arr) (int (length xs)) (Some x) h = cJSON_Delete (Some c) ?h"
    using n d m x(2,3) nth kl kr hd
    by (cases xs rule: rev_cases; cases ys) (auto simp: cJSON_ReplaceItemInArray_def item_at_def set_item_def)
  moreover have "isolated ?h c" by (simp add: isolated_def)
  moreover have "relinked arr h ?h"
    unfolding relinked_def using n d m x(2,3) kl kr
    by (cases xs rule: rev_cases; cases ys; simp add: body_def) auto
  moreover have "children ?h arr (xs @ x # ys)"
    using n d m x(2,3) kl kr
    by (cases xs rule: rev_cases; cases ys; simp add: children_def dseg_append) auto
  ultimately show ?thesis by blast
qed

lemma GetArraySize_ok:
  "children h arr as \<Longrightarrow> fresh_from h \<Longrightarrow> cJSON_GetArraySize (Some arr) h = Inr (length as)"
  using children_length [of h arr as]
  by (auto simp: cJSON_GetArraySize_def item_at_def children_def intro!: size_loop_seg [where i = 0, simplified])

lemma GetArrayItem_ok:
  "children h arr as \<Longrightarrow> fresh_from h \<Longrightarrow>
     cJSON_GetArrayItem (Some arr) i h = Inr (if nat i < length as then Some (as ! nat i) else None)"
  using children_length [of h arr as]
  by (auto simp: cJSON_GetArrayItem_def item_at_def children_def nth_loop_seg)

text \<open>Looking up a name.\<close>

lemma GetObjectItem_none:
  assumes ch: "children h obj as" and "fresh_from h" and "readable h as" and "\<forall>a \<in> set as. \<not> named h s a"
  shows "cJSON_GetObjectItem (Some obj) s h = Inr None"
  using ch find_loop_none [of h None _ as "loop_fuel h" s 0] children_length [OF assms(2) ch] assms(3,4)
  by (auto simp: cJSON_GetObjectItem_def item_at_def children_def)

lemma GetObjectItem_some:
  assumes ch: "children h obj (xs @ c # ys)" and "fresh_from h" and "readable h (xs @ [c])"
    and "\<forall>a \<in> set xs. \<not> named h s a" and "named h s c"
  shows "cJSON_GetObjectItem (Some obj) s h = Inr (Some c)"
  using ch find_loop_some [of h None _ xs c ys "loop_fuel h" s 0] children_length [OF assms(2) ch] assms(3-5)
  by (auto simp: cJSON_GetObjectItem_def item_at_def children_def)

end
