(* ===== verification/JsonTreeForest.thy ===== *)
theory JsonTreeForest
  imports JsonTreeList
begin

text \<open>
  Whole documents in memory: the addresses of their items, the strings they own, the values they stand for.
  Deleting frees exactly what a document owns; adding under a name that is in use runs into freed memory.
\<close>

section \<open>Documents\<close>

datatype jtree = JTree (addr: nat) (subs: "jtree list")

text \<open>
  Siblings \<open>ts\<close> from the pointer \<open>p\<close> on, the first of which points back to \<open>pv\<close>. The children of a reference
  belong to another document.
\<close>

fun forest :: "json_heap \<Rightarrow> nat option \<Rightarrow> nat option \<Rightarrow> jtree list \<Rightarrow> bool" where
  "forest h pv p [] \<longleftrightarrow> p = None"
| "forest h pv p (JTree a cs # ts) \<longleftrightarrow> p = Some a \<and> (\<exists>n. items h a = Some n \<and> node_prev n = pv
     \<and> (if is_reference n then cs = [] else forest h None (node_child n) cs) \<and> forest h (Some a) (node_next n) ts)"

fun addrs :: "jtree list \<Rightarrow> nat list" where
  "addrs [] = []"
| "addrs (JTree a cs # ts) = a # addrs cs @ addrs ts"

definition opt_list :: "nat option \<Rightarrow> nat list" where
  "opt_list p = (case p of None \<Rightarrow> [] | Some s \<Rightarrow> [s])"

text \<open>The strings that an item frees with itself.\<close>

definition own_strings :: "jnode \<Rightarrow> nat list" where
  "own_strings n = (if is_reference n then [] else opt_list (node_valuestring n)) @ (if const_string n then [] else opt_list (node_string n))"

fun owned :: "json_heap \<Rightarrow> jtree list \<Rightarrow> nat list" where
  "owned h [] = []"
| "owned h (JTree a cs # ts) =
     (case items h a of None \<Rightarrow> [] | Some n \<Rightarrow> own_strings n) @ owned h cs @ owned h ts"

text \<open>Every string a document owns is allocated, and owned once.\<close>

definition owns :: "json_heap \<Rightarrow> jtree list \<Rightarrow> bool" where
  "owns h ts \<longleftrightarrow> distinct (owned h ts) \<and> (\<forall>s \<in> set (owned h ts). \<exists>t. strings h s = Some (True, t))"

lemma forest_cong: "(\<And>a. a \<in> set (addrs ts) \<Longrightarrow> items h' a = items h a) \<Longrightarrow> forest h' pv p ts = forest h pv p ts"
  by (induction h pv p ts rule: forest.induct) auto

lemma owned_cong: "(\<And>a. a \<in> set (addrs ts) \<Longrightarrow> items h' a = items h a) \<Longrightarrow> owned h' ts = owned h ts"
  by (induction h ts rule: owned.induct) auto

lemma forest_dom: "forest h pv p ts \<Longrightarrow> set (addrs ts) \<subseteq> dom (items h)"
proof (induction h pv p ts rule: forest.induct)
  case (2 h pv p a cs ts)
  then obtain n where n: "items h a = Some n" "if is_reference n then cs = [] else forest h None (node_child n) cs"
    "forest h (Some a) (node_next n) ts" by auto
  then show ?case using 2 by (cases "is_reference n") auto
qed simp

section \<open>Deletion\<close>

text \<open>What is left when the items \<open>as\<close> and the strings \<open>ss\<close> are freed.\<close>

definition without :: "nat set \<Rightarrow> nat set \<Rightarrow> json_heap \<Rightarrow> json_heap" where
  "without as ss h = h\<lparr>items := items h |` (- as), strings := strings h |` (- ss)\<rparr>"

lemma without_sel [simp]:
  "items (without as ss h) a = (if a \<in> as then None else items h a)"
  "strings (without as ss h) s = (if s \<in> ss then None else strings h s)" "next_addr (without as ss h) = next_addr h"
  by (simp_all add: without_def restrict_map_def)

lemma without_without [simp]: "without as ss (without bs rs h) = without (as \<union> bs) (ss \<union> rs) h"
  by (rule json_heap.equality) (auto simp: fun_eq_iff)

lemma without_empty [simp]: "without {} {} h = h"
  by (rule json_heap.equality) (simp_all add: fun_eq_iff)

lemma free_item_without: "items h a = Some n \<Longrightarrow> free_item a h = Inr (without {a} {} h)"
  by (simp add: free_item_def without_def restrict_map_def fun_eq_iff fun_upd_def)

lemma free_field_without:
  "\<forall>s \<in> set (if cond then opt_list p else []). \<exists>t. strings h s = Some (True, t) \<Longrightarrow>
     free_field cond p h = Inr (without {} (set (if cond then opt_list p else [])) h)"
  by (auto simp: free_field_def opt_list_def free_string_def without_def restrict_map_def fun_eq_iff fun_upd_def split: option.splits)

lemma delete_items_ok:
  "forest h pv p ts \<Longrightarrow> distinct (addrs ts) \<Longrightarrow> owns h ts \<Longrightarrow> length (addrs ts) \<le> fuel \<Longrightarrow>
     delete_items fuel p h = Inr (without (set (addrs ts)) (set (owned h ts)) h)"
proof (induction ts arbitrary: fuel pv p h rule: addrs.induct)
  case 1
  then show ?case by simp
next
  case (2 a cs ts)
  from 2(3) obtain n where n: "p = Some a" "items h a = Some n" "if is_reference n then cs = [] else forest h None (node_child n) cs"
    "forest h (Some a) (node_next n) ts" by auto
  from 2(6) obtain f where f: "fuel = Suc f" "length (addrs cs) \<le> f" "length (addrs ts) \<le> f" by (cases fuel) auto
  have d: "a \<notin> set (addrs cs)" "a \<notin> set (addrs ts)" "set (addrs cs) \<inter> set (addrs ts) = {}" "distinct (addrs cs)" "distinct (addrs ts)"
    using 2(4) by auto
  let ?s = "own_strings n"
  have o: "owned h (JTree a cs # ts) = ?s @ owned h cs @ owned h ts" using n by simp
  let ?h1 = "without (set (addrs cs)) (set (owned h cs)) h"
  have d1: "(if \<not> is_reference n then delete_items f (node_child n) h else Inr h) = Inr ?h1"
  proof (cases "is_reference n")
    case True
    then show ?thesis using n by simp
  next
    case False
    moreover have "owns h cs" using 2(5) unfolding owns_def o by auto
    ultimately show ?thesis using 2(1) [of h None "node_child n" f] n d f by simp
  qed
  let ?v = "set (if \<not> is_reference n then opt_list (node_valuestring n) else [])"
  let ?k = "set (if \<not> const_string n then opt_list (node_string n) else [])"
  have s: "set ?s = ?v \<union> ?k" "?v \<inter> ?k = {}" "(?v \<union> ?k) \<inter> (set (owned h cs) \<union> set (owned h ts)) = {}"
    using 2(5) unfolding owns_def o own_strings_def by auto
  have al: "\<forall>s \<in> ?v \<union> ?k. \<exists>t. strings h s = Some (True, t)"
    using 2(5) s(1) unfolding owns_def o by auto
  let ?h2 = "without {} ?v ?h1"
  have d2: "free_field (\<not> is_reference n) (node_valuestring n) ?h1 = Inr ?h2"
    by (rule free_field_without) (use al s in auto)
  let ?h3 = "without {} ?k ?h2"
  have d3: "free_field (\<not> const_string n) (node_string n) ?h2 = Inr ?h3"
    by (rule free_field_without) (use al s in auto)
  let ?h4 = "without {a} {} ?h3"
  have d4: "free_item a ?h3 = Inr ?h4" by (rule free_item_without [of _ _ n]) (use n d in simp)
  have same: "items ?h4 b = items h b" if "b \<in> set (addrs ts)" for b using that d by auto
  have "forest ?h4 (Some a) (node_next n) ts" using forest_cong [of ts ?h4 h] same n(4) by blast
  moreover have o4: "owned ?h4 ts = owned h ts" by (rule owned_cong) (rule same)
  moreover have "owns ?h4 ts" using 2(5) s unfolding owns_def o4 o by auto
  ultimately have d5: "delete_items f (node_next n) ?h4 = Inr (without (set (addrs ts)) (set (owned h ts)) ?h4)"
    using 2(2) [of ?h4 "Some a" "node_next n" f] d f by simp
  have "delete_items fuel p h = Inr (without (set (addrs ts)) (set (owned h ts)) ?h4)"
    using n(1,2) d(1) f(1) d1 d2 d3 d4 d5 by (simp add: item_at_def Let_def)
  also have "without (set (addrs ts)) (set (owned h ts)) ?h4
      = without (set (addrs (JTree a cs # ts))) (set (owned h (JTree a cs # ts))) h"
    unfolding o set_append s(1) by (simp add: Un_ac)
  finally show ?case .
qed

text \<open>Deleting a document frees its items and the strings it owns, and nothing else.\<close>

lemma cJSON_Delete_ok:
  assumes "forest h pv p ts" and "distinct (addrs ts)" and "owns h ts" and "fresh_from h"
  shows "cJSON_Delete p h = Inr (without (set (addrs ts)) (set (owned h ts)) h)"
  using fresh_length [OF assms(4,2) forest_dom [OF assms(1)]]
  by (simp add: cJSON_Delete_def delete_items_ok [OF assms(1-3)])

section \<open>Adding under a name\<close>

lemma last_loop_dangling:
  "dseg (items h) pv (Some a) xs (Some c) \<Longrightarrow> items h c = None \<Longrightarrow> length xs < f \<Longrightarrow> last_loop f h a = Inl UseAfterFree"
proof (induction xs arbitrary: f a pv)
  case Nil
  then show ?case by (cases f) (auto simp: item_at_def)
next
  case (Cons b xs)
  then obtain g n where f: "f = Suc g" "length xs < g" and n: "b = a" "items h a = Some n" "dseg (items h) (Some a) (node_next n) xs (Some c)"
    by (cases f) auto
  then obtain d where "node_next n = Some d" by (cases xs) auto
  then show ?case using Cons.IH [of "Some a" d g] Cons.prems(2) f n by (simp add: item_at_def)
qed

text \<open>
  The member \<open>c\<close> with the name is deleted together with the members \<open>ys\<close> behind it, but stays linked from the
  member before it or from the object, and the walk to the end of the list reads it.
\<close>

lemma AddItemToObject_existing:
  assumes ch: "children h obj (xs @ c # ys)" and fr: "fresh_from h"
    and nm: "readable h (xs @ [c])" "\<forall>a \<in> set xs. \<not> named h s a" "named h s c"
    and ts: "forest h (last_or None xs) (Some c) ts" "distinct (addrs ts)" "owns h ts"
    and other: "obj \<notin> set (addrs ts)" "set xs \<inter> set (addrs ts) = {}" "x \<notin> set (addrs ts)" "x \<notin> set xs"
    and x: "items h x = Some m" "\<forall>q. node_string m = Some q \<longrightarrow> q \<notin> set (owned h ts) \<and> (\<exists>t. strings h q = Some (True, t))"
  shows "cJSON_AddItemToObject alloc (Some obj) s (Some x) h = Inl UseAfterFree"
proof -
  let ?h1 = "without (set (addrs ts)) (set (owned h ts)) h"
  have get: "cJSON_GetObjectItem (Some obj) s h = Inr (Some c)" by (rule GetObjectItem_some [OF ch fr nm])
  have del: "cJSON_Delete (Some c) h = Inr ?h1" by (rule cJSON_Delete_ok [OF ts fr])
  have c: "c \<in> set (addrs ts)" using ts(1) by (cases ts rule: addrs.cases) auto
  let ?h2 = "without {} (set (opt_list (node_string m))) ?h1"
  have free: "free_field True (node_string m) ?h1 = Inr ?h2"
    using free_field_without [of True "node_string m" ?h1] x(2) by (auto simp: opt_list_def split: option.splits)
  obtain q h3 where str: "tree_strdup alloc s ?h2 = (q, h3)" by (cases "tree_strdup alloc s ?h2")
  then have dup: "tree_strdup alloc s ?h2 = (q, h3)" "items h3 = items ?h2" "next_addr h \<le> next_addr h3"
    by (auto simp: tree_strdup_def split: if_splits)
  have x3: "items h3 x = Some m" using dup(2) x(1) other by simp
  let ?h4 = "h3\<lparr>items := (items h3)(x \<mapsto> m\<lparr>node_string := q\<rparr>)\<rparr>"
  from children_split [OF ch] obtain n where n: "items h obj = Some n" "dseg (items h) None (node_child n) xs (Some c)"
      "node_child n = (if xs = [] then Some c else Some (hd xs))"
    by blast
  have "dseg (items ?h4) None (node_child n) xs (Some c) = dseg (items h) None (node_child n) xs (Some c)"
    by (rule dseg_cong) (use dup(2) other in auto)
  with n have seg: "dseg (items ?h4) None (node_child n) xs (Some c)" by simp
  have c4: "items ?h4 c = None" using c dup(2) other(3) by auto
  have obj: "\<exists>k. items ?h4 obj = Some k \<and> node_child k = node_child n" using n(1) x3 x(1) dup(2) other(1) by auto
  have len: "length xs < loop_fuel ?h4"
    using dup(3) children_length [OF fr ch] by (simp add: loop_fuel_def)
  have "last_loop (loop_fuel ?h4) ?h4 (hd (xs @ [c])) = Inl UseAfterFree"
    using last_loop_dangling [of ?h4 None "hd (xs @ [c])" xs c] seg c4 len n(3) by (cases xs) auto
  then have "cJSON_AddItemToArray (Some obj) (Some x) ?h4 = Inl UseAfterFree"
    using obj n(3) by (cases xs) (auto simp: cJSON_AddItemToArray_def item_at_def)
  then show ?thesis
    using get del free dup(1) x3 x(1) other(3) by (simp add: cJSON_AddItemToObject_def item_at_def set_item_def)
qed

text \<open>Under a new name the item becomes the last member, with a copy of the name.\<close>

lemma AddItemToObject_new:
  assumes ch: "children h obj as" and fr: "fresh_from h" and nm: "readable h as" "\<forall>a \<in> set as. \<not> named h s a"
    and x: "items h x = Some m" "node_next m = None" "node_prev m = None" "node_string m = None" "x \<notin> set as" "x \<noteq> obj"
    and al: "\<forall>n. alloc n"
  shows "\<exists>h' q. cJSON_AddItemToObject alloc (Some obj) s (Some x) h = Inr h' \<and> children h' obj (as @ [x])
    \<and> (\<exists>m'. items h' x = Some m' \<and> node_string m' = Some q) \<and> strings h' q = Some (True, s)"
proof -
  let ?q = "next_addr h"
  let ?h1 = "h\<lparr>strings := (strings h)(?q \<mapsto> (True, s)), next_addr := Suc ?q, items := (items h)(x \<mapsto> m\<lparr>node_string := Some ?q\<rparr>)\<rparr>"
  have "children ?h1 obj as" using ch x(5,6) by (auto simp: children_def)
  moreover have "fresh_from ?h1" using fr x(1) by (auto simp: fresh_from_def)
  moreover have "isolated ?h1 x" using x by (simp add: isolated_def)
  ultimately obtain h' where h': "cJSON_AddItemToArray (Some obj) (Some x) ?h1 = Inr h'" "children h' obj (as @ [x])" "relinked obj ?h1 h'"
    using AddItemToArray_ok [of ?h1 obj as x] x(5,6) by blast
  have "map_option (body obj x) (items h' x) = Some (body obj x (m\<lparr>node_string := Some ?q\<rparr>))"
    using h'(3) by (simp add: relinked_def)
  then have "\<exists>m'. items h' x = Some m' \<and> node_string m' = Some ?q"
    using x(6) by (cases "items h' x") (auto simp: body_def dest: arg_cong [of _ _ node_string])
  moreover have "strings h' ?q = Some (True, s)" using h'(3) by (simp add: relinked_def)
  moreover have "cJSON_AddItemToObject alloc (Some obj) s (Some x) h = Inr h'"
    using GetObjectItem_none [OF ch fr nm] x h'(1) al
    by (simp add: cJSON_AddItemToObject_def item_at_def set_item_def free_field_def tree_strdup_def)
  ultimately show ?thesis using h'(2) by blast
qed

end
