(* ===== verification/JsonTreeDuplicate.thy ===== *)
theory JsonTreeDuplicate
  imports JsonTreeForest
begin

text \<open>
  \<^verbatim>\<open>cJSON_Duplicate\<close> makes a document of its own, from new items and strings, with the same values.
\<close>

section \<open>The values of a document\<close>

definition text_of :: "json_heap \<Rightarrow> nat option \<Rightarrow> wchar list option" where
  "text_of h p = (case p of None \<Rightarrow> None | Some s \<Rightarrow> map_option snd (strings h s))"

fun item_values :: "json_heap \<Rightarrow> jtree list \<Rightarrow> cjson list" where
  "item_values h [] = []"
| "item_values h (JTree a cs # ts) =
     (case items h a of
        None \<Rightarrow> []
      | Some n \<Rightarrow> [CJSON (node_type n) (text_of h (node_valuestring n)) (node_valueint n) (node_valuedouble n)
                     (text_of h (node_string n)) (item_values h cs)])
     @ item_values h ts"

text \<open>The strings of a document.\<close>

definition node_strings :: "jnode \<Rightarrow> nat list" where
  "node_strings n = opt_list (node_valuestring n) @ opt_list (node_string n)"

fun string_ptrs :: "json_heap \<Rightarrow> jtree list \<Rightarrow> nat list" where
  "string_ptrs h [] = []"
| "string_ptrs h (JTree a cs # ts) =
     (case items h a of None \<Rightarrow> [] | Some n \<Rightarrow> node_strings n) @ string_ptrs h cs @ string_ptrs h ts"

text \<open>Strings of their own: all different, allocated, from \<open>B\<close> on.\<close>

definition new_strings :: "nat \<Rightarrow> json_heap \<Rightarrow> nat list \<Rightarrow> bool" where
  "new_strings B h ss \<longleftrightarrow> distinct ss \<and> set ss \<subseteq> {B..<next_addr h} \<and> (\<forall>s \<in> set ss. \<exists>t. strings h s = Some (True, t))"

text \<open>There is no reference in the document, and its strings can be read.\<close>

fun copyable :: "json_heap \<Rightarrow> jtree list \<Rightarrow> bool" where
  "copyable h [] \<longleftrightarrow> True"
| "copyable h (JTree a cs # ts) \<longleftrightarrow>
     (\<exists>n. items h a = Some n \<and> \<not> is_reference n
        \<and> (\<forall>q. node_valuestring n = Some q \<or> node_string n = Some q \<longrightarrow> strings h q \<noteq> None))
     \<and> copyable h cs \<and> copyable h ts"

lemma copyable_append: "copyable h (ts @ us) \<longleftrightarrow> copyable h ts \<and> copyable h us"
  by (induction h ts rule: copyable.induct) auto

lemma item_values_append: "item_values h (ts @ us) = item_values h ts @ item_values h us"
  by (induction h ts rule: item_values.induct) auto

lemma string_ptrs_append: "string_ptrs h (ts @ us) = string_ptrs h ts @ string_ptrs h us"
  by (induction h ts rule: string_ptrs.induct) auto

lemma addrs_append: "addrs (ts @ us) = addrs ts @ addrs us"
  by (induction ts rule: addrs.induct) auto

text \<open>Values do not depend on the links between siblings.\<close>

definition unlinked_node :: "jnode \<Rightarrow> jnode" where
  "unlinked_node n = n\<lparr>node_next := None, node_prev := None\<rparr>"

lemma unlinked_fields:
  assumes "unlinked_node n' = unlinked_node n"
  shows "node_type n' = node_type n" "node_valuestring n' = node_valuestring n" "node_string n' = node_string n"
    "node_valueint n' = node_valueint n" "node_valuedouble n' = node_valuedouble n" "node_child n' = node_child n"
  using assms by (simp_all add: unlinked_node_def jnode.defs, cases n, cases n', simp_all)+

lemma values_cong:
  assumes "copyable h ts" and "\<And>q t. strings h q = Some t \<Longrightarrow> strings h' q = Some t"
    and "\<And>a n. a \<in> set (addrs ts) \<Longrightarrow> items h a = Some n \<Longrightarrow> \<exists>n'. items h' a = Some n' \<and> unlinked_node n' = unlinked_node n"
  shows "copyable h' ts \<and> item_values h' ts = item_values h ts \<and> string_ptrs h' ts = string_ptrs h ts"
  using assms
proof (induction ts rule: addrs.induct)
  case (2 a cs ts)
  from 2(3) obtain n where n: "items h a = Some n" "\<not> is_reference n"
    "\<And>q. node_valuestring n = Some q \<or> node_string n = Some q \<Longrightarrow> strings h q \<noteq> None" by auto
  from 2(5) [OF _ n(1)] obtain n' where n': "items h' a = Some n'" "unlinked_node n' = unlinked_node n" by auto
  note f = unlinked_fields [OF n'(2)]
  have t: "text_of h' q = text_of h q \<and> (\<forall>s. q = Some s \<longrightarrow> strings h' s \<noteq> None)"
    if "q = node_valuestring n \<or> q = node_string n" for q
  proof (cases q)
    case (Some s)
    then have "strings h s \<noteq> None" using n(3) that by auto
    then obtain x where "strings h s = Some x" by auto
    with 2(4) [OF this] Some show ?thesis by (simp add: text_of_def)
  qed (simp add: text_of_def)
  have ih: "copyable h' cs \<and> item_values h' cs = item_values h cs \<and> string_ptrs h' cs = string_ptrs h cs"
    "copyable h' ts \<and> item_values h' ts = item_values h ts \<and> string_ptrs h' ts = string_ptrs h ts"
    using 2(1) 2(2) 2(3-5) by auto
  show ?case
    using ih n n' f t [of "node_valuestring n"] t [of "node_string n"] by (auto simp: is_reference_def node_strings_def)
qed simp

section \<open>Growing memory\<close>

text \<open>Below \<open>B\<close> nothing changes, and no string disappears.\<close>

definition keeps :: "nat \<Rightarrow> json_heap \<Rightarrow> json_heap \<Rightarrow> bool" where
  "keeps B h h' \<longleftrightarrow> next_addr h \<le> next_addr h' \<and> (\<forall>b<B. items h' b = items h b \<and> strings h' b = strings h b)
     \<and> (\<forall>q t. strings h q = Some t \<longrightarrow> strings h' q = Some t)"

lemma keeps_refl [simp]: "keeps B h h"
  by (simp add: keeps_def)

lemma keeps_trans: "keeps B h1 h2 \<Longrightarrow> keeps C h2 h3 \<Longrightarrow> B \<le> C \<Longrightarrow> keeps B h1 h3"
  by (auto simp: keeps_def)

lemma keeps_less: "keeps C h h' \<Longrightarrow> B \<le> C \<Longrightarrow> keeps B h h'"
  by (auto simp: keeps_def)

lemma fresh_below: "fresh_from h \<Longrightarrow> items h a = Some n \<Longrightarrow> a < next_addr h" "fresh_from h \<Longrightarrow> strings h q = Some t \<Longrightarrow> q < next_addr h"
  unfolding fresh_from_def by (metis not_le option.distinct(1))+

lemma keeps_strings: "fresh_from h \<Longrightarrow> keeps (next_addr h) h h' \<Longrightarrow> strings h q = Some t \<Longrightarrow> strings h' q = Some t"
  using fresh_below(2) by (auto simp: keeps_def)

lemma keeps_items: "fresh_from h \<Longrightarrow> keeps (next_addr h) h h' \<Longrightarrow> items h a = Some n \<Longrightarrow> items h' a = Some n"
  using fresh_below(1) by (auto simp: keeps_def)

lemma keeps_values:
  "fresh_from h \<Longrightarrow> keeps (next_addr h) h h' \<Longrightarrow> copyable h ts \<Longrightarrow>
     copyable h' ts \<and> item_values h' ts = item_values h ts \<and> string_ptrs h' ts = string_ptrs h ts"
  using values_cong [of h ts h'] keeps_strings keeps_items by metis

lemma keeps_forest:
  "keeps B h h' \<Longrightarrow> set (addrs ts) \<subseteq> {..<B} \<Longrightarrow> forest h' pv p ts = forest h pv p ts"
  by (rule forest_cong) (auto simp: keeps_def)

text \<open>The children of one item of a level.\<close>

definition kids :: "json_heap \<Rightarrow> jtree \<Rightarrow> bool" where
  "kids h t \<longleftrightarrow> (\<exists>n. items h (addr t) = Some n
     \<and> (if is_reference n then subs t = [] else forest h None (node_child n) (subs t)))"

lemma forest_level: "forest h pv p ts \<longleftrightarrow> dseg (items h) pv p (map addr ts) None \<and> (\<forall>t \<in> set ts. kids h t)"
proof (induction ts arbitrary: pv p)
  case (Cons t ts)
  then show ?case by (cases t) (auto simp: kids_def)
qed simp

lemma kids_cong:
  assumes "items h (addr t) = Some n" and "items h' (addr t) = Some n'" and "unlinked_node n' = unlinked_node n"
    and "\<And>a. a \<in> set (addrs (subs t)) \<Longrightarrow> items h' a = items h a"
  shows "kids h' t = kids h t"
  using assms unlinked_fields [OF assms(3)] forest_cong [OF assms(4)] by (auto simp: kids_def is_reference_def)

lemma addrs_Cons: "addrs (t # ts) = addr t # addrs (subs t) @ addrs ts"
  by (cases t) simp

lemma addr_in: "t \<in> set ts \<Longrightarrow> set (addr t # addrs (subs t)) \<subseteq> set (addrs ts)"
  by (induction ts) (auto simp: addrs_Cons)

text \<open>An item below a level is not on it.\<close>

lemma not_level:
  assumes "a \<in> set (addrs (subs u))" and "u \<in> set ts" and "distinct (new # addrs ts)"
  shows "a \<notin> set (new # map addr ts)"
  using assms
proof (induction ts)
  case (Cons t ts)
  have "a \<in> set (addrs (t # ts))" using Cons.prems(1) addr_in [OF Cons.prems(2)] by auto
  then have "a \<noteq> new" using Cons.prems(3) by auto
  show ?case
  proof (cases "u = t")
    case True
    then have "a \<notin> set (addrs ts)" "a \<noteq> addr t" using Cons.prems(1,3) by (auto simp: addrs_Cons)
    then show ?thesis using \<open>a \<noteq> new\<close> addr_in by fastforce
  next
    case False
    then have u: "u \<in> set ts" using Cons.prems(2) by simp
    then have "a \<in> set (addrs ts)" using addr_in Cons.prems(1) by fastforce
    then have "a \<noteq> addr t" using Cons.prems(3) by (auto simp: addrs_Cons)
    then show ?thesis using Cons.IH [OF Cons.prems(1) u] Cons.prems(3) by (auto simp: addrs_Cons)
  qed
qed simp

section \<open>An item under construction\<close>

text \<open>
  The item \<open>new\<close> has the fields of \<open>N\<close> and the children \<open>ds\<close>, with the values \<open>vs\<close>; all of it is new, that is,
  from \<open>B\<close> on.
\<close>

definition built :: "nat \<Rightarrow> json_heap \<Rightarrow> nat \<Rightarrow> jtree list \<Rightarrow> jnode \<Rightarrow> cjson list \<Rightarrow> bool" where
  "built B h new ds N vs \<longleftrightarrow> fresh_from h \<and> distinct (new # addrs ds) \<and> set (new # addrs ds) \<subseteq> {B..<next_addr h}
     \<and> (\<exists>c. items h new = Some (N\<lparr>node_child := c\<rparr>) \<and> dseg (items h) None c (map addr ds) None)
     \<and> (\<forall>t \<in> set ds. kids h t) \<and> copyable h ds \<and> item_values h ds = vs \<and> new_strings B h (node_strings N @ string_ptrs h ds)"

lemma new_strings_keeps: "new_strings B h ss \<Longrightarrow> keeps C h h' \<Longrightarrow> new_strings B h' ss"
  by (fastforce simp: new_strings_def keeps_def)

lemma new_strings_append:
  assumes "new_strings B h ss" and "new_strings C h ts" and "B \<le> C" and "set ss \<subseteq> {..<C}"
  shows "new_strings B h (ss @ ts)"
proof -
  have "set ss \<inter> set ts = {}" using assms(2,4) by (fastforce simp: new_strings_def)
  moreover have "set ts \<subseteq> {B..<next_addr h}" using assms(2,3) by (auto simp: new_strings_def)
  ultimately show ?thesis using assms(1,2) by (auto simp: new_strings_def)
qed

lemma new_strings_less: "new_strings C h ss \<Longrightarrow> B \<le> C \<Longrightarrow> new_strings B h ss"
  by (auto simp: new_strings_def)

lemma map_addr_subset: "set (map addr ds) \<subseteq> set (addrs ds)"
  using addr_in by fastforce

lemma built_keeps:
  assumes b: "built B h new ds N vs" and k: "keeps (next_addr h) h h'" and "fresh_from h'"
  shows "built B h' new ds N vs"
proof -
  from b obtain c where c: "items h new = Some (N\<lparr>node_child := c\<rparr>)" "dseg (items h) None c (map addr ds) None"
    by (auto simp: built_def)
  have fr: "fresh_from h" and sub: "set (new # addrs ds) \<subseteq> {..<next_addr h}" using b by (auto simp: built_def)
  have "dseg (items h') None c (map addr ds) None = dseg (items h) None c (map addr ds) None"
    by (rule dseg_cong) (use map_addr_subset [of ds] sub k in \<open>auto simp: keeps_def\<close>)
  then have "\<exists>c. items h' new = Some (N\<lparr>node_child := c\<rparr>) \<and> dseg (items h') None c (map addr ds) None"
    using keeps_items [OF fr k c(1)] c(2) by blast
  moreover have "kids h' t" if "t \<in> set ds" for t
  proof -
    have "kids h t" using b that by (simp add: built_def)
    then obtain n where n: "items h (addr t) = Some n" by (auto simp: kids_def)
    have "items h' a = items h a" if "a \<in> set (addrs (subs t))" for a
      using addr_in [OF \<open>t \<in> set ds\<close>] that sub k by (auto simp: keeps_def)
    with kids_cong [OF n keeps_items [OF fr k n]] \<open>kids h t\<close> show ?thesis by simp
  qed
  moreover have "copyable h' ds \<and> item_values h' ds = item_values h ds \<and> string_ptrs h' ds = string_ptrs h ds"
    by (rule keeps_values [OF fr k]) (use b in \<open>simp add: built_def\<close>)
  moreover have "new_strings B h' (node_strings N @ string_ptrs h ds)"
    by (rule new_strings_keeps [OF _ k]) (use b in \<open>simp add: built_def\<close>)
  moreover have "set (new # addrs ds) \<subseteq> {B..<next_addr h'}" using b k by (fastforce simp: built_def keeps_def)
  ultimately show ?thesis using b assms(3) by (simp add: built_def)
qed

text \<open>The links that make a finished item the next child.\<close>

definition link_child :: "nat \<Rightarrow> nat option \<Rightarrow> nat \<Rightarrow> json_heap \<Rightarrow> json_heap res" where
  "link_child new nptr d h =
     (case nptr of
        Some p \<Rightarrow> rbind (set_item (Some p) (\<lambda>m. m\<lparr>node_next := Some d\<rparr>) h)
                    (set_item (Some d) (\<lambda>m. m\<lparr>node_prev := Some p\<rparr>))
      | None \<Rightarrow> set_item (Some new) (\<lambda>m. m\<lparr>node_child := Some d\<rparr>) h)"

text \<open>The outcome: only the item itself, its last child and the new child have changed, and only in their links.\<close>

lemma link_child_items:
  assumes "items h new = Some (N\<lparr>node_child := c\<rparr>)" and "dseg (items h) None c as None"
    and "items h d = Some k" "node_next k = None" "node_prev k = None"
    and "distinct (new # as)" and "d \<notin> set (new # as)"
  shows "\<exists>m c'. link_child new (last_or None as) d h = Inr (h\<lparr>items := m\<rparr>)
    \<and> m new = Some (N\<lparr>node_child := c'\<rparr>) \<and> dseg m None c' (as @ [d]) None
    \<and> (\<forall>a. a \<notin> set (new # as @ [d]) \<longrightarrow> m a = items h a)
    \<and> (\<forall>a n. a \<noteq> new \<and> items h a = Some n \<longrightarrow> (\<exists>n'. m a = Some n' \<and> unlinked_node n' = unlinked_node n))"
proof (cases as rule: rev_cases)
  case Nil
  then show ?thesis
    using assms by (intro exI [of _ "(items h)(new \<mapsto> N\<lparr>node_child := Some d\<rparr>)"] exI [of _ "Some d"])
      (auto simp: link_child_def set_item_def)
next
  case (snoc ys l)
  with assms(2) obtain kl where l: "items h l = Some kl" "dseg (items h) None c ys (Some l)" "node_prev kl = last_or None ys"
      "node_next kl = None"
    by (auto simp: dseg_append)
  let ?m = "(items h)(l \<mapsto> kl\<lparr>node_next := Some d\<rparr>, d \<mapsto> k\<lparr>node_prev := Some l\<rparr>)"
  have "link_child new (last_or None as) d h = Inr (h\<lparr>items := ?m\<rparr>)"
    using assms l snoc by (simp add: link_child_def set_item_def)
  moreover have "dseg ?m None c (as @ [d]) None" using assms l snoc by (auto simp: dseg_append)
  moreover have "?m new = Some (N\<lparr>node_child := c\<rparr>)" using assms snoc by auto
  moreover have "\<forall>a. a \<notin> set (new # as @ [d]) \<longrightarrow> ?m a = items h a" using snoc by auto
  moreover have "\<forall>a n. a \<noteq> new \<and> items h a = Some n \<longrightarrow> (\<exists>n'. ?m a = Some n' \<and> unlinked_node n' = unlinked_node n)"
    using l assms by (auto simp: unlinked_node_def)
  ultimately show ?thesis by blast
qed

lemma link_child_built:
  assumes b: "built B h new ds N vs" and t: "kids h t" "items h (addr t) = Some k" "node_next k = None" "node_prev k = None"
    and cp: "copyable h [t]" and sub: "set (addrs [t]) \<subseteq> {B..<next_addr h}"
    and dj: "set (addrs [t]) \<inter> set (new # addrs ds) = {}" "distinct (addrs [t])"
    and str: "new_strings B h (string_ptrs h [t])" "set (string_ptrs h [t]) \<inter> set (node_strings N @ string_ptrs h ds) = {}"
  shows "\<exists>h'. link_child new (last_or None (map addr ds)) (addr t) h = Inr h' \<and> built B h' new (ds @ [t]) N (vs @ item_values h [t])
    \<and> keeps B h h' \<and> next_addr h' = next_addr h"
proof -
  from b obtain c where c: "items h new = Some (N\<lparr>node_child := c\<rparr>)" "dseg (items h) None c (map addr ds) None"
    by (auto simp: built_def)
  have fr: "fresh_from h" and d: "distinct (new # addrs ds)" using b by (auto simp: built_def)
  have t_in: "addr t \<in> set (addrs [t])" by (cases t) simp
  have "distinct (map addr ds)" if "distinct (addrs ds)" for ds
    using that by (induction ds) (use map_addr_subset in \<open>fastforce simp: addrs_Cons\<close>)+
  then have dm: "distinct (new # map addr ds)" using d map_addr_subset [of ds] by auto
  have out: "addr t \<notin> set (new # map addr ds)" using dj(1) t_in map_addr_subset [of ds] by auto
  from link_child_items [OF c t(2-4) dm out] obtain m c' where m:
      "link_child new (last_or None (map addr ds)) (addr t) h = Inr (h\<lparr>items := m\<rparr>)"
      "m new = Some (N\<lparr>node_child := c'\<rparr>)" "dseg m None c' (map addr ds @ [addr t]) None"
      "\<And>a. a \<notin> set (new # map addr ds @ [addr t]) \<Longrightarrow> m a = items h a"
      "\<And>a n. a \<noteq> new \<Longrightarrow> items h a = Some n \<Longrightarrow> \<exists>n'. m a = Some n' \<and> unlinked_node n' = unlinked_node n"
    by (auto 4 4)
  let ?h = "h\<lparr>items := m\<rparr>"
  have level: "set (new # map addr ds @ [addr t]) \<subseteq> {B..<next_addr h}"
    using b sub t_in map_addr_subset [of ds] by (auto simp: built_def)
  have dist: "distinct (new # addrs (ds @ [t]))" "set (new # addrs (ds @ [t])) \<subseteq> {B..<next_addr h}"
    using d dj sub b by (auto simp: addrs_append built_def)
  have kids: "kids ?h u" if u: "u \<in> set (ds @ [t])" for u
  proof -
    have ku: "kids h u" using u b t(1) by (auto simp: built_def)
    then obtain n where n: "items h (addr u) = Some n" by (auto simp: kids_def)
    have "addr u \<noteq> new" using addr_in [OF u] dist(1) by auto
    from m(5) [OF this n] obtain n' where n': "m (addr u) = Some n'" "unlinked_node n' = unlinked_node n" by auto
    have "items ?h a = items h a" if "a \<in> set (addrs (subs u))" for a
    proof -
      have "a \<notin> set (new # map addr (ds @ [t]))"
        using that u dist(1) by (rule not_level)
      then show ?thesis using m(4) by simp
    qed
    with kids_cong [OF n, of ?h n'] n' ku show ?thesis by simp
  qed
  have fr': "fresh_from ?h" using fr m(4) level unfolding fresh_from_def by (auto simp del: set_map) (metis atLeastLessThan_iff leD subsetD)
  have "copyable h (ds @ [t])" using b cp by (simp add: built_def copyable_append)
  moreover have "\<exists>n'. items ?h a = Some n' \<and> unlinked_node n' = unlinked_node n"
    if "a \<in> set (addrs (ds @ [t]))" "items h a = Some n" for a n
    using that dist(1) m(5) [of a n] by auto
  ultimately have "copyable ?h (ds @ [t]) \<and> item_values ?h (ds @ [t]) = item_values h (ds @ [t])
      \<and> string_ptrs ?h (ds @ [t]) = string_ptrs h (ds @ [t])"
    by (intro values_cong) auto
  moreover have "new_strings B ?h (node_strings N @ string_ptrs h (ds @ [t]))"
  proof -
    have "new_strings B h (node_strings N @ string_ptrs h ds)" using b by (simp add: built_def)
    then show ?thesis using str by (auto simp: new_strings_def string_ptrs_append)
  qed
  moreover have "m b = items h b" if "b < B" for b
    using m(4) [of b] level that by (meson atLeastLessThan_iff not_le subsetD)
  then have "keeps B h ?h" by (simp add: keeps_def)
  ultimately show ?thesis
    using m(1-3) kids dist fr' b unfolding built_def by (auto simp: item_values_append)
qed

section \<open>Duplication\<close>

lemma type_without_reference: "x AND m = 0 \<Longrightarrow> x AND NOT m = (x :: int)"
  by (rule bit_eqI) (metis bit_and_iff bit_not_iff bit_0_eq bot_apply bot_bool_def)

text \<open>The new item, before its children.\<close>

definition copied :: "jnode \<Rightarrow> nat option \<Rightarrow> nat option \<Rightarrow> jnode" where
  "copied n vs nm = node_zero\<lparr>node_type := node_type n AND NOT cJSON_IsReference, node_valueint := node_valueint n,
     node_valuedouble := node_valuedouble n, node_valuestring := vs, node_string := nm\<rparr>"

lemma dup_string_ok:
  assumes "\<forall>n. alloc n" and "fresh_from h" and "\<forall>q. p = Some q \<longrightarrow> strings h q \<noteq> None"
  shows "\<exists>q h'. dup_string alloc p h = Inr (q, True, h') \<and> items h' = items h \<and> fresh_from h' \<and> keeps (next_addr h) h h'
    \<and> text_of h' q = text_of h p \<and> new_strings (next_addr h) h' (opt_list q)"
proof (cases p)
  case None
  then show ?thesis using assms(2) by (simp add: dup_string_def text_of_def new_strings_def opt_list_def)
next
  case (Some s)
  then obtain b t where "strings h s = Some (b, t)" using assms(3) by fastforce
  then show ?thesis
    using Some assms(1,2) by (auto simp: dup_string_def string_at_def tree_strdup_def text_of_def keeps_def fresh_from_def new_strings_def opt_list_def)
qed

text \<open>The part of \<^verbatim>\<open>cJSON_Duplicate\<close> before its loop.\<close>

lemma duplicate_head:
  assumes al: "\<forall>n. alloc n" and fr: "fresh_from h" and n: "items h a = Some n" "\<not> is_reference n"
    and str: "\<forall>q. node_valuestring n = Some q \<or> node_string n = Some q \<longrightarrow> strings h q \<noteq> None"
  shows "\<exists>h' vs nm. duplicate (Suc fuel) alloc (Some a) True h = duplicate_children fuel alloc (next_addr h) (node_child n) None h'
    \<and> built (next_addr h) h' (next_addr h) [] (copied n vs nm) [] \<and> keeps (next_addr h) h h'
    \<and> text_of h' vs = text_of h (node_valuestring n) \<and> text_of h' nm = text_of h (node_string n)
    \<and> new_strings (next_addr h) h' (opt_list vs @ opt_list nm)"
proof -
  let ?d = "next_addr h"
  let ?n1 = "node_zero\<lparr>node_type := node_type n AND NOT cJSON_IsReference, node_valueint := node_valueint n, node_valuedouble := node_valuedouble n\<rparr>"
  let ?h1 = "h\<lparr>next_addr := Suc ?d, items := (items h)(?d \<mapsto> ?n1)\<rparr>"
  have ne: "a \<noteq> ?d" using fresh_below(1) [OF fr n(1)] by simp
  have f1: "fresh_from ?h1" and k1: "keeps ?d h ?h1" using fr by (auto simp: fresh_from_def keeps_def)
  have "\<forall>q. node_valuestring n = Some q \<longrightarrow> strings ?h1 q \<noteq> None" using str by simp
  from dup_string_ok [OF al f1 this] obtain vs h2 where h2: "dup_string alloc (node_valuestring n) ?h1 = Inr (vs, True, h2)"
    "items h2 = items ?h1" "fresh_from h2" "keeps (Suc ?d) ?h1 h2" "text_of h2 vs = text_of ?h1 (node_valuestring n)"
    "new_strings (Suc ?d) h2 (opt_list vs)" by auto
  let ?h3 = "h2\<lparr>items := (items h2)(?d \<mapsto> ?n1\<lparr>node_valuestring := vs\<rparr>)\<rparr>"
  have lt: "?d < next_addr h2" using h2(4) by (simp add: keeps_def)
  have f3: "fresh_from ?h3" using h2(3) lt by (auto simp: fresh_from_def)
  have "strings ?h3 q \<noteq> None" if "node_string n = Some q" for q
  proof -
    have "strings ?h1 q \<noteq> None" using str that by simp
    then show ?thesis using h2(4) fresh_below(2) [OF f1] by (auto simp: keeps_def)
  qed
  then have "\<forall>q. node_string n = Some q \<longrightarrow> strings ?h3 q \<noteq> None" by blast
  from dup_string_ok [OF al f3 this] obtain nm h4 where h4: "dup_string alloc (node_string n) ?h3 = Inr (nm, True, h4)"
    "items h4 = items ?h3" "fresh_from h4" "keeps (next_addr h2) ?h3 h4" "text_of h4 nm = text_of ?h3 (node_string n)"
    "new_strings (next_addr h2) h4 (opt_list nm)" by auto
  let ?h5 = "h4\<lparr>items := (items h4)(?d \<mapsto> copied n vs nm)\<rparr>"
  have lt4: "?d < next_addr h4" using lt h4(4) by (simp add: keeps_def)
  have f5: "fresh_from ?h5" using h4(3) lt4 by (auto simp: fresh_from_def)
  have "duplicate (Suc fuel) alloc (Some a) True h = duplicate_children fuel alloc ?d (node_child n) None ?h5"
    using al n ne h2(1,2) h4(1,2)
    by (simp add: new_item_def item_at_def set_item_def copied_def)
  moreover have new: "new_strings ?d ?h5 (opt_list vs @ opt_list nm)"
  proof -
    have "new_strings (Suc ?d) ?h3 (opt_list vs)" using h2(6) by (simp add: new_strings_def)
    then have "new_strings (Suc ?d) h4 (opt_list vs)" using h4(4) by (rule new_strings_keeps)
    moreover have "set (opt_list vs) \<subseteq> {..<next_addr h2}" using h2(6) by (auto simp: new_strings_def)
    ultimately have "new_strings (Suc ?d) h4 (opt_list vs @ opt_list nm)"
      using new_strings_append h4(6) lt by (metis Suc_leI)
    then have "new_strings ?d h4 (opt_list vs @ opt_list nm)" by (rule new_strings_less) simp
    then show ?thesis by (simp add: new_strings_def)
  qed
  moreover have "built ?d ?h5 ?d [] (copied n vs nm) []"
    using f5 lt4 new by (simp add: built_def) (simp add: copied_def node_zero_def node_strings_def)
  moreover have "keeps ?d h ?h5"
    using k1 h2(2,4) h4(2,4) by (auto simp: keeps_def)
  moreover have st: "strings ?h5 q = Some t" if "strings h q = Some t" for q t
    using that fresh_below(2) [OF fr that] h2(4) h4(4) by (auto simp: keeps_def)
  have s3: "strings ?h5 q = strings h2 q" if "strings h2 q \<noteq> None" for q
    using that fresh_below(2) [OF h2(3)] h4(4) by (auto simp: keeps_def)
  have t1: "text_of ?h1 q = text_of h q" for q by (cases q) (simp_all add: text_of_def)
  have "text_of ?h5 vs = text_of h2 vs"
  proof (cases vs)
    case (Some q)
    then have "strings h2 q \<noteq> None" using h2(6) by (auto simp: new_strings_def opt_list_def)
    from s3 [OF this] show ?thesis using Some by (simp add: text_of_def)
  qed (simp add: text_of_def)
  then have "text_of ?h5 vs = text_of h (node_valuestring n)" using h2(5) t1 by simp
  moreover have "text_of ?h5 nm = text_of h (node_string n)"
  proof -
    have "text_of ?h5 nm = text_of h4 nm" by (cases nm) (simp_all add: text_of_def)
    moreover have "text_of ?h3 (node_string n) = text_of h (node_string n)"
    proof (cases "node_string n")
      case (Some q)
      then have "strings h q \<noteq> None" using str by blast
      then have "strings h2 q = strings h q" using h2(4) fresh_below(2) [OF fr] by (auto simp: keeps_def)
      then show ?thesis using Some by (simp add: text_of_def)
    qed (simp add: text_of_def)
    ultimately show ?thesis using h4(5) by simp
  qed
  ultimately show ?thesis by blast
qed

text \<open>What the loop does with the children \<open>ts\<close>.\<close>

definition dup_ok :: "jtree list \<Rightarrow> bool" where
  "dup_ok ts \<longleftrightarrow> (\<forall>alloc h pv p B new ds N vs fuel.
     (\<forall>n. alloc n) \<and> built B h new ds N vs \<and> forest h pv p ts \<and> set (addrs ts) \<subseteq> {..<B} \<and> copyable h ts \<and> 2 * length (addrs ts) \<le> fuel
     \<longrightarrow> (\<exists>h' es. duplicate_children fuel alloc new p (last_or None (map addr ds)) h = Inr (Some new, h')
           \<and> built B h' new (ds @ es) N (vs @ item_values h ts) \<and> keeps B h h'))"

text \<open>From that, the duplicate of an item with these children.\<close>

lemma duplicate_item:
  assumes dup: "dup_ok cs" and al: "\<forall>n. alloc n" and fr: "fresh_from h" and cp: "copyable h [JTree a cs]"
    and n: "items h a = Some n" "forest h None (node_child n) cs" and fuel: "2 * length (addrs cs) \<le> fuel"
  shows "\<exists>d h' es k. duplicate (Suc fuel) alloc (Some a) True h = Inr (Some d, h') \<and> fresh_from h' \<and> keeps (next_addr h) h h'
    \<and> items h' d = Some k \<and> node_next k = None \<and> node_prev k = None \<and> kids h' (JTree d es) \<and> copyable h' [JTree d es]
    \<and> item_values h' [JTree d es] = item_values h [JTree a cs]
    \<and> set (addrs [JTree d es]) \<subseteq> {next_addr h..<next_addr h'} \<and> distinct (addrs [JTree d es])
    \<and> new_strings (next_addr h) h' (string_ptrs h' [JTree d es])"
proof -
  let ?B = "next_addr h"
  have c: "\<not> is_reference n" "copyable h cs" "\<forall>q. node_valuestring n = Some q \<or> node_string n = Some q \<longrightarrow> strings h q \<noteq> None"
    using cp n(1) by auto
  from duplicate_head [OF al fr n(1) c(1,3), of fuel] obtain h1 vs nm where h1:
      "duplicate (Suc fuel) alloc (Some a) True h = duplicate_children fuel alloc ?B (node_child n) None h1"
      "built ?B h1 ?B [] (copied n vs nm) []" "keeps ?B h h1"
      "text_of h1 vs = text_of h (node_valuestring n)" "text_of h1 nm = text_of h (node_string n)"
      "new_strings ?B h1 (opt_list vs @ opt_list nm)" by blast
  have sub: "set (addrs cs) \<subseteq> {..<?B}" using forest_dom [OF n(2)] fresh_below(1) [OF fr] by auto
  have v: "copyable h1 cs \<and> item_values h1 cs = item_values h cs" using keeps_values [OF fr h1(3) c(2)] by blast
  have set: "\<exists>t. strings h1 s = Some t" if "vs = Some s \<or> nm = Some s" for s
    using that h1(6) by (auto simp: new_strings_def opt_list_def)
  have "forest h1 None (node_child n) cs" using keeps_forest [OF h1(3) sub] n(2) by blast
  from dup [unfolded dup_ok_def, rule_format, of alloc ?B h1 ?B "[]" "copied n vs nm" "[]" None "node_child n" fuel] this
  obtain h2 es where h2:
      "duplicate_children fuel alloc ?B (node_child n) None h1 = Inr (Some ?B, h2)"
      "built ?B h2 ?B es (copied n vs nm) (item_values h cs)" "keeps ?B h1 h2"
    using al h1(2) sub v fuel by auto
  from h2(2) obtain k where k: "items h2 ?B = Some (copied n vs nm\<lparr>node_child := k\<rparr>)" "dseg (items h2) None k (map addr es) None"
    by (auto simp: built_def)
  let ?k = "copied n vs nm\<lparr>node_child := k\<rparr>"
  have ref: "node_type n AND cJSON_IsReference = 0" using c(1) by (simp add: is_reference_def)
  have ty: "node_type ?k = node_type n" using type_without_reference [OF ref] by (simp add: copied_def node_zero_def)
  then have nr: "\<not> is_reference ?k" using c(1) by (simp add: is_reference_def)
  have st: "text_of h2 q = text_of h1 q" if "q = vs \<or> q = nm" for q
    using that set h2(3) by (cases q) (fastforce simp: text_of_def keeps_def)+
  have sn: "\<forall>s. vs = Some s \<or> nm = Some s \<longrightarrow> strings h2 s \<noteq> None" using set h2(3) by (fastforce simp: keeps_def)
  have level: "kids h2 (JTree ?B es)"
    using k nr h2(2) by (simp add: kids_def forest_level built_def)
  moreover have "copyable h2 [JTree ?B es]"
    using k(1) nr sn h2(2) by (simp add: built_def) (simp add: copied_def)
  moreover have "item_values h2 [JTree ?B es] = item_values h [JTree a cs]"
    using k(1) n(1) ty h2(2) st [of vs] st [of nm] h1(4,5) by (simp add: built_def) (simp add: copied_def)
  moreover have "string_ptrs h2 [JTree ?B es] = node_strings (copied n vs nm) @ string_ptrs h2 es"
    using k(1) by (simp add: node_strings_def)
  then have "new_strings ?B h2 (string_ptrs h2 [JTree ?B es])" using h2(2) by (simp add: built_def)
  moreover have "fresh_from h2" "set (addrs [JTree ?B es]) \<subseteq> {?B..<next_addr h2}" "distinct (addrs [JTree ?B es])"
    using h2(2) by (auto simp: built_def)
  moreover have "node_next ?k = None" "node_prev ?k = None" by (simp_all add: copied_def node_zero_def)
  moreover have "keeps ?B h h2" using keeps_trans [OF h1(3) h2(3)] by simp
  moreover have "duplicate (Suc fuel) alloc (Some a) True h = Inr (Some ?B, h2)" using h1(1) h2(1) by simp
  ultimately show ?thesis using k(1) by blast
qed

lemma duplicate_children_link:
  "duplicate_children (Suc fuel) alloc new (Some c) nptr h =
     rbind (duplicate fuel alloc (Some c) True h) (\<lambda>(newchild, h).
     case newchild of
       None \<Rightarrow> delete_new new h
     | Some d \<Rightarrow> rbind (link_child new nptr d h) (\<lambda>h.
         rbind (item_at h (Some c)) (\<lambda>n. duplicate_children fuel alloc new (node_next n) (Some d) h)))"
  unfolding duplicate_children.simps link_child_def by (rule refl)

lemma dup_ok_all: "dup_ok ts"
proof (induction ts rule: addrs.induct)
  case 1
  show ?case unfolding dup_ok_def
  proof (intro allI impI, elim conjE)
    fix alloc h pv p B new ds N vs fuel
    assume "built B h new ds N vs" "forest h pv p []"
    then show "\<exists>h' es. duplicate_children fuel alloc new p (last_or None (map addr ds)) h = Inr (Some new, h')
        \<and> built B h' new (ds @ es) N (vs @ item_values h []) \<and> keeps B h h'"
      by (intro exI [of _ h] exI [of _ "[]"]) (cases fuel; simp)
  qed
next
  case (2 a cs ts)
  show ?case unfolding dup_ok_def
  proof (intro allI impI, elim conjE)
    fix alloc :: "nat \<Rightarrow> bool" and h pv p B new ds N vs fuel
    assume al: "\<forall>n. alloc n" and b: "built B h new ds N vs" and fo: "forest h pv p (JTree a cs # ts)"
      and sub: "set (addrs (JTree a cs # ts)) \<subseteq> {..<B}" and cp: "copyable h (JTree a cs # ts)"
      and fuel: "2 * length (addrs (JTree a cs # ts)) \<le> fuel"
    from cp obtain n where n: "items h a = Some n" "\<not> is_reference n" by auto
    with fo have fo': "p = Some a" "forest h None (node_child n) cs" "forest h (Some a) (node_next n) ts" by auto
    from fuel obtain g where g: "fuel = Suc (Suc g)" "2 * length (addrs cs) \<le> g" "2 * length (addrs ts) \<le> Suc g"
      by (cases fuel; cases "fuel - 1") auto
    have fr: "fresh_from h" and B: "B \<le> next_addr h" using b by (auto simp: built_def)
    have cp1: "copyable h [JTree a cs]" "copyable h ts" using cp by auto
    from duplicate_item [OF 2(1) al fr cp1(1) n(1) fo'(2) g(2)] obtain d h1 es k where h1:
        "duplicate (Suc g) alloc (Some a) True h = Inr (Some d, h1)" "fresh_from h1" "keeps (next_addr h) h h1"
        "items h1 d = Some k" "node_next k = None" "node_prev k = None" "kids h1 (JTree d es)" "copyable h1 [JTree d es]"
        "item_values h1 [JTree d es] = item_values h [JTree a cs]"
        "set (addrs [JTree d es]) \<subseteq> {next_addr h..<next_addr h1}" "distinct (addrs [JTree d es])"
        "new_strings (next_addr h) h1 (string_ptrs h1 [JTree d es])"
      by blast
    have b1: "built B h1 new ds N vs" by (rule built_keeps [OF b h1(3,2)])
    have "set (addrs [JTree d es]) \<inter> set (new # addrs ds) = {}" using b h1(10) by (fastforce simp: built_def)
    moreover have "set (addrs [JTree d es]) \<subseteq> {B..<next_addr h1}" using h1(10) B by fastforce
    moreover have "new_strings B h1 (string_ptrs h1 [JTree d es])" using h1(12) B by (fastforce simp: new_strings_def)
    moreover have "string_ptrs h1 ds = string_ptrs h ds" using keeps_values [OF fr h1(3)] b by (simp add: built_def)
    then have "set (string_ptrs h1 [JTree d es]) \<inter> set (node_strings N @ string_ptrs h1 ds) = {}"
      using h1(12) b by (fastforce simp: built_def new_strings_def)
    ultimately obtain h2 where h2: "link_child new (last_or None (map addr ds)) d h1 = Inr h2"
        "built B h2 new (ds @ [JTree d es]) N (vs @ item_values h [JTree a cs])" "keeps B h1 h2"
      using link_child_built [OF b1, of "JTree d es" k] h1(4-9,11) by (simp del: addrs.simps string_ptrs.simps) blast
    have keep: "keeps B h h2" using keeps_trans [OF keeps_less [OF h1(3) B] h2(3)] by simp
    have a: "items h2 a = Some n" using keep sub n(1) by (auto simp: keeps_def)
    have "forest h2 (Some a) (node_next n) ts" using keeps_forest [OF keep, of ts] sub fo'(3) by auto
    moreover have v: "copyable h2 ts \<and> item_values h2 ts = item_values h ts \<and> string_ptrs h2 ts = string_ptrs h ts"
      by (rule values_cong [OF cp1(2)]) (use keep sub in \<open>auto simp: keeps_def\<close>)
    moreover have "last_or None (map addr (ds @ [JTree d es])) = Some d" by simp
    ultimately obtain h3 fs where h3: "duplicate_children (Suc g) alloc new (node_next n) (Some d) h2 = Inr (Some new, h3)"
        "built B h3 new ((ds @ [JTree d es]) @ fs) N ((vs @ item_values h [JTree a cs]) @ item_values h2 ts)" "keeps B h2 h3"
      using 2(2) [unfolded dup_ok_def, rule_format, of alloc B h2 new "ds @ [JTree d es]" N "vs @ item_values h [JTree a cs]"
          "Some a" "node_next n" "Suc g"] al h2(2) sub g(3) by auto
    have "duplicate_children fuel alloc new p (last_or None (map addr ds)) h = Inr (Some new, h3)"
      unfolding g(1) fo'(1) duplicate_children_link using h1(1) h2(1) a h3(1) by (simp add: item_at_def)
    moreover have "built B h3 new (ds @ JTree d es # fs) N (vs @ item_values h (JTree a cs # ts))"
      using h3(2) v n(1) by simp
    moreover have "keeps B h h3" using keeps_trans [OF keep h3(3)] by simp
    ultimately show "\<exists>h' es. duplicate_children fuel alloc new p (last_or None (map addr ds)) h = Inr (Some new, h')
        \<and> built B h' new (ds @ es) N (vs @ item_values h (JTree a cs # ts)) \<and> keeps B h h'"
      by blast
  qed
qed

text \<open>A recursive duplicate: a document of new items with the same values, while everything there was is as before.\<close>

lemma cJSON_Duplicate_ok:
  assumes "\<forall>n. alloc n" and "fresh_from h" and "copyable h [JTree a cs]" and "items h a = Some n"
    and "forest h None (node_child n) cs" and "distinct (addrs [JTree a cs])"
  shows "\<exists>d h' es. cJSON_Duplicate alloc (Some a) True h = Inr (Some d, h') \<and> forest h' None (Some d) [JTree d es]
    \<and> distinct (addrs [JTree d es]) \<and> item_values h' [JTree d es] = item_values h [JTree a cs]
    \<and> set (addrs [JTree d es]) \<inter> dom (items h) = {} \<and> (\<forall>b n. items h b = Some n \<longrightarrow> items h' b = Some n)
    \<and> (\<forall>q t. strings h q = Some t \<longrightarrow> strings h' q = Some t) \<and> fresh_from h'
    \<and> new_strings (next_addr h) h' (string_ptrs h' [JTree d es])"
proof -
  have "length (addrs [JTree a cs]) \<le> next_addr h"
    using fresh_length [OF assms(2,6)] forest_dom [OF assms(5)] assms(4) by auto
  then obtain g where g: "2 * Suc (next_addr h) = Suc g" "2 * length (addrs cs) \<le> g" by simp
  from duplicate_item [OF dup_ok_all assms(1-5) g(2)] obtain d h' es k where d:
      "duplicate (Suc g) alloc (Some a) True h = Inr (Some d, h')" "fresh_from h'" "keeps (next_addr h) h h'"
      "items h' d = Some k" "node_next k = None" "node_prev k = None" "kids h' (JTree d es)"
      "item_values h' [JTree d es] = item_values h [JTree a cs]"
      "set (addrs [JTree d es]) \<subseteq> {next_addr h..<next_addr h'}" "distinct (addrs [JTree d es])"
      "new_strings (next_addr h) h' (string_ptrs h' [JTree d es])"
    by blast
  have "forest h' None (Some d) [JTree d es]" using d(4-7) by (simp add: forest_level)
  moreover have "set (addrs [JTree d es]) \<inter> dom (items h) = {}" using d(9) fresh_below(1) [OF assms(2)] by fastforce
  moreover have "\<forall>b n. items h b = Some n \<longrightarrow> items h' b = Some n" using keeps_items [OF assms(2) d(3)] by blast
  moreover have "\<forall>q t. strings h q = Some t \<longrightarrow> strings h' q = Some t" using d(3) by (simp add: keeps_def)
  ultimately show ?thesis using d(1,2,8,10,11) unfolding cJSON_Duplicate_def g(1) by blast
qed

end
