(* ===== verification/JsonTreeProperties.thy ===== *)
theory JsonTreeProperties
  imports JsonTreeDuplicate
begin

text \<open>
  The properties of the tree operations of the JSON library, on an example document.
\<close>

section \<open>An example\<close>

text \<open>The object \<^verbatim>\<open>{"a": 1, "B": null}\<close> in the items 0, 1 and 2, and an item of its own, 5.\<close>

definition doc :: json_heap where
  "doc = \<lparr>items = [0 \<mapsto> node_zero\<lparr>node_type := cJSON_Object, node_child := Some 1\<rparr>,
      1 \<mapsto> node_zero\<lparr>node_type := cJSON_Number, node_next := Some 2, node_valueint := 1, node_valuedouble := 1, node_string := Some 3\<rparr>,
      2 \<mapsto> node_zero\<lparr>node_type := cJSON_NULL, node_prev := Some 1, node_string := Some 4\<rparr>,
      5 \<mapsto> node_zero\<lparr>node_type := cJSON_True\<rparr>],
    strings = [3 \<mapsto> (True, [97]), 4 \<mapsto> (True, [66])], next_addr = 6\<rparr>"

lemmas doc_defs = doc_def node_zero_def is_reference_def const_string_def cJSON_types

lemma doc_children: "children doc 0 [1, 2]"
  by (simp add: children_def doc_defs)

lemma doc_fresh: "fresh_from doc"
  by (auto simp: fresh_from_def doc_defs)

lemma doc_isolated: "isolated doc 5"
  by (simp add: isolated_def doc_defs)

lemma doc_forest: "forest doc None (Some 0) [JTree 0 [JTree 1 [], JTree 2 []]]"
  by (simp add: doc_defs)

lemma doc_owned: "owned doc [JTree 0 [JTree 1 [], JTree 2 []]] = [3, 4]" "owned doc [JTree 1 [], JTree 2 []] = [3, 4]"
    "owned doc [JTree 2 []] = [4]"
  by (simp_all add: own_strings_def opt_list_def doc_defs)

section \<open>Properties\<close>

text \<open>C22: the operations on the children of an array are those of lists: size and access, and adding, inserting,
  detaching and replacing by position, which change only the links of the children.\<close>

theorem array_operations_refine_lists:
  assumes "children h arr as" and "fresh_from h" and "isolated h x" and "x \<notin> set as" and "x \<noteq> arr"
  shows "cJSON_GetArraySize (Some arr) h = Inr (length as)
    \<and> (\<forall>i. cJSON_GetArrayItem (Some arr) i h = Inr (if nat i < length as then Some (as ! nat i) else None))
    \<and> (\<exists>h'. cJSON_AddItemToArray (Some arr) (Some x) h = Inr h' \<and> children h' arr (as @ [x]) \<and> relinked arr h h')
    \<and> (\<forall>i \<le> length as. \<exists>h'. cJSON_InsertItemInArray (Some arr) (int i) (Some x) h = Inr h'
         \<and> children h' arr (take i as @ x # drop i as) \<and> relinked arr h h')
    \<and> (\<forall>i < length as. \<exists>h'. cJSON_DetachItemFromArray (Some arr) (int i) h = Inr (Some (as ! i), h')
         \<and> children h' arr (take i as @ drop (Suc i) as) \<and> isolated h' (as ! i) \<and> relinked arr h h')
    \<and> (\<forall>i < length as. \<exists>h'. cJSON_ReplaceItemInArray (Some arr) (int i) (Some x) h = cJSON_Delete (Some (as ! i)) h'
         \<and> children h' arr (as[i := x]) \<and> isolated h' (as ! i) \<and> relinked arr h h')"
proof (intro conjI allI impI)
  show "\<exists>h'. cJSON_InsertItemInArray (Some arr) (int i) (Some x) h = Inr h'
      \<and> children h' arr (take i as @ x # drop i as) \<and> relinked arr h h'" if "i \<le> length as" for i
  proof (cases "i < length as")
    case True
    then have s: "as = take i as @ as ! i # drop (Suc i) as" by (rule id_take_nth_drop)
    have "drop i as = as ! i # drop (Suc i) as" using True by (simp add: Cons_nth_drop_Suc)
    with True InsertItem_ok [of h arr "take i as" "as ! i" "drop (Suc i) as" x] s assms show ?thesis by auto
  next
    case False
    with that InsertItem_end [OF assms] show ?thesis by simp
  qed
  fix i assume i: "i < length as"
  then have s: "as = take i as @ as ! i # drop (Suc i) as" by (rule id_take_nth_drop)
  with i DetachItem_ok [of h arr "take i as" "as ! i" "drop (Suc i) as"] assms
  show "\<exists>h'. cJSON_DetachItemFromArray (Some arr) (int i) h = Inr (Some (as ! i), h')
      \<and> children h' arr (take i as @ drop (Suc i) as) \<and> isolated h' (as ! i) \<and> relinked arr h h'" by auto
  have "as[i := x] = take i as @ x # drop (Suc i) as" using i by (rule upd_conv_take_nth_drop)
  with i s ReplaceItem_ok [of h arr "take i as" "as ! i" "drop (Suc i) as" x] assms
  show "\<exists>h'. cJSON_ReplaceItemInArray (Some arr) (int i) (Some x) h = cJSON_Delete (Some (as ! i)) h'
      \<and> children h' arr (as[i := x]) \<and> isolated h' (as ! i) \<and> relinked arr h h'" by auto
qed (use assms GetArraySize_ok GetArrayItem_ok AddItemToArray_ok in auto)

theorem array_operations_refine_lists_witness:
  "(\<exists>h'. cJSON_InsertItemInArray (Some 0) 1 (Some 5) doc = Inr h' \<and> children h' 0 [1, 5, 2])
   \<and> (\<exists>h'. cJSON_DetachItemFromArray (Some 0) 0 doc = Inr (Some 1, h') \<and> children h' 0 [2])"
proof -
  have "(5 :: nat) \<notin> set [1, 2]" by simp
  note all = array_operations_refine_lists [OF doc_children doc_fresh doc_isolated this]
  from all have "\<forall>i \<le> length [1, 2]. \<exists>h'. cJSON_InsertItemInArray (Some 0) (int i) (Some 5) doc = Inr h'
      \<and> children h' 0 (take i [1, 2] @ 5 # drop i [1, 2])" by fastforce
  from this [rule_format, of 1] have "\<exists>h'. cJSON_InsertItemInArray (Some 0) 1 (Some 5) doc = Inr h' \<and> children h' 0 [1, 5, 2]"
    by simp
  moreover from all have "\<forall>i < length [1, 2]. \<exists>h'. cJSON_DetachItemFromArray (Some 0) (int i) doc = Inr (Some ([1, 2] ! i), h')
      \<and> children h' 0 (take i [1, 2] @ drop (Suc i) [1, 2])" by fastforce
  from this [rule_format, of 0] have "\<exists>h'. cJSON_DetachItemFromArray (Some 0) 0 doc = Inr (Some 1, h') \<and> children h' 0 [2]"
    by simp
  ultimately show ?thesis by blast
qed

text \<open>C24: deleting a document ends, and frees its items and the strings it owns, each once, and nothing else; the items a
  reference refers to stay.\<close>

theorem delete_frees_exactly:
  assumes "forest h pv p ts" and "distinct (addrs ts)" and "owns h ts" and "fresh_from h"
  shows "\<exists>h'. cJSON_Delete p h = Inr h'
    \<and> (\<forall>a. items h' a = (if a \<in> set (addrs ts) then None else items h a))
    \<and> (\<forall>s. strings h' s = (if s \<in> set (owned h ts) then None else strings h s))"
  using cJSON_Delete_ok [OF assms] by simp

theorem delete_frees_exactly_witness:
  "\<exists>h'. cJSON_Delete (Some 0) doc = Inr h' \<and> items h' 5 = items doc 5 \<and> (\<forall>a. a \<noteq> 5 \<longrightarrow> items h' a = None)
     \<and> (\<forall>s. strings h' s = None)"
proof -
  have "owns doc [JTree 0 [JTree 1 [], JTree 2 []]]" unfolding owns_def doc_owned by (simp add: doc_def)
  from delete_frees_exactly [OF doc_forest _ this doc_fresh] obtain h' where "cJSON_Delete (Some 0) doc = Inr h'"
      "\<forall>a. items h' a = (if a \<in> {0, 1, 2} then None else items doc a)" "\<forall>s. strings h' s = (if s \<in> {3, 4} then None else strings doc s)"
    unfolding doc_owned by auto
  then show ?thesis by (auto simp: doc_def)
qed

text \<open>Adding to an object under a name that a member already has frees that member and the members behind it while they
  are still linked, and then walks into the freed memory.\<close>

theorem AddItemToObject_existing_name:
  assumes "children h obj (xs @ c # ys)" and "fresh_from h"
    and "readable h (xs @ [c])" and "\<forall>a \<in> set xs. \<not> named h s a" and "named h s c"
    and "forest h (if xs = [] then None else Some (last xs)) (Some c) ts" and "distinct (addrs ts)" and "owns h ts"
    and "obj \<notin> set (addrs ts)" and "set xs \<inter> set (addrs ts) = {}" and "x \<notin> set (addrs ts)" and "x \<notin> set xs"
    and "items h x = Some m" and "node_string m = None"
  shows "cJSON_AddItemToObject alloc (Some obj) s (Some x) h = Inl UseAfterFree"
  by (rule AddItemToObject_existing [OF assms(1-13)]) (use assms(14) in simp)

theorem AddItemToObject_existing_name_witness:
  "cJSON_AddItemToObject (\<lambda>_. True) (Some 0) [65] (Some 5) doc = Inl UseAfterFree"
proof -
  have "owns doc [JTree 1 [], JTree 2 []]" unfolding owns_def doc_owned by (simp add: doc_def)
  moreover have "forest doc None (Some 1) [JTree 1 [], JTree 2 []]" by (simp add: doc_defs)
  moreover have "named doc [65] 1" by (simp add: named_def doc_defs tolower_def, blast)
  moreover have "readable doc [1]" by (simp add: readable_def doc_defs, blast)
  moreover have "items doc 5 = Some (node_zero\<lparr>node_type := cJSON_True\<rparr>)" by (simp add: doc_def)
  ultimately show ?thesis
    using AddItemToObject_existing_name [of doc 0 "[]" 1 "[2]" "[65]" "[JTree 1 [], JTree 2 []]" 5 _ "\<lambda>_. True"] doc_children doc_fresh
    by (simp add: node_zero_def)
qed

text \<open>Adding under a new name makes the item the last member, with a copy of the name.\<close>

lemma AddItemToObject_new_name:
  assumes "children h obj as" and "fresh_from h" and "readable h as" and "\<forall>a \<in> set as. \<not> named h s a"
    and "items h x = Some m" and "node_next m = None" and "node_prev m = None" and "node_string m = None"
    and "x \<notin> set as" and "x \<noteq> obj" and "\<forall>n. alloc n"
  shows "\<exists>h' q. cJSON_AddItemToObject alloc (Some obj) s (Some x) h = Inr h' \<and> children h' obj (as @ [x])
    \<and> (\<exists>m'. items h' x = Some m' \<and> node_string m' = Some q) \<and> strings h' q = Some (True, s)"
  by (rule AddItemToObject_new [OF assms])

lemma new_strings_fresh:
  assumes "fresh_from h" and "new_strings (next_addr h) h' ss"
  shows "set ss \<inter> dom (strings h) = {} \<and> distinct ss"
  using assms fresh_below(2) [OF assms(1)] by (fastforce simp: new_strings_def)

text \<open>C23: a recursive duplicate is a document of new items, with the same types, strings, numbers, names and children,
  all its strings are new allocations of its own, none used twice, and the items that were there before have not changed.\<close>

theorem duplicate_is_separate_copy:
  assumes "\<forall>n. alloc n" and "fresh_from h" and "copyable h [JTree a cs]" and "items h a = Some n"
    and "forest h None (node_child n) cs" and "distinct (addrs [JTree a cs])"
  shows "\<exists>d h' es. cJSON_Duplicate alloc (Some a) True h = Inr (Some d, h') \<and> forest h' None (Some d) [JTree d es]
    \<and> item_values h' [JTree d es] = item_values h [JTree a cs]
    \<and> set (addrs [JTree d es]) \<inter> dom (items h) = {} \<and> (\<forall>b n. items h b = Some n \<longrightarrow> items h' b = Some n)
    \<and> set (string_ptrs h' [JTree d es]) \<inter> dom (strings h) = {} \<and> distinct (string_ptrs h' [JTree d es])"
  using cJSON_Duplicate_ok [OF assms] new_strings_fresh [OF assms(2)] by blast

theorem duplicate_is_separate_copy_witness:
  "\<exists>d h' es. cJSON_Duplicate (\<lambda>_. True) (Some 0) True doc = Inr (Some d, h')
    \<and> item_values h' [JTree d es] = [CJSON cJSON_Object None 0 0 None
         [CJSON cJSON_Number None 1 1 (Some [97]) [], CJSON cJSON_NULL None 0 0 (Some [66]) []]]"
proof -
  have i: "items doc 0 = Some (node_zero\<lparr>node_type := cJSON_Object, node_child := Some 1\<rparr>)" by (simp add: doc_def)
  have "copyable doc [JTree 0 [JTree 1 [], JTree 2 []]]" by (simp add: doc_defs, blast)
  from duplicate_is_separate_copy [OF _ doc_fresh this i, of "\<lambda>_. True"] obtain d h' es where
      "cJSON_Duplicate (\<lambda>_. True) (Some 0) True doc = Inr (Some d, h')"
      "item_values h' [JTree d es] = item_values doc [JTree 0 [JTree 1 [], JTree 2 []]]"
    by (auto simp: doc_defs)
  moreover have "item_values doc [JTree 0 [JTree 1 [], JTree 2 []]] = [CJSON cJSON_Object None 0 0 None
         [CJSON cJSON_Number None 1 1 (Some [97]) [], CJSON cJSON_NULL None 0 0 (Some [66]) []]]"
    by (simp add: doc_defs text_of_def)
  ultimately show ?thesis by force
qed

end
