(* ===== verification/OmniThread.thy ===== *)
theory OmniThread
  imports OmniCond Recycler
begin

text \<open>
  The thread objects of \<^verbatim>\<open>omnithread/nt.cpp\<close>: their construction, start, priority, exit and join, and the cache
  of objects that foreign threads borrow to wait on a condition. Threads of Windows and thread objects are
  numbered; what they do between two calls that block or take a lock is one step.
\<close>

section \<open>Objects and threads\<close>

datatype priority_t = PRIORITY_LOW | PRIORITY_NORMAL | PRIORITY_HIGH

datatype state_t = STATE_NEW | STATE_RUNNING | STATE_TERMINATED

text \<open>The number behind a priority, which \<open>start\<close> hands to Windows, and the priorities of Windows.\<close>

definition priority_number :: "priority_t \<Rightarrow> int" where
  "priority_number p = (case p of PRIORITY_LOW \<Rightarrow> 0 | PRIORITY_NORMAL \<Rightarrow> 1 | PRIORITY_HIGH \<Rightarrow> 2)"

definition THREAD_PRIORITY_LOWEST :: int where "THREAD_PRIORITY_LOWEST = -2"
definition THREAD_PRIORITY_NORMAL :: int where "THREAD_PRIORITY_NORMAL = 0"
definition THREAD_PRIORITY_HIGHEST :: int where "THREAD_PRIORITY_HIGHEST = 2"

definition nt_priority :: "priority_t \<Rightarrow> int" where
  "nt_priority pri =
     (case pri of PRIORITY_LOW \<Rightarrow> THREAD_PRIORITY_LOWEST
      | PRIORITY_NORMAL \<Rightarrow> THREAD_PRIORITY_NORMAL
      | PRIORITY_HIGH \<Rightarrow> THREAD_PRIORITY_HIGHEST)"

text \<open>
  The object. Function pointers, arguments and return values are numbers, the null pointer of a function is
  \<^term>\<open>None\<close>; \<open>mutex\<close> tells whether the mutex is held; \<open>return_val\<close> is \<^term>\<open>None\<close> until it is written.
\<close>

record omni_thread =
  ostate :: state_t
  opriority :: priority_t
  oid :: dword
  fn_void :: "nat option"
  fn_ret :: "nat option"
  thread_arg :: nat
  detached :: bool
  mutex :: bool
  handle :: "nat option"
  return_val :: "nat option"
  cond_part :: waiter

text \<open>
  A thread of Windows: the object it was created with, if this library did, its priority, whether it is still suspended, the
  value in the thread-local slot, and where it is: at the start of the wrapper, in the user's function, or
  in \<open>exit\<close> behind the unlock, with the value that was passed.
\<close>

datatype thread_pos = AtWrapper | InUser | ExitUnlocked nat | Ended nat

record nt_thread =
  start_ptr :: "nat option"
  win_priority :: int
  suspended :: bool
  tls_self :: "nat option"
  pos :: thread_pos

record omni_world =
  objs :: "nat \<Rightarrow> omni_thread option"
  next_obj :: nat
  next_id :: dword
  init_count :: nat
  kernel :: "nat \<Rightarrow> nt_thread option"
  next_nt :: nat
  starting :: "nat set"

text \<open>
  \<open>starting\<close> are the objects with a call of \<open>start\<close> under way that has resumed the thread. A call returns or
  throws, and leaves a state in both cases.
\<close>

type_synonym 'a act = "'a omni \<times> omni_world"

definition obj_at :: "omni_world \<Rightarrow> nat \<Rightarrow> omni_thread omni" where
  "obj_at w a = (case objs w a of None \<Rightarrow> Inl (Fault UseAfterFree) | Some t \<Rightarrow> Inr t)"

definition put_obj :: "nat \<Rightarrow> omni_thread \<Rightarrow> omni_world \<Rightarrow> omni_world" where
  "put_obj a t w = w\<lparr>objs := (objs w)(a \<mapsto> t)\<rparr>"

definition put_nt :: "nat \<Rightarrow> nt_thread \<Rightarrow> omni_world \<Rightarrow> omni_world" where
  "put_nt k n w = w\<lparr>kernel := (kernel w)(k \<mapsto> n)\<rparr>"

text \<open>\<open>self\<close>: the object of the calling thread, if it has one.\<close>

definition self :: "nat \<Rightarrow> omni_world \<Rightarrow> nat option" where
  "self k w = (case kernel w k of None \<Rightarrow> None | Some n \<Rightarrow> tls_self n)"

section \<open>Construction and destruction\<close>

definition common_constructor ::
    "bool \<Rightarrow> nat option \<Rightarrow> nat option \<Rightarrow> nat \<Rightarrow> priority_t \<Rightarrow> bool \<Rightarrow> omni_world \<Rightarrow> nat act" where
  "common_constructor sem_ok fv fr arg pri det w =
     (let i = next_id w; w = w\<lparr>next_id := i + 1\<rparr>; a = next_obj w in
      if \<not> sem_ok then (Inl Fatal, w)
      else (Inr a, w\<lparr>objs := (objs w)(a \<mapsto>
              \<lparr>ostate = STATE_NEW, opriority = pri, oid = i, fn_void = fv, fn_ret = fr, thread_arg = arg,
               detached = det, mutex = False, handle = None, return_val = None, cond_part = waiter_init\<rparr>),
             next_obj := Suc a\<rparr>))"

definition new_detached :: "bool \<Rightarrow> nat \<Rightarrow> nat \<Rightarrow> priority_t \<Rightarrow> omni_world \<Rightarrow> nat act" where
  "new_detached sem_ok fn arg pri w = common_constructor sem_ok (Some fn) None arg pri True w"

definition new_undetached :: "bool \<Rightarrow> nat \<Rightarrow> nat \<Rightarrow> priority_t \<Rightarrow> omni_world \<Rightarrow> nat act" where
  "new_undetached sem_ok fn arg pri w = common_constructor sem_ok None (Some fn) arg pri False w"

definition new_derived :: "bool \<Rightarrow> nat \<Rightarrow> priority_t \<Rightarrow> omni_world \<Rightarrow> nat act" where
  "new_derived sem_ok arg pri w = common_constructor sem_ok None None arg pri True w"

definition delete_thread :: "bool \<Rightarrow> nat \<Rightarrow> omni_world \<Rightarrow> unit act" where
  "delete_thread close_ok a w =
     (case obj_at w a of
        Inl e \<Rightarrow> (Inl e, w)
      | Inr t \<Rightarrow> if \<not> close_ok then (Inl Fatal, w) else (Inr (), w\<lparr>objs := (objs w)(a := None)\<rparr>))"

section \<open>Start\<close>

text \<open>What Windows answers to \<open>start\<close>.\<close>

record start_ok =
  begin_ok :: bool
  priority_ok :: bool
  resume_ok :: bool

text \<open>
  \<open>start\<close> until the thread is resumed: afterwards it runs, while \<open>start\<close> still holds the mutex. Every
  exception releases it. The mutex must be free.
\<close>

definition start_begin :: "start_ok \<Rightarrow> nat \<Rightarrow> omni_world \<Rightarrow> unit act" where
  "start_begin ans a w =
     (case obj_at w a of
        Inl e \<Rightarrow> (Inl e, w)
      | Inr t \<Rightarrow>
          if ostate t \<noteq> STATE_NEW then (Inl Invalid, w)
          else if \<not> begin_ok ans then (Inl Fatal, put_obj a (t\<lparr>handle := None\<rparr>) w)
          else
            let k = next_nt w;
                n = \<lparr>start_ptr = Some a, win_priority = THREAD_PRIORITY_NORMAL, suspended = True, tls_self = None,
                     pos = AtWrapper\<rparr>;
                w = put_obj a (t\<lparr>handle := Some k\<rparr>) (put_nt k n (w\<lparr>next_nt := Suc k\<rparr>)) in
            if \<not> priority_ok ans then (Inl Fatal, w)
            else
              let n = n\<lparr>win_priority := priority_number (opriority t)\<rparr>; w = put_nt k n w in
              if \<not> resume_ok ans then (Inl Fatal, w)
              else (Inr (), (put_obj a (t\<lparr>handle := Some k, mutex := True\<rparr>) (put_nt k (n\<lparr>suspended := False\<rparr>) w))
                              \<lparr>starting := insert a (starting w)\<rparr>))"

definition start_end :: "nat \<Rightarrow> omni_world \<Rightarrow> unit act" where
  "start_end a w =
     (case obj_at w a of
        Inl e \<Rightarrow> (Inl e, w)
      | Inr t \<Rightarrow> (Inr (), (put_obj a (t\<lparr>ostate := STATE_RUNNING, mutex := False\<rparr>) w)
                          \<lparr>starting := starting w - {a}\<rparr>))"

text \<open>The whole call, when nothing happens in between.\<close>

definition start :: "start_ok \<Rightarrow> nat \<Rightarrow> omni_world \<Rightarrow> unit act" where
  "start ans a w = (case start_begin ans a w of (Inl e, w) \<Rightarrow> (Inl e, w) | (Inr _, w) \<Rightarrow> start_end a w)"

definition start_undetached :: "start_ok \<Rightarrow> nat \<Rightarrow> omni_world \<Rightarrow> unit act" where
  "start_undetached ans a w =
     (case obj_at w a of
        Inl e \<Rightarrow> (Inl e, w)
      | Inr t \<Rightarrow>
          if fn_void t \<noteq> None \<or> fn_ret t \<noteq> None then (Inl Invalid, w)
          else start_begin ans a (put_obj a (t\<lparr>detached := False\<rparr>) w))"

definition create_detached :: "bool \<Rightarrow> start_ok \<Rightarrow> nat \<Rightarrow> nat \<Rightarrow> priority_t \<Rightarrow> omni_world \<Rightarrow> nat act" where
  "create_detached sem_ok ans fn arg pri w =
     (case new_detached sem_ok fn arg pri w of
        (Inl e, w) \<Rightarrow> (Inl e, w)
      | (Inr t, w) \<Rightarrow> (case start ans t w of (Inl e, w) \<Rightarrow> (Inl e, w) | (Inr _, w) \<Rightarrow> (Inr t, w)))"

definition create_undetached :: "bool \<Rightarrow> start_ok \<Rightarrow> nat \<Rightarrow> nat \<Rightarrow> priority_t \<Rightarrow> omni_world \<Rightarrow> nat act" where
  "create_undetached sem_ok ans fn arg pri w =
     (case new_undetached sem_ok fn arg pri w of
        (Inl e, w) \<Rightarrow> (Inl e, w)
      | (Inr t, w) \<Rightarrow> (case start ans t w of (Inl e, w) \<Rightarrow> (Inl e, w) | (Inr _, w) \<Rightarrow> (Inr t, w)))"

section \<open>Priority, exit and join\<close>

definition set_priority :: "bool \<Rightarrow> priority_t \<Rightarrow> nat \<Rightarrow> omni_world \<Rightarrow> unit act" where
  "set_priority prio_ok pri a w =
     (case obj_at w a of
        Inl e \<Rightarrow> (Inl e, w)
      | Inr t \<Rightarrow>
          if ostate t \<noteq> STATE_RUNNING then (Inl Invalid, w)
          else
            let w = put_obj a (t\<lparr>opriority := pri\<rparr>) w in
            (case handle t of
               None \<Rightarrow> (Inl Fatal, w)
             | Some k \<Rightarrow>
                 (case kernel w k of
                    None \<Rightarrow> (Inl Fatal, w)
                  | Some n \<Rightarrow>
                      if \<not> prio_ok then (Inl Fatal, w)
                      else (Inr (), put_nt k (n\<lparr>win_priority := nt_priority pri\<rparr>) w))))"

text \<open>\<open>exit\<close> up to the unlock; a foreign thread only ends. The mutex must be free.\<close>

definition exit_begin :: "nat \<Rightarrow> nat \<Rightarrow> omni_world \<Rightarrow> unit act" where
  "exit_begin k v w =
     (case kernel w k of
        None \<Rightarrow> (Inl (Fault UseAfterFree), w)
      | Some n \<Rightarrow>
          (case tls_self n of
             None \<Rightarrow> (Inr (), put_nt k (n\<lparr>pos := Ended v\<rparr>) w)
           | Some me \<Rightarrow>
               (case obj_at w me of
                  Inl e \<Rightarrow> (Inl e, w)
                | Inr t \<Rightarrow> (Inr (), put_nt k (n\<lparr>pos := ExitUnlocked v\<rparr>)
                                   (put_obj me (t\<lparr>ostate := STATE_TERMINATED\<rparr>) w)))))"

definition exit_end :: "bool \<Rightarrow> nat \<Rightarrow> nat \<Rightarrow> omni_world \<Rightarrow> unit act" where
  "exit_end close_ok k v w =
     (case kernel w k of
        None \<Rightarrow> (Inl (Fault UseAfterFree), w)
      | Some n \<Rightarrow>
          (case tls_self n of
             None \<Rightarrow> (Inl (Fault NullPointer), w)
           | Some me \<Rightarrow>
               (case obj_at w me of
                  Inl e \<Rightarrow> (Inl e, w)
                | Inr t \<Rightarrow>
                    (case (if detached t then delete_thread close_ok me w
                           else (Inr (), put_obj me (t\<lparr>return_val := Some v\<rparr>) w)) of
                       (Inl e, w) \<Rightarrow> (Inl e, w)
                     | (Inr _, w) \<Rightarrow> (Inr (), put_nt k (n\<lparr>pos := Ended v\<rparr>) w)))))"

text \<open>
  \<open>join\<close>, called by the thread \<open>k\<close>: the checks, then the wait for the thread, which blocks (\<^term>\<open>None\<close>)
  until it has ended, then the value and the deletion.
\<close>

definition join :: "bool \<Rightarrow> nat \<Rightarrow> nat \<Rightarrow> omni_world \<Rightarrow> nat option act option" where
  "join close_ok k a w =
     (case obj_at w a of
        Inl e \<Rightarrow> Some (Inl e, w)
      | Inr t \<Rightarrow>
          if ostate t \<noteq> STATE_RUNNING \<and> ostate t \<noteq> STATE_TERMINATED then Some (Inl Invalid, w)
          else if self k w = Some a then Some (Inl Invalid, w)
          else if detached t then Some (Inl Invalid, w)
          else
            (case handle t of
               None \<Rightarrow> Some (Inl Fatal, w)
             | Some h \<Rightarrow>
                 (case kernel w h of
                    None \<Rightarrow> Some (Inl Fatal, w)
                  | Some n \<Rightarrow>
                      (case pos n of
                         Ended _ \<Rightarrow>
                           (case delete_thread close_ok a w of
                              (Inl e, w) \<Rightarrow> Some (Inl e, w)
                            | (Inr _, w) \<Rightarrow> Some (Inr (return_val t), w))
                       | _ \<Rightarrow> None))))"

section \<open>The wrapper\<close>

text \<open>
  What the wrapper passes to \<open>exit\<close> when the user's function returns: \<open>call\<close> and \<open>run_undetached\<close> are the
  user's code that returns a value.
\<close>

record user_code =
  call :: "nat \<Rightarrow> nat \<Rightarrow> nat"
  run_undetached :: "nat \<Rightarrow> nat \<Rightarrow> nat"

definition wrapper_value :: "user_code \<Rightarrow> nat \<Rightarrow> omni_thread \<Rightarrow> nat" where
  "wrapper_value code me t =
     (if fn_void t \<noteq> None then 0
      else case fn_ret t of
             Some f \<Rightarrow> call code f (thread_arg t)
           | None \<Rightarrow> if detached t then 0 else run_undetached code me (thread_arg t))"

definition wrapper_begin :: "bool \<Rightarrow> nat \<Rightarrow> omni_world \<Rightarrow> unit act" where
  "wrapper_begin tls_ok k w =
     (case kernel w k of
        None \<Rightarrow> (Inl (Fault UseAfterFree), w)
      | Some n \<Rightarrow>
          if \<not> tls_ok then (Inl Fatal, w)
          else (Inr (), put_nt k (n\<lparr>tls_self := start_ptr n, pos := InUser\<rparr>) w))"

definition wrapper_return :: "user_code \<Rightarrow> nat \<Rightarrow> omni_world \<Rightarrow> unit act" where
  "wrapper_return code k w =
     (case kernel w k of
        None \<Rightarrow> (Inl (Fault UseAfterFree), w)
      | Some n \<Rightarrow>
          (case start_ptr n of
             None \<Rightarrow> (Inl (Fault NullPointer), w)
           | Some me \<Rightarrow>
               (case obj_at w me of
                  Inl e \<Rightarrow> (Inl e, w)
                | Inr t \<Rightarrow> exit_begin k (wrapper_value code me t) w)))"

section \<open>Initialisation\<close>

record init_ok =
  tls_alloc_ok :: bool
  semaphore_ok :: bool
  duplicate_ok :: bool
  tls_set_ok :: bool
  init_priority_ok :: bool

text \<open>The object of the initial thread \<open>k\<close>; only the first \<open>init_t\<close> makes one.\<close>

definition init_t :: "init_ok \<Rightarrow> nat \<Rightarrow> omni_world \<Rightarrow> unit act" where
  "init_t ans k w =
     (let c = init_count w; w = w\<lparr>init_count := c + 1\<rparr> in
      if c \<noteq> 0 then (Inr (), w)
      else if \<not> tls_alloc_ok ans then (Inl Fatal, w)
      else
        (case new_derived (semaphore_ok ans) 0 PRIORITY_NORMAL w of
           (Inl e, w) \<Rightarrow> (Inl e, w)
         | (Inr a, w) \<Rightarrow>
             (case (obj_at w a, kernel w k) of
                (Inr t, Some n) \<Rightarrow>
                  let w = put_obj a (t\<lparr>ostate := STATE_RUNNING\<rparr>) w in
                  if \<not> duplicate_ok ans then (Inl Fatal, w)
                  else
                    let w = put_obj a (t\<lparr>ostate := STATE_RUNNING, handle := Some k\<rparr>) w in
                    if \<not> tls_set_ok ans then (Inl Fatal, w)
                    else
                      let n = n\<lparr>tls_self := Some a\<rparr>; w = put_nt k n w in
                      if \<not> init_priority_ok ans then (Inl Fatal, w)
                      else (Inr (), put_nt k (n\<lparr>win_priority := nt_priority PRIORITY_NORMAL\<rparr>) w)
              | (Inl e, _) \<Rightarrow> (Inl e, w)
              | (_, None) \<Rightarrow> (Inl Fatal, w))))"

section \<open>Interleaving\<close>

text \<open>The mutex of an object is free.\<close>

definition unlocked :: "nat option \<Rightarrow> omni_world \<Rightarrow> bool" where
  "unlocked p w = (case p of None \<Rightarrow> True | Some a \<Rightarrow> (case objs w a of None \<Rightarrow> True | Some t \<Rightarrow> \<not> mutex t))"

text \<open>
  The program construct, start, join objects it has, and change their priorities, in any order; a started
  thread goes through the wrapper and ends by returning from its function or by a call of \<open>exit\<close>. An
  exception in the wrapper ends the process.
\<close>

inductive thr_step :: "user_code \<Rightarrow> omni_world \<Rightarrow> omni_world \<Rightarrow> bool" for code :: user_code where
  constructs: "common_constructor sem_ok fv fr arg pri det w = (r, w') \<Longrightarrow> thr_step code w w'"
| starts: "objs w a = Some t \<Longrightarrow> \<not> mutex t \<Longrightarrow> start_begin ans a w = (r, w') \<Longrightarrow> thr_step code w w'"
| starts_undetached: "objs w a = Some t \<Longrightarrow> \<not> mutex t \<Longrightarrow> start_undetached ans a w = (r, w') \<Longrightarrow> thr_step code w w'"
| start_returns: "a \<in> starting w \<Longrightarrow> start_end a w = (r, w') \<Longrightarrow> thr_step code w w'"
| enters: "kernel w k = Some n \<Longrightarrow> \<not> suspended n \<Longrightarrow> pos n = AtWrapper \<Longrightarrow> wrapper_begin True k w = (r, w') \<Longrightarrow>
    thr_step code w w'"
| returns: "kernel w k = Some n \<Longrightarrow> pos n = InUser \<Longrightarrow> start_ptr n \<noteq> None \<Longrightarrow> unlocked (tls_self n) w \<Longrightarrow>
    wrapper_return code k w = (r, w') \<Longrightarrow> thr_step code w w'"
| exits: "kernel w k = Some n \<Longrightarrow> pos n = InUser \<Longrightarrow> unlocked (tls_self n) w \<Longrightarrow> exit_begin k v w = (r, w') \<Longrightarrow>
    thr_step code w w'"
| exit_ends: "kernel w k = Some n \<Longrightarrow> pos n = ExitUnlocked v \<Longrightarrow> exit_end True k v w = (r, w') \<Longrightarrow> thr_step code w w'"
| joins: "kernel w k = Some n \<Longrightarrow> pos n = InUser \<Longrightarrow> objs w a = Some t \<Longrightarrow> \<not> mutex t \<Longrightarrow> join True k a w = Some (r, w') \<Longrightarrow>
    thr_step code w w'"
| sets_priority: "objs w a = Some t \<Longrightarrow> \<not> mutex t \<Longrightarrow> set_priority prio_ok pri a w = (r, w') \<Longrightarrow> thr_step code w w'"

section \<open>The invariant\<close>

text \<open>The object \<open>a\<close> belongs to the thread \<open>k\<close>, wherever that is.\<close>

definition active :: "omni_thread \<Rightarrow> bool" where
  "active t \<longleftrightarrow> ostate t = (if mutex t then STATE_NEW else STATE_RUNNING)"

definition runs :: "nat \<Rightarrow> omni_thread \<Rightarrow> nat \<Rightarrow> nt_thread \<Rightarrow> bool" where
  "runs a t k n \<longleftrightarrow> handle t = Some k \<and> \<not> suspended n \<and>
     (case pos n of
        AtWrapper \<Rightarrow> start_ptr n = Some a \<and> active t
      | InUser \<Rightarrow> tls_self n = Some a \<and> (start_ptr n = None \<or> start_ptr n = Some a) \<and> active t
      | ExitUnlocked v \<Rightarrow> tls_self n = Some a \<and> ostate t = STATE_TERMINATED \<and> \<not> mutex t
      | Ended v \<Rightarrow> tls_self n = Some a \<and> ostate t = STATE_TERMINATED \<and> \<not> mutex t \<and> return_val t = Some v)"

definition foreign :: "nt_thread \<Rightarrow> bool" where
  "foreign n \<longleftrightarrow> tls_self n = None \<and> start_ptr n = None \<and> pos n = InUser"

definition ended :: "nt_thread \<Rightarrow> bool" where
  "ended n \<longleftrightarrow> (case pos n of Ended v \<Rightarrow> True | _ \<Rightarrow> False)"

definition unstarted :: "omni_thread \<Rightarrow> bool" where
  "unstarted t \<longleftrightarrow> ostate t = STATE_NEW \<and> \<not> mutex t"

definition thr_ok :: "omni_world \<Rightarrow> bool" where
  "thr_ok w \<longleftrightarrow>
     (\<forall>k n. kernel w k = Some n \<and> \<not> suspended n \<and> \<not> ended n \<and> \<not> foreign n \<longrightarrow> (\<exists>a t. objs w a = Some t \<and> runs a t k n))
     \<and> (\<forall>a t. objs w a = Some t \<and> \<not> unstarted t \<longrightarrow> (\<exists>k n. kernel w k = Some n \<and> runs a t k n))
     \<and> (\<forall>a. a \<in> starting w \<longleftrightarrow> (\<exists>t. objs w a = Some t \<and> mutex t))
     \<and> (\<forall>k n. kernel w k = Some n \<and> suspended n \<longrightarrow> pos n = AtWrapper)
     \<and> (\<forall>a. next_obj w \<le> a \<longrightarrow> objs w a = None) \<and> (\<forall>k. next_nt w \<le> k \<longrightarrow> kernel w k = None)"

lemma runs_unique: "runs a t k n \<Longrightarrow> runs b u k n \<Longrightarrow> b = a"
  by (auto simp: runs_def split: thread_pos.splits)

lemma runs_handle: "runs a t k n \<Longrightarrow> handle t = Some k"
  by (simp add: runs_def)

lemma runs_started: "runs a t k n \<Longrightarrow> \<not> unstarted t"
  by (auto simp: runs_def unstarted_def active_def split: thread_pos.splits if_splits)

lemma unstarted_runs: "unstarted t \<Longrightarrow> \<not> runs a t k n"
  using runs_started by blast

lemma thr_okI:
  assumes "\<And>k n. kernel w k = Some n \<Longrightarrow> \<not> suspended n \<Longrightarrow> \<not> ended n \<Longrightarrow> \<not> foreign n \<Longrightarrow>
      \<exists>a t. objs w a = Some t \<and> runs a t k n"
    and "\<And>a t. objs w a = Some t \<Longrightarrow> \<not> unstarted t \<Longrightarrow> \<exists>k n. kernel w k = Some n \<and> runs a t k n"
    and "\<And>a. a \<in> starting w \<longleftrightarrow> (\<exists>t. objs w a = Some t \<and> mutex t)"
    and "\<And>k n. kernel w k = Some n \<Longrightarrow> suspended n \<Longrightarrow> pos n = AtWrapper"
    and "\<And>a. next_obj w \<le> a \<Longrightarrow> objs w a = None" and "\<And>k. next_nt w \<le> k \<Longrightarrow> kernel w k = None"
  shows "thr_ok w"
  unfolding thr_ok_def using assms by blast

lemma thr_okD:
  assumes "thr_ok w"
  shows "kernel w k = Some n \<Longrightarrow> \<not> suspended n \<Longrightarrow> \<not> ended n \<Longrightarrow> \<not> foreign n \<Longrightarrow>
      \<exists>a t. objs w a = Some t \<and> runs a t k n"
    and "objs w a = Some t \<Longrightarrow> \<not> unstarted t \<Longrightarrow> \<exists>k n. kernel w k = Some n \<and> runs a t k n"
    and "a \<in> starting w \<longleftrightarrow> (\<exists>t. objs w a = Some t \<and> mutex t)"
    and "kernel w k = Some n \<Longrightarrow> suspended n \<Longrightarrow> pos n = AtWrapper"
    and "next_obj w \<le> a \<Longrightarrow> objs w a = None" and "next_nt w \<le> k \<Longrightarrow> kernel w k = None"
  using assms unfolding thr_ok_def by blast+

lemma thr_ok_next:
  assumes "thr_ok w"
  shows "objs w a = Some t \<Longrightarrow> a < next_obj w" and "kernel w k = Some n \<Longrightarrow> k < next_nt w"
  using thr_okD(5,6) [OF assms] by (metis not_le option.distinct(1))+

lemma thr_ok_cong:
  assumes "objs w' = objs w" "kernel w' = kernel w" "starting w' = starting w" "next_obj w' = next_obj w" "next_nt w' = next_nt w"
  shows "thr_ok w' = thr_ok w"
  unfolding thr_ok_def assms by (rule refl)

text \<open>A step of one object and its thread, which no other object or thread has to do with.\<close>

lemma thr_ok_change:
  assumes ok: "thr_ok w" and a: "objs w a = Some t" and new: "runs a t' k n'"
    and no_obj: "\<And>b u m. objs w b = Some u \<Longrightarrow> b \<noteq> a \<Longrightarrow> kernel w k = Some m \<Longrightarrow> \<not> runs b u k m"
    and no_nt: "\<And>j m. j \<noteq> k \<Longrightarrow> kernel w j = Some m \<Longrightarrow> \<not> runs a t j m"
    and objs: "objs w' = (objs w)(a \<mapsto> t')" and kern: "kernel w' = (kernel w)(k \<mapsto> n')"
    and starting: "starting w' = (if mutex t' then insert a (starting w) else starting w - {a})"
    and next': "next_obj w' = next_obj w" "next_nt w \<le> next_nt w'" "k < next_nt w'"
  shows "thr_ok w'"
proof (rule thr_okI)
  fix j m assume m: "kernel w' j = Some m" "\<not> suspended m" "\<not> ended m" "\<not> foreign m"
  show "\<exists>b u. objs w' b = Some u \<and> runs b u j m"
  proof (cases "j = k")
    case True
    then show ?thesis using new objs kern m(1) by (intro exI [of _ a] exI [of _ t']) simp
  next
    case False
    then have j: "kernel w j = Some m" using m(1) kern by simp
    from thr_okD(1) [OF ok this m(2-4)] obtain b u where b: "objs w b = Some u" "runs b u j m" by blast
    then have "b \<noteq> a" using no_nt [OF False j] a by auto
    then show ?thesis using b objs by (intro exI [of _ b] exI [of _ u]) simp
  qed
next
  fix b u assume b: "objs w' b = Some u" "\<not> unstarted u"
  show "\<exists>j m. kernel w' j = Some m \<and> runs b u j m"
  proof (cases "b = a")
    case True
    then show ?thesis using new objs kern b(1) by (intro exI [of _ k] exI [of _ n']) simp
  next
    case False
    then have "objs w b = Some u" using b(1) objs by simp
    from thr_okD(2) [OF ok this b(2)] obtain j m where m: "kernel w j = Some m" "runs b u j m" by blast
    then have "j \<noteq> k" using no_obj [OF \<open>objs w b = Some u\<close> False] by auto
    then show ?thesis using m kern by (intro exI [of _ j] exI [of _ m]) simp
  qed
next
  show "b \<in> starting w' \<longleftrightarrow> (\<exists>u. objs w' b = Some u \<and> mutex u)" for b
    using thr_okD(3) [OF ok, of b] by (cases "b = a") (simp_all add: objs starting)
next
  have "\<not> suspended n'" using new by (simp add: runs_def)
  then show "kernel w' j = Some m \<Longrightarrow> suspended m \<Longrightarrow> pos m = AtWrapper" for j m
    using thr_okD(4) [OF ok, of j m] kern by (auto split: if_splits)
next
  show "next_obj w' \<le> b \<Longrightarrow> objs w' b = None" for b
    using thr_okD(5) [OF ok, of b] thr_ok_next(1) [OF ok a] by (auto simp: objs next')
  show "next_nt w' \<le> j \<Longrightarrow> kernel w' j = None" for j
    using thr_okD(6) [OF ok, of j] next' by (auto simp: kern)
qed

lemma thr_ok_update:
  assumes ok: "thr_ok w" and a: "objs w a = Some t" and k: "kernel w k = Some n" and r: "runs a t k n" and new: "runs a t' k n'"
    and w': "objs w' = (objs w)(a \<mapsto> t')" "kernel w' = (kernel w)(k \<mapsto> n')"
      "starting w' = (if mutex t' then insert a (starting w) else starting w - {a})"
      "next_obj w' = next_obj w" "next_nt w' = next_nt w"
  shows "thr_ok w'"
proof (rule thr_ok_change [OF ok a new])
  show "\<not> runs b u k m" if "b \<noteq> a" "kernel w k = Some m" for b u m using runs_unique [OF r] that k by auto
  show "\<not> runs a t j m" if "j \<noteq> k" for j m using runs_handle [OF r] runs_handle that by fastforce
qed (use w' thr_ok_next(2) [OF ok k] in simp_all)

text \<open>The end of an object, with its thread.\<close>

lemma thr_ok_delete:
  assumes ok: "thr_ok w" and a: "objs w a = Some t" and k: "kernel w k = Some n" and "runs a t k n" and "\<not> mutex t"
    and n': "ended n'" "\<not> suspended n'"
    and objs: "objs w' = (objs w)(a := None)" and kern: "kernel w' = (kernel w)(k \<mapsto> n')"
    and next': "starting w' = starting w" "next_obj w' = next_obj w" "next_nt w' = next_nt w"
  shows "thr_ok w'"
proof (rule thr_okI)
  fix j m assume m: "kernel w' j = Some m" "\<not> suspended m" "\<not> ended m" "\<not> foreign m"
  then have "j \<noteq> k" using n' kern by auto
  then have "kernel w j = Some m" using m(1) kern by simp
  from thr_okD(1) [OF ok this m(2-4)] obtain b u where b: "objs w b = Some u" "runs b u j m" by blast
  then have "b \<noteq> a" using \<open>j \<noteq> k\<close> a runs_handle [OF b(2)] runs_handle [OF assms(4)] by auto
  then show "\<exists>b u. objs w' b = Some u \<and> runs b u j m" using b objs by (intro exI [of _ b] exI [of _ u]) simp
next
  fix b u assume b: "objs w' b = Some u" "\<not> unstarted u"
  then have "b \<noteq> a" using objs by auto
  then have "objs w b = Some u" using b(1) objs by simp
  from thr_okD(2) [OF ok this b(2)] obtain j m where m: "kernel w j = Some m" "runs b u j m" by blast
  then have "j \<noteq> k" using runs_unique [OF assms(4)] k \<open>b \<noteq> a\<close> by auto
  then show "\<exists>j m. kernel w' j = Some m \<and> runs b u j m" using m kern by (intro exI [of _ j] exI [of _ m]) simp
next
  show "b \<in> starting w' \<longleftrightarrow> (\<exists>u. objs w' b = Some u \<and> mutex u)" for b
    using thr_okD(3) [OF ok, of b] a assms(5) by (cases "b = a") (simp_all add: objs next')
next
  show "kernel w' j = Some m \<Longrightarrow> suspended m \<Longrightarrow> pos m = AtWrapper" for j m
    using thr_okD(4) [OF ok, of j m] kern n' by (auto split: if_splits)
next
  show "next_obj w' \<le> b \<Longrightarrow> objs w' b = None" for b
    using thr_okD(5) [OF ok, of b] by (auto simp: objs next')
  show "next_nt w' \<le> j \<Longrightarrow> kernel w' j = None" for j
    using thr_okD(6) [OF ok, of j] thr_ok_next(2) [OF ok k] by (auto simp: kern next')
qed

text \<open>A change of an object that was not started, with new threads that stay suspended.\<close>

lemma thr_ok_unstarted:
  assumes ok: "thr_ok w" and old: "\<And>t. objs w a = Some t \<Longrightarrow> unstarted t" and t': "unstarted t'"
    and objs: "objs w' = (objs w)(a \<mapsto> t')"
    and kern: "\<And>k n. kernel w' k = Some n \<Longrightarrow> kernel w k = Some n \<or> suspended n \<and> pos n = AtWrapper"
      "\<And>k n. kernel w k = Some n \<Longrightarrow> kernel w' k = Some n"
    and next': "starting w' = starting w" "a < next_obj w'" "next_obj w \<le> next_obj w'"
      "\<And>k. next_nt w' \<le> k \<Longrightarrow> kernel w' k = None"
  shows "thr_ok w'"
proof (rule thr_okI)
  fix j m assume m: "kernel w' j = Some m" "\<not> suspended m" "\<not> ended m" "\<not> foreign m"
  then have "kernel w j = Some m" using kern(1) by auto
  from thr_okD(1) [OF ok this m(2-4)] obtain b u where b: "objs w b = Some u" "runs b u j m" by blast
  then have "b \<noteq> a" using old unstarted_runs by auto
  then show "\<exists>b u. objs w' b = Some u \<and> runs b u j m" using b objs by (intro exI [of _ b] exI [of _ u]) simp
next
  fix b u assume b: "objs w' b = Some u" "\<not> unstarted u"
  then have "objs w b = Some u" using objs t' by (auto split: if_splits)
  from thr_okD(2) [OF ok this b(2)] show "\<exists>j m. kernel w' j = Some m \<and> runs b u j m" using kern(2) by blast
next
  show "b \<in> starting w' \<longleftrightarrow> (\<exists>u. objs w' b = Some u \<and> mutex u)" for b
    using thr_okD(3) [OF ok, of b] old t' by (cases "b = a") (auto simp: objs next' unstarted_def)
next
  show "kernel w' j = Some m \<Longrightarrow> suspended m \<Longrightarrow> pos m = AtWrapper" for j m
    using thr_okD(4) [OF ok, of j m] kern(1) by blast
next
  show "next_obj w' \<le> b \<Longrightarrow> objs w' b = None" for b
    using thr_okD(5) [OF ok, of b] next'(2,3) by (auto simp: objs)
  show "next_nt w' \<le> j \<Longrightarrow> kernel w' j = None" for j by (rule next'(4))
qed

lemma put_simps [simp]:
  "objs (put_obj a t w) = (objs w)(a \<mapsto> t)" "kernel (put_obj a t w) = kernel w" "starting (put_obj a t w) = starting w"
  "next_obj (put_obj a t w) = next_obj w" "next_nt (put_obj a t w) = next_nt w"
  "objs (put_nt k n w) = objs w" "kernel (put_nt k n w) = (kernel w)(k \<mapsto> n)" "starting (put_nt k n w) = starting w"
  "next_obj (put_nt k n w) = next_obj w" "next_nt (put_nt k n w) = next_nt w"
  by (simp_all add: put_obj_def put_nt_def)

section \<open>Every step keeps it\<close>

lemma common_constructor_ok:
  assumes ok: "thr_ok w" and "common_constructor sem_ok fv fr arg pri det w = (r, w')"
  shows "thr_ok w'"
proof (cases sem_ok)
  case True
  let ?a = "next_obj w"
  have "objs w ?a = None" by (rule thr_okD(5) [OF ok]) simp
  then show ?thesis
    using True assms(2) thr_okD(6) [OF ok]
    by (intro thr_ok_unstarted [OF ok, of ?a _ w'])
      (auto simp: common_constructor_def Let_def unstarted_def)
next
  case False
  with assms(2) have "w' = w\<lparr>next_id := next_id w + 1\<rparr>" by (simp add: common_constructor_def)
  then have "thr_ok w' = thr_ok w" by (intro thr_ok_cong) simp_all
  with ok show ?thesis by simp
qed

text \<open>A start that throws leaves the object unstarted; one that goes on has given it a running thread.\<close>

lemma start_begin_ok:
  assumes ok: "thr_ok w" and a: "objs w a = Some t" "\<not> mutex t" and "start_begin ans a w = (r, w')"
  shows "thr_ok w'"
proof (cases "ostate t = STATE_NEW")
  case False
  with assms(4) a ok show ?thesis by (simp add: start_begin_def obj_at_def)
next
  case True
  let ?k = "next_nt w"
  let ?n = "\<lparr>start_ptr = Some a, win_priority = THREAD_PRIORITY_NORMAL, suspended = True, tls_self = None, pos = AtWrapper\<rparr>"
  have free: "kernel w ?k = None" by (rule thr_okD(6) [OF ok]) simp
  have u: "unstarted t" using True a by (simp add: unstarted_def)
  have sus: "thr_ok v" if "objs v = (objs w)(a \<mapsto> t\<lparr>handle := Some ?k\<rparr>)" "kernel v = (kernel w)(?k \<mapsto> n)"
      "suspended n" "pos n = AtWrapper" "starting v = starting w" "next_obj v = next_obj w" "next_nt v = Suc ?k" for v n
    using that a u free thr_ok_next(1) [OF ok a(1)] thr_okD(6) [OF ok]
    by (intro thr_ok_unstarted [OF ok, of a "t\<lparr>handle := Some ?k\<rparr>"]) (auto simp: unstarted_def split: if_splits)
  consider "\<not> begin_ok ans" | "begin_ok ans" "\<not> (priority_ok ans \<and> resume_ok ans)"
    | "begin_ok ans" "priority_ok ans" "resume_ok ans" by blast
  then show ?thesis
  proof cases
    case 1
    with True assms(4) a have "w' = put_obj a (t\<lparr>handle := None\<rparr>) w" by (simp add: start_begin_def obj_at_def)
    then show ?thesis
      using a u thr_ok_next(1) [OF ok a(1)] thr_okD(6) [OF ok]
      by (intro thr_ok_unstarted [OF ok, of a "t\<lparr>handle := None\<rparr>"]) (auto simp: unstarted_def)
  next
    case 2
    with True assms(4) a show ?thesis
      by (auto simp: start_begin_def obj_at_def Let_def split: if_splits intro!: sus)
  next
    case 3
    let ?t = "t\<lparr>handle := Some ?k, mutex := True\<rparr>"
    let ?m = "?n\<lparr>win_priority := priority_number (opriority t), suspended := False\<rparr>"
    from 3 True assms(4) a have w': "objs w' = (objs w)(a \<mapsto> ?t)" "kernel w' = (kernel w)(?k \<mapsto> ?m)"
      "starting w' = insert a (starting w)" "next_obj w' = next_obj w" "next_nt w' = Suc ?k"
      by (auto simp: start_begin_def obj_at_def Let_def)
    have "runs a ?t ?k ?m" using True by (simp add: runs_def active_def)
    then show ?thesis
      using free unstarted_runs [OF u] w' by (intro thr_ok_change [OF ok a(1)]) auto
  qed
qed

lemma start_undetached_ok:
  assumes ok: "thr_ok w" and a: "objs w a = Some t" "\<not> mutex t" and "start_undetached ans a w = (r, w')"
  shows "thr_ok w'"
proof (cases "fn_void t \<noteq> None \<or> fn_ret t \<noteq> None")
  case False
  let ?w = "put_obj a (t\<lparr>detached := False\<rparr>) w"
  have "thr_ok ?w"
  proof (cases "unstarted t")
    case True
    then show ?thesis
      using a thr_ok_next(1) [OF ok a(1)] thr_okD(6) [OF ok]
      by (intro thr_ok_unstarted [OF ok, of a "t\<lparr>detached := False\<rparr>"]) (auto simp: unstarted_def)
  next
    case False
    from thr_okD(2) [OF ok a(1) this] obtain k n where k: "kernel w k = Some n" "runs a t k n" by blast
    have "runs a (t\<lparr>detached := False\<rparr>) k n" using k(2) by (auto simp: runs_def active_def split: thread_pos.splits)
    then show ?thesis
      using k a thr_okD(3) [OF ok, of a]
      by (intro thr_ok_update [OF ok a(1) k]) (auto simp: fun_upd_idem)
  qed
  moreover have "start_begin ans a ?w = (r, w')" using False assms(4) a by (simp add: start_undetached_def obj_at_def)
  ultimately show ?thesis using start_begin_ok [of ?w a "t\<lparr>detached := False\<rparr>"] a by simp
qed (use assms in \<open>simp add: start_undetached_def obj_at_def\<close>)

text \<open>The object of a started thread that has not ended is alive.\<close>

lemma thread_object:
  assumes ok: "thr_ok w" and k: "kernel w k = Some n" "\<not> suspended n"
  shows "pos n = AtWrapper \<Longrightarrow> \<exists>a t. start_ptr n = Some a \<and> objs w a = Some t \<and> runs a t k n"
    and "pos n = InUser \<Longrightarrow> tls_self n = None \<and> start_ptr n = None \<or>
      (\<exists>a t. tls_self n = Some a \<and> (start_ptr n = None \<or> start_ptr n = Some a) \<and> objs w a = Some t \<and> runs a t k n)"
    and "pos n = ExitUnlocked v \<Longrightarrow> \<exists>a t. tls_self n = Some a \<and> objs w a = Some t \<and> runs a t k n"
proof -
  have a: "\<exists>a t. objs w a = Some t \<and> runs a t k n" if "\<not> ended n" "\<not> foreign n"
    using thr_okD(1) [OF ok k that] .
  show "\<exists>a t. start_ptr n = Some a \<and> objs w a = Some t \<and> runs a t k n" if "pos n = AtWrapper"
    using a that by (auto simp: ended_def foreign_def runs_def)
  show "\<exists>a t. tls_self n = Some a \<and> objs w a = Some t \<and> runs a t k n" if "pos n = ExitUnlocked v"
    using a that by (auto simp: ended_def foreign_def runs_def)
  show "tls_self n = None \<and> start_ptr n = None \<or>
      (\<exists>a t. tls_self n = Some a \<and> (start_ptr n = None \<or> start_ptr n = Some a) \<and> objs w a = Some t \<and> runs a t k n)"
    if "pos n = InUser"
  proof (cases "foreign n")
    case False
    moreover from that have "\<not> ended n" by (simp add: ended_def)
    ultimately obtain a t where "objs w a = Some t" "runs a t k n" using a by blast
    then show ?thesis using that by (auto simp: runs_def)
  qed (simp add: foreign_def)
qed

text \<open>The second half of a start finds its object, which has not left the state \<^verbatim>\<open>STATE_NEW\<close>.\<close>

lemma start_end_ok:
  assumes ok: "thr_ok w" and a: "a \<in> starting w"
  shows "\<exists>t w'. objs w a = Some t \<and> ostate t = STATE_NEW \<and> start_end a w = (Inr (), w') \<and> thr_ok w'"
proof -
  from a thr_okD(3) [OF ok] obtain t where t: "objs w a = Some t" "mutex t" by auto
  then obtain k n where k: "kernel w k = Some n" "runs a t k n"
    using thr_okD(2) [OF ok t(1)] by (auto simp: unstarted_def)
  let ?t = "t\<lparr>ostate := STATE_RUNNING, mutex := False\<rparr>"
  let ?w = "(put_obj a ?t w)\<lparr>starting := starting w - {a}\<rparr>"
  have "ostate t = STATE_NEW" "runs a ?t k n"
    using k(2) t(2) by (auto simp: runs_def active_def split: thread_pos.splits)
  moreover from this k have "thr_ok ?w" by (intro thr_ok_update [OF ok t(1) k]) (auto simp: fun_upd_idem)
  ultimately show ?thesis using t by (simp add: start_end_def obj_at_def)
qed

lemma wrapper_begin_ok:
  assumes ok: "thr_ok w" and k: "kernel w k = Some n" "\<not> suspended n" "pos n = AtWrapper"
  shows "\<exists>w'. wrapper_begin True k w = (Inr (), w') \<and> thr_ok w'"
proof -
  from thread_object(1) [OF ok k] obtain a t where a: "start_ptr n = Some a" "objs w a = Some t" "runs a t k n" by blast
  let ?n = "n\<lparr>tls_self := Some a, pos := InUser\<rparr>"
  have "runs a t k ?n" using a k by (simp add: runs_def)
  then have "thr_ok (put_nt k ?n w)"
    using a k thr_okD(3) [OF ok, of a]
    by (intro thr_ok_update [OF ok a(2) k(1) a(3)]) (auto simp: fun_upd_idem)
  then show ?thesis using k a by (simp add: wrapper_begin_def)
qed

lemma exit_begin_ok:
  assumes ok: "thr_ok w" and k: "kernel w k = Some n" "pos n = InUser" and "unlocked (tls_self n) w"
  shows "\<exists>w'. exit_begin k v w = (Inr (), w') \<and> thr_ok w'"
proof -
  have run: "\<not> suspended n" using thr_okD(4) [OF ok k(1)] k(2) by auto
  show ?thesis
  proof (cases "tls_self n")
    case None
    let ?w = "put_nt k (n\<lparr>pos := Ended v\<rparr>) w"
    have "thr_ok ?w"
    proof (rule thr_okI)
      fix b u assume "objs ?w b = Some u" "\<not> unstarted u"
      then obtain j m where j: "kernel w j = Some m" "runs b u j m" using thr_okD(2) [OF ok, of b u] by auto
      then have "j \<noteq> k" using k None by (auto simp: runs_def)
      then show "\<exists>j m. kernel ?w j = Some m \<and> runs b u j m" using j by (intro exI [of _ j] exI [of _ m]) simp
    next
      show "next_nt ?w \<le> j \<Longrightarrow> kernel ?w j = None" for j
        using thr_okD(6) [OF ok, of j] thr_ok_next(2) [OF ok k(1)] by auto
    qed (use thr_okD [OF ok] k run in \<open>auto simp: ended_def split: if_splits\<close>)
    then show ?thesis using k None by (simp add: exit_begin_def)
  next
    case (Some a)
    with thread_object(2) [OF ok k(1) run k(2)] obtain t where t: "objs w a = Some t" "runs a t k n" by auto
    have m: "\<not> mutex t" using assms(4) Some t by (simp add: unlocked_def)
    let ?t = "t\<lparr>ostate := STATE_TERMINATED\<rparr>"
    let ?n = "n\<lparr>pos := ExitUnlocked v\<rparr>"
    have "runs a ?t k ?n" using t m k Some by (simp add: runs_def)
    then have "thr_ok (put_nt k ?n (put_obj a ?t w))"
      using t m thr_okD(3) [OF ok, of a] by (intro thr_ok_update [OF ok t(1) k(1) t(2)]) auto
    then show ?thesis using k t Some by (simp add: exit_begin_def obj_at_def)
  qed
qed

lemma wrapper_return_ok:
  assumes ok: "thr_ok w" and k: "kernel w k = Some n" "pos n = InUser" and "start_ptr n \<noteq> None" and "unlocked (tls_self n) w"
  shows "\<exists>w'. wrapper_return code k w = (Inr (), w') \<and> thr_ok w'"
proof -
  have "\<not> suspended n" using thr_okD(4) [OF ok k(1)] k(2) by auto
  from thread_object(2) [OF ok k(1) this k(2)] assms(4) obtain a t where a: "start_ptr n = Some a" "objs w a = Some t" by auto
  then show ?thesis
    using exit_begin_ok [OF ok k assms(5), of "wrapper_value code a t"] k by (simp add: wrapper_return_def obj_at_def)
qed

lemma exit_end_ok:
  assumes ok: "thr_ok w" and k: "kernel w k = Some n" "pos n = ExitUnlocked v"
  shows "\<exists>w'. exit_end True k v w = (Inr (), w') \<and> thr_ok w'"
proof -
  have run: "\<not> suspended n" using thr_okD(4) [OF ok k(1)] k(2) by auto
  from thread_object(3) [OF ok k(1) run k(2)] obtain a t where a: "tls_self n = Some a" "objs w a = Some t" "runs a t k n"
    by blast
  then have m: "\<not> mutex t" "ostate t = STATE_TERMINATED" using k by (simp_all add: runs_def)
  let ?n = "n\<lparr>pos := Ended v\<rparr>"
  show ?thesis
  proof (cases "detached t")
    case True
    let ?w = "put_nt k ?n (w\<lparr>objs := (objs w)(a := None)\<rparr>)"
    have "thr_ok ?w" using m run by (intro thr_ok_delete [OF ok a(2) k(1) a(3), where n' = ?n]) (simp_all add: ended_def)
    then show ?thesis using True a k by (simp add: exit_end_def obj_at_def delete_thread_def)
  next
    case False
    let ?t = "t\<lparr>return_val := Some v\<rparr>"
    have "runs a ?t k ?n" using a k m by (simp add: runs_def)
    then have "thr_ok (put_nt k ?n (put_obj a ?t w))"
      using m thr_okD(3) [OF ok, of a] a(2) by (intro thr_ok_update [OF ok a(2) k(1) a(3)]) auto
    then show ?thesis using False a k by (simp add: exit_end_def obj_at_def)
  qed
qed

text \<open>A join that returns gives the value with which the thread ended, and deletes the object.\<close>

lemma join_ok:
  assumes ok: "thr_ok w" and "objs w a = Some t" and "join True k a w = Some (r, w')"
  shows "(r = Inl Invalid \<and> w' = w)
    \<or> (\<exists>h n v. handle t = Some h \<and> kernel w h = Some n \<and> pos n = Ended v \<and> r = Inr (Some v)
          \<and> objs w' a = None \<and> kernel w' = kernel w) \<and> thr_ok w'"
proof (cases "\<not> unstarted t \<and> ostate t \<noteq> STATE_NEW \<and> self k w \<noteq> Some a \<and> \<not> detached t")
  case False
  with assms(2,3) have "(r, w') = (Inl Invalid, w)"
    by (cases "ostate t") (auto simp: join_def obj_at_def unstarted_def split: if_splits)
  then show ?thesis by simp
next
  case True
  with thr_okD(2) [OF ok assms(2)] obtain h n where h: "kernel w h = Some n" "runs a t h n" by blast
  then have h': "handle t = Some h" by (simp add: runs_def)
  have st: "ostate t = STATE_RUNNING \<or> ostate t = STATE_TERMINATED" using True by (cases "ostate t") auto
  from assms(3) obtain v where v: "pos n = Ended v"
    using True assms(2) h(1) h' st by (auto simp: join_def obj_at_def split: thread_pos.splits)
  with h have rv: "return_val t = Some v" "\<not> mutex t" "\<not> suspended n" by (simp_all add: runs_def)
  have res: "(r, w') = (Inr (Some v), w\<lparr>objs := (objs w)(a := None)\<rparr>)"
    using assms(2,3) True h(1) h' st v rv by (auto simp: join_def obj_at_def delete_thread_def)
  moreover from res have "thr_ok w'"
    using v rv h by (intro thr_ok_delete [OF ok assms(2) h rv(2), where n' = n]) (auto simp: ended_def)
  ultimately show ?thesis using h h' v by auto
qed

lemma set_priority_ok:
  assumes ok: "thr_ok w" and a: "objs w a = Some t" "\<not> mutex t" and "set_priority prio_ok pri a w = (r, w')"
  shows "thr_ok w'"
proof (cases "ostate t = STATE_RUNNING")
  case True
  then have "\<not> unstarted t" by (simp add: unstarted_def)
  from thr_okD(2) [OF ok a(1) this] obtain h n where h: "kernel w h = Some n" "runs a t h n" by blast
  then have h': "handle t = Some h" by (simp add: runs_def)
  let ?t = "t\<lparr>opriority := pri\<rparr>"
  have up: "thr_ok v" if "objs v = (objs w)(a \<mapsto> ?t)" "kernel v = (kernel w)(h \<mapsto> m)" "m = n \<or> m = n\<lparr>win_priority := nt_priority pri\<rparr>"
      "starting v = starting w" "next_obj v = next_obj w" "next_nt v = next_nt w" for v m
  proof (rule thr_ok_update [OF ok a(1) h _ that(1,2)])
    show "runs a ?t h m" using h(2) that(3) by (auto simp: runs_def active_def split: thread_pos.splits)
  qed (use that a thr_okD(3) [OF ok, of a] in auto)
  from True a h(1) h' assms(4) show ?thesis
    by (auto simp: set_priority_def obj_at_def Let_def fun_upd_idem intro!: up split: if_splits)
qed (use assms in \<open>simp add: set_priority_def obj_at_def\<close>)

lemma thr_step_ok:
  assumes "thr_step code w w'" and ok: "thr_ok w"
  shows "thr_ok w'"
  using assms(1)
proof (cases rule: thr_step.cases)
  case (constructs sem_ok fv fr arg pri det r)
  then show ?thesis by (rule common_constructor_ok [OF ok])
next
  case (starts a t ans r)
  then show ?thesis by (rule start_begin_ok [OF ok])
next
  case (starts_undetached a t ans r)
  then show ?thesis by (rule start_undetached_ok [OF ok])
next
  case (start_returns a r)
  with start_end_ok [OF ok, of a] show ?thesis by auto
next
  case (enters k n r)
  with wrapper_begin_ok [OF ok, of k n] show ?thesis by auto
next
  case (returns k n r)
  with wrapper_return_ok [OF ok, of k n code] show ?thesis by auto
next
  case (exits k n v r)
  with exit_begin_ok [OF ok, of k n v] show ?thesis by auto
next
  case (exit_ends k n v r)
  with exit_end_ok [OF ok, of k n v] show ?thesis by auto
next
  case (joins k n a t r)
  with join_ok [OF ok, of a t k r] ok show ?thesis by auto
next
  case (sets_priority a t prio_ok pri r)
  then show ?thesis by (rule set_priority_ok [OF ok])
qed

text \<open>The program before its first thread object: threads of Windows only.\<close>

definition omni_start :: "omni_world \<Rightarrow> bool" where
  "omni_start w \<longleftrightarrow> objs w = Map.empty \<and> starting w = {} \<and> init_count w = 0
     \<and> (\<forall>k n. kernel w k = Some n \<longrightarrow> foreign n \<and> \<not> suspended n) \<and> (\<forall>k. next_nt w \<le> k \<longrightarrow> kernel w k = None)"

definition init_good :: init_ok where
  "init_good = \<lparr>tls_alloc_ok = True, semaphore_ok = True, duplicate_ok = True, tls_set_ok = True, init_priority_ok = True\<rparr>"

lemma init_t_ok:
  assumes "omni_start w" and "kernel w k = Some n"
  shows "\<exists>w'. init_t init_good k w = (Inr (), w') \<and> thr_ok w'"
proof -
  let ?a = "next_obj w"
  let ?n = "n\<lparr>tls_self := Some ?a, win_priority := nt_priority PRIORITY_NORMAL\<rparr>"
  obtain w' where w': "init_t init_good k w = (Inr (), w')" "kernel w' = (kernel w)(k \<mapsto> ?n)"
      "objs w' = [?a \<mapsto> \<lparr>ostate = STATE_RUNNING, opriority = PRIORITY_NORMAL, oid = next_id w, fn_void = None, fn_ret = None,
          thread_arg = 0, detached = True, mutex = False, handle = Some k, return_val = None, cond_part = waiter_init\<rparr>]"
      "starting w' = {}" "next_obj w' = Suc ?a" "next_nt w' = next_nt w"
    using assms
    by (simp add: init_t_def init_good_def omni_start_def new_derived_def common_constructor_def obj_at_def Let_def put_obj_def put_nt_def)
  have k: "foreign n" "\<not> suspended n" "k < next_nt w" using assms by (auto simp: omni_start_def not_le [symmetric])
  have f: "foreign m" "\<not> suspended m" if "kernel w j = Some m" for j m using assms(1) that by (simp_all add: omni_start_def)
  have "thr_ok w'"
  proof (rule thr_okI)
    show "\<exists>a t. objs w' a = Some t \<and> runs a t j m" if "kernel w' j = Some m" "\<not> foreign m" for j m
      using that f k w' by (auto simp: runs_def active_def foreign_def split: if_splits)
    show "\<exists>j m. kernel w' j = Some m \<and> runs a t j m" if "objs w' a = Some t" for a t
      using that k w' by (intro exI [of _ k] exI [of _ ?n]) (auto simp: runs_def active_def foreign_def split: if_splits)
    show "suspended m \<Longrightarrow> pos m = AtWrapper" if "kernel w' j = Some m" for j m
      using that f k w' by (auto split: if_splits)
    show "kernel w' j = None" if "next_nt w' \<le> j" for j
      using that assms(1) k w' by (auto simp: omni_start_def)
  qed (use w' in \<open>auto split: if_splits\<close>)
  with w' show ?thesis by blast
qed

lemma thr_reachable: "(thr_step code)\<^sup>*\<^sup>* w w' \<Longrightarrow> thr_ok w \<Longrightarrow> thr_ok w'"
  by (induction rule: rtranclp_induct) (auto intro: thr_step_ok)

section \<open>Joining is possible\<close>

text \<open>The started thread can end by itself, and then the join of \<open>k\<close> returns.\<close>

definition can_join :: "user_code \<Rightarrow> nat \<Rightarrow> nat \<Rightarrow> omni_world \<Rightarrow> bool" where
  "can_join code k a w \<longleftrightarrow>
     (\<exists>w' v w''. (thr_step code)\<^sup>*\<^sup>* w w' \<and> join True k a w' = Some (Inr (Some v), w'') \<and> objs w'' a = None)"

lemma can_join_step: "thr_step code w w' \<Longrightarrow> can_join code k a w' \<Longrightarrow> can_join code k a w"
  unfolding can_join_def by (meson converse_rtranclp_into_rtranclp)

text \<open>What a joiner needs to know of a started thread.\<close>

definition joinable :: "nat \<Rightarrow> nat \<Rightarrow> omni_thread \<Rightarrow> nat \<Rightarrow> nt_thread \<Rightarrow> omni_world \<Rightarrow> bool" where
  "joinable k a t h n w \<longleftrightarrow> objs w a = Some t \<and> kernel w h = Some n \<and> runs a t h n \<and> \<not> detached t
     \<and> self k w \<noteq> Some a \<and> k \<noteq> h"

lemma can_join_ended:
  assumes "joinable k a t h n w" and "pos n = Ended v"
  shows "can_join code k a w"
proof -
  have "join True k a w = Some (Inr (Some v), w\<lparr>objs := (objs w)(a := None)\<rparr>)"
    using assms by (auto simp: joinable_def runs_def join_def obj_at_def delete_thread_def)
  then show ?thesis unfolding can_join_def by fastforce
qed

lemma can_join_exiting:
  assumes j: "joinable k a t h n w" and p: "pos n = ExitUnlocked v"
  shows "can_join code k a w"
proof -
  let ?t = "t\<lparr>return_val := Some v\<rparr>" and ?n = "n\<lparr>pos := Ended v\<rparr>"
  let ?w = "put_nt h ?n (put_obj a ?t w)"
  have "exit_end True h v w = (Inr (), ?w)"
    using j p by (auto simp: joinable_def runs_def exit_end_def obj_at_def)
  then have "thr_step code w ?w" using j p by (intro thr_step.exit_ends) (auto simp: joinable_def)
  moreover have "joinable k a ?t h ?n ?w"
    using j p by (auto simp: joinable_def runs_def self_def)
  ultimately show ?thesis using can_join_ended [of k a ?t h ?n ?w v] can_join_step by force
qed

lemma can_join_user:
  assumes j: "joinable k a t h n w" and p: "pos n = InUser" and m: "\<not> mutex t"
  shows "can_join code k a w"
proof -
  let ?t = "t\<lparr>ostate := STATE_TERMINATED\<rparr>" and ?n = "n\<lparr>pos := ExitUnlocked 0\<rparr>"
  let ?w = "put_nt h ?n (put_obj a ?t w)"
  have "exit_begin h 0 w = (Inr (), ?w)"
    using j p by (auto simp: joinable_def runs_def exit_begin_def obj_at_def)
  then have "thr_step code w ?w"
    using j p m by (intro thr_step.exits [of w h n 0]) (auto simp: joinable_def runs_def unlocked_def)
  moreover have "joinable k a ?t h ?n ?w"
    using j p m by (auto simp: joinable_def runs_def self_def)
  ultimately show ?thesis using can_join_exiting [of k a ?t h ?n ?w 0] can_join_step by force
qed

lemma can_join_wrapper:
  assumes j: "joinable k a t h n w" and p: "pos n = AtWrapper" and m: "\<not> mutex t"
  shows "can_join code k a w"
proof -
  let ?n = "n\<lparr>tls_self := Some a, pos := InUser\<rparr>"
  let ?w = "put_nt h ?n w"
  have "wrapper_begin True h w = (Inr (), ?w)"
    using j p by (auto simp: joinable_def runs_def wrapper_begin_def)
  then have "thr_step code w ?w"
    using j p by (intro thr_step.enters [of w h n]) (auto simp: joinable_def runs_def)
  moreover have "joinable k a t h ?n ?w"
    using j p m by (auto simp: joinable_def runs_def self_def)
  ultimately show ?thesis using can_join_user [of k a t h ?n ?w] m can_join_step by force
qed

lemma can_join_started:
  assumes j: "joinable k a t h n w" and m: "\<not> mutex t"
  shows "can_join code k a w"
  using can_join_ended [OF j] can_join_exiting [OF j] can_join_user [OF j _ m] can_join_wrapper [OF j _ m]
  by (cases "pos n") auto

lemma can_join_starting:
  assumes j: "joinable k a t h n w" and m: "mutex t" and a: "a \<in> starting w"
  shows "can_join code k a w"
proof -
  let ?t = "t\<lparr>ostate := STATE_RUNNING, mutex := False\<rparr>"
  let ?w = "(put_obj a ?t w)\<lparr>starting := starting w - {a}\<rparr>"
  have "start_end a w = (Inr (), ?w)" using j by (simp add: joinable_def start_end_def obj_at_def)
  then have "thr_step code w ?w" using a by (intro thr_step.start_returns [of a w])
  moreover have "joinable k a ?t h n ?w"
    using j m by (auto simp: joinable_def runs_def active_def self_def split: thread_pos.splits)
  ultimately show ?thesis using can_join_started [of k a ?t h n ?w] can_join_step by force
qed

lemma can_join_reachable:
  assumes ok: "thr_ok w" and t: "objs w a = Some t" "\<not> unstarted t" "\<not> detached t"
    and k: "kernel w k = Some m" "pos m = InUser" "self k w \<noteq> Some a"
  shows "can_join code k a w"
proof -
  from thr_okD(2) [OF ok t(1,2)] obtain h n where h: "kernel w h = Some n" "runs a t h n" by blast
  have "k \<noteq> h" using h k by (auto simp: runs_def self_def)
  with h t k have j: "joinable k a t h n w" by (simp add: joinable_def)
  show ?thesis
    using can_join_started [OF j] can_join_starting [OF j] thr_okD(3) [OF ok, of a] t(1) by (cases "mutex t") auto
qed

section \<open>Waiting in a foreign thread\<close>

text \<open>
  \<^verbatim>\<open>_internal_omni_thread_helper\<close>: a thread without an object borrows one for the time of a wait, and the
  objects are kept in a list through their field \<^verbatim>\<open>next\<close>. \<open>lent\<close> are the objects of the waits under way.
\<close>

record dummy_cache =
  dummies :: "nat \<Rightarrow> nat option option"
  cache :: "nat option"
  next_dummy :: nat
  lent :: "nat set"

definition cache_init :: dummy_cache where
  "cache_init = \<lparr>dummies = Map.empty, cache = None, next_dummy = 0, lent = {}\<rparr>"

text \<open>The constructor: the object of the thread itself (on the left) or a borrowed one.\<close>

definition helper_new :: "nat option \<Rightarrow> dummy_cache \<Rightarrow> ((nat + nat) \<times> dummy_cache) res" where
  "helper_new t c =
     (case t of
        Some me \<Rightarrow> Inr (Inl me, c)
      | None \<Rightarrow>
          (case cache c of
             Some d \<Rightarrow>
               (case dummies c d of
                  None \<Rightarrow> Inl UseAfterFree
                | Some nxt \<Rightarrow> Inr (Inr d, c\<lparr>cache := nxt, lent := insert d (lent c)\<rparr>))
           | None \<Rightarrow>
               let d = next_dummy c in
               Inr (Inr d, c\<lparr>dummies := (dummies c)(d \<mapsto> None), next_dummy := Suc d, lent := insert d (lent c)\<rparr>)))"

definition helper_delete :: "nat + nat \<Rightarrow> dummy_cache \<Rightarrow> dummy_cache res" where
  "helper_delete t c =
     (case t of
        Inl me \<Rightarrow> Inr c
      | Inr d \<Rightarrow>
          (case dummies c d of
             None \<Rightarrow> Inl UseAfterFree
           | Some _ \<Rightarrow> Inr (c\<lparr>dummies := (dummies c)(d \<mapsto> cache c), cache := Some d, lent := lent c - {d}\<rparr>)))"

fun cached :: "(nat \<Rightarrow> nat option option) \<Rightarrow> nat option \<Rightarrow> nat list \<Rightarrow> bool" where
  "cached h p [] \<longleftrightarrow> p = None"
| "cached h p (d # ds) \<longleftrightarrow> p = Some d \<and> (\<exists>n. h d = Some n \<and> cached h n ds)"

definition cache_ok :: "dummy_cache \<Rightarrow> bool" where
  "cache_ok c \<longleftrightarrow> (\<exists>ds. cached (dummies c) (cache c) ds \<and> distinct ds \<and> set ds \<inter> lent c = {}
     \<and> lent c \<subseteq> dom (dummies c) \<and> (\<forall>d. next_dummy c \<le> d \<longrightarrow> dummies c d = None))"

lemma cached_update [simp]: "d \<notin> set ds \<Longrightarrow> cached (h(d := x)) p ds = cached h p ds"
  by (induction ds arbitrary: p) auto

lemma cached_dom: "cached h p ds \<Longrightarrow> set ds \<subseteq> dom h"
  by (induction ds arbitrary: p) auto

definition take_dummy :: "dummy_cache \<Rightarrow> (nat \<times> dummy_cache) res" where
  "take_dummy c = rbind (helper_new None c) (\<lambda>(t, c). case t of Inl _ \<Rightarrow> Inl NullPointer | Inr d \<Rightarrow> Inr (d, c))"

lemma take_dummy_ok:
  assumes "cache_ok c"
  shows "\<exists>d c'. take_dummy c = Inr (d, c') \<and> cache_ok c' \<and> d \<notin> lent c \<and> lent c' = insert d (lent c)"
proof -
  from assms obtain ds where ds: "cached (dummies c) (cache c) ds" "distinct ds" "set ds \<inter> lent c = {}"
      "lent c \<subseteq> dom (dummies c)" and new: "\<And>d. next_dummy c \<le> d \<Longrightarrow> dummies c d = None"
    unfolding cache_ok_def by blast
  show ?thesis
  proof (cases ds)
    case Nil
    let ?d = "next_dummy c"
    let ?c = "c\<lparr>dummies := (dummies c)(?d \<mapsto> None), next_dummy := Suc ?d, lent := insert ?d (lent c)\<rparr>"
    have "?d \<notin> lent c" using ds(4) new [of ?d] by auto
    moreover have "cache_ok ?c" unfolding cache_ok_def by (rule exI [of _ "[]"]) (use Nil ds new in auto)
    ultimately show ?thesis using Nil ds by (simp add: take_dummy_def helper_new_def Let_def)
  next
    case (Cons d es)
    with ds obtain n where n: "cache c = Some d" "dummies c d = Some n" "cached (dummies c) n es" by auto
    have "cache_ok (c\<lparr>cache := n, lent := insert d (lent c)\<rparr>)"
      unfolding cache_ok_def by (rule exI [of _ es]) (use Cons ds n new in auto)
    then show ?thesis using Cons ds n by (auto simp: take_dummy_def helper_new_def)
  qed
qed

lemma helper_delete_ok:
  assumes "cache_ok c" and d: "d \<in> lent c"
  shows "\<exists>c'. helper_delete (Inr d) c = Inr c' \<and> cache_ok c' \<and> lent c' = lent c - {d}"
proof -
  from assms obtain ds where ds: "cached (dummies c) (cache c) ds" "distinct ds" "set ds \<inter> lent c = {}"
      "lent c \<subseteq> dom (dummies c)" and new: "\<And>d. next_dummy c \<le> d \<Longrightarrow> dummies c d = None"
    unfolding cache_ok_def by blast
  obtain x where x: "dummies c d = Some x" using ds(4) d by auto
  have notin: "d \<notin> set ds" using ds(3) d by auto
  have lt: "d < next_dummy c" using new [of d] x by (cases "next_dummy c \<le> d") auto
  let ?c = "c\<lparr>dummies := (dummies c)(d \<mapsto> cache c), cache := Some d, lent := lent c - {d}\<rparr>"
  have "cache_ok ?c" unfolding cache_ok_def by (rule exI [of _ "d # ds"]) (use ds d new lt notin in auto)
  then show ?thesis using x by (simp add: helper_delete_def)
qed

interpretation dummies: recycler cache_ok lent "\<lambda>_. True" "\<lambda>_ :: unit. take_dummy" "\<lambda>d. helper_delete (Inr d)"
  by unfold_locales (auto dest: take_dummy_ok helper_delete_ok)

end
