(* ===== verification/OmniThreadProperties.thy ===== *)
theory OmniThreadProperties
  imports OmniThread
begin

text \<open>
  The properties of thread objects: that they live as long as the code uses them, what a join returns and
  that it can return, the priority a thread starts with, and the objects foreign threads borrow.
\<close>

section \<open>An example\<close>

text \<open>A program with two threads of Windows, the first of which is the initial one.\<close>

definition two_threads :: omni_world where
  "two_threads = \<lparr>objs = Map.empty, next_obj = 0, next_id = 0, init_count = 0,
     kernel = (\<lambda>k. if k < 2 then Some \<lparr>start_ptr = None, win_priority = 0, suspended = False, tls_self = None, pos = InUser\<rparr>
                   else None), next_nt = 2, starting = {}\<rparr>"

lemma two_threads_start: "omni_start two_threads"
  by (simp add: omni_start_def two_threads_def foreign_def)

definition all_ok :: start_ok where
  "all_ok = \<lparr>begin_ok = True, priority_ok = True, resume_ok = True\<rparr>"

text \<open>After the initialisation the main thread constructs an undetached thread and starts it.\<close>

definition world1 :: omni_world where "world1 = snd (init_t init_good 0 two_threads)"
definition world2 :: omni_world where "world2 = snd (new_undetached True 7 3 PRIORITY_LOW world1)"
definition world3 :: omni_world where "world3 = snd (start_begin all_ok 1 world2)"

lemmas world_defs = world1_def world2_def world3_def two_threads_def init_t_def init_good_def new_derived_def new_undetached_def
  common_constructor_def obj_at_def put_obj_def put_nt_def start_begin_def all_ok_def

lemma world1: "init_t init_good 0 two_threads = (Inr (), world1)"
  by (simp add: world_defs)

lemma world3: "(thr_step code)\<^sup>*\<^sup>* world1 world3"
proof -
  have "new_undetached True 7 3 PRIORITY_LOW world1 = (Inr 1, world2)" by (simp add: world_defs)
  then have "thr_step code world1 world2" unfolding new_undetached_def by (rule thr_step.constructs)
  moreover have "thr_step code world2 world3"
    by (rule thr_step.starts [of _ 1 _ all_ok "Inr ()"]) (auto simp: world_defs)
  ultimately show ?thesis by auto
qed

section \<open>Properties\<close>

text \<open>C13: in every order of constructions, starts, exits, joins and changes of priority, the object of a thread is
  alive whenever the library goes on using it: in the second half of \<^verbatim>\<open>start\<close>, whose thread may have run to its
  end in the meantime but has not been able to change the state, in the wrapper and in \<^verbatim>\<open>exit\<close>.\<close>

theorem thread_objects_outlive_use:
  assumes "omni_start w0" and "kernel w0 k0 = Some n0" and "init_t init_good k0 w0 = (Inr (), w1)" and "(thr_step code)\<^sup>*\<^sup>* w1 w"
  shows "(\<forall>a. a \<in> starting w \<longrightarrow> (\<exists>t w'. objs w a = Some t \<and> ostate t = STATE_NEW \<and> start_end a w = (Inr (), w')))
    \<and> (\<forall>k n. kernel w k = Some n \<and> \<not> suspended n \<longrightarrow>
          (pos n = AtWrapper \<longrightarrow> (\<exists>w'. wrapper_begin True k w = (Inr (), w')))
        \<and> (pos n = InUser \<and> start_ptr n \<noteq> None \<and> unlocked (tls_self n) w \<longrightarrow> (\<exists>w'. wrapper_return code k w = (Inr (), w')))
        \<and> (\<forall>v. pos n = InUser \<and> unlocked (tls_self n) w \<longrightarrow> (\<exists>w'. exit_begin k v w = (Inr (), w')))
        \<and> (\<forall>v. pos n = ExitUnlocked v \<longrightarrow> (\<exists>w'. exit_end True k v w = (Inr (), w'))))"
proof -
  have ok: "thr_ok w" using thr_reachable [OF assms(4)] init_t_ok [OF assms(1,2)] assms(3) by auto
  show ?thesis
    by (intro conjI allI impI)
      (blast dest: start_end_ok [OF ok] wrapper_begin_ok [OF ok] wrapper_return_ok [OF ok] exit_begin_ok [OF ok] exit_end_ok [OF ok])+
qed

theorem thread_objects_outlive_use_witness:
  "\<exists>t w'. objs world3 1 = Some t \<and> ostate t = STATE_NEW \<and> start_end 1 world3 = (Inr (), w')"
proof -
  have "kernel two_threads 0 = Some \<lparr>start_ptr = None, win_priority = 0, suspended = False, tls_self = None, pos = InUser\<rparr>"
    by (simp add: two_threads_def)
  from thread_objects_outlive_use [OF two_threads_start this world1 world3] have
    "\<forall>a. a \<in> starting world3 \<longrightarrow> (\<exists>t w'. objs world3 a = Some t \<and> ostate t = STATE_NEW \<and> start_end a world3 = (Inr (), w'))"
    by blast
  moreover have "1 \<in> starting world3" by (simp add: world_defs)
  ultimately show ?thesis by blast
qed

text \<open>C15: a join that succeeds happens after the end of the thread, gives the value with which the thread ended, be it
  by returning from its function or by calling \<^verbatim>\<open>exit\<close>, and deletes the object.\<close>

theorem join_returns_exit_value:
  assumes "omni_start w0" and "kernel w0 k0 = Some n0" and "init_t init_good k0 w0 = (Inr (), w1)" and "(thr_step code)\<^sup>*\<^sup>* w1 w"
    and "objs w a = Some t" and "join True k a w = Some (Inr s, w')"
  shows "\<exists>h n v. handle t = Some h \<and> kernel w h = Some n \<and> pos n = Ended v \<and> s = Some v \<and> objs w' a = None"
proof -
  have ok: "thr_ok w" using thr_reachable [OF assms(4)] init_t_ok [OF assms(1,2)] assms(3) by auto
  from join_ok [OF this assms(5,6)] show ?thesis by auto
qed

text \<open>The example goes on: the thread returns 42 from its function, and the main thread joins it.\<close>

definition code42 :: user_code where "code42 = \<lparr>call = (\<lambda>_ _. 42), run_undetached = (\<lambda>_ _. 0)\<rparr>"

definition world4 :: omni_world where "world4 = snd (start_end 1 world3)"
definition world5 :: omni_world where "world5 = snd (wrapper_begin True 2 world4)"
definition world6 :: omni_world where "world6 = snd (wrapper_return code42 2 world5)"
definition world7 :: omni_world where "world7 = snd (exit_end True 2 42 world6)"

lemmas later_defs = world_defs world4_def world5_def world6_def world7_def start_end_def wrapper_begin_def wrapper_return_def
  wrapper_value_def code42_def exit_begin_def exit_end_def unlocked_def join_def self_def delete_thread_def

lemma world7: "(thr_step code42)\<^sup>*\<^sup>* world1 world7"
proof -
  have "thr_step code42 world3 world4"
    by (rule thr_step.start_returns [of 1 _ "Inr ()"]) (simp_all add: later_defs)
  moreover have "thr_step code42 world4 world5"
    by (rule thr_step.enters [of _ 2 _ "Inr ()"]) (auto simp: later_defs)
  moreover have "thr_step code42 world5 world6"
    by (rule thr_step.returns [of _ 2 _ code42 "Inr ()"]) (auto simp: later_defs)
  moreover have "thr_step code42 world6 world7"
    by (rule thr_step.exit_ends [of _ 2 _ 42 "Inr ()"]) (auto simp: later_defs)
  ultimately show ?thesis using world3 [of code42] by (meson rtranclp.rtrancl_into_rtrancl)
qed

text \<open>Everything the example needs to know of its last state.\<close>

lemma world7_facts:
  "\<exists>t. objs world7 1 = Some t \<and> \<not> unstarted t \<and> \<not> detached t \<and> join True 0 1 world7 = Some (Inr (Some 42), world7\<lparr>objs := (objs world7)(1 := None)\<rparr>)"
  by (simp add: later_defs unstarted_def)

lemma two_threads_main:
  "kernel two_threads 0 = Some \<lparr>start_ptr = None, win_priority = 0, suspended = False, tls_self = None, pos = InUser\<rparr>"
  by (simp add: two_threads_def)

theorem join_returns_exit_value_witness:
  "\<exists>t. objs world7 1 = Some t \<and> join True 0 1 world7 = Some (Inr (Some 42), world7\<lparr>objs := (objs world7)(1 := None)\<rparr>)
     \<and> (\<exists>h n v. handle t = Some h \<and> kernel world7 h = Some n \<and> pos n = Ended v \<and> Some 42 = Some v)"
  using world7_facts join_returns_exit_value [OF two_threads_start two_threads_main world1 world7, of 1 _ 0] by blast



text \<open>\<^verbatim>\<open>start\<close> hands the number of the priority to Windows: low starts as normal, normal as above normal, while
  \<^verbatim>\<open>set_priority\<close> to the same priority gives lowest and normal.\<close>

theorem start_raises_priority:
  assumes "objs w a = Some t" and "ostate t = STATE_NEW" and "begin_ok ans" and "priority_ok ans" and "resume_ok ans"
  shows "\<exists>w' w'' n n'. start ans a w = (Inr (), w') \<and> set_priority True (opriority t) a w' = (Inr (), w'')
    \<and> kernel w' (next_nt w) = Some n \<and> kernel w'' (next_nt w) = Some n'
    \<and> win_priority n' = nt_priority (opriority t)
    \<and> win_priority n = (case opriority t of PRIORITY_LOW \<Rightarrow> 0 | PRIORITY_NORMAL \<Rightarrow> 1 | PRIORITY_HIGH \<Rightarrow> 2)"
  using assms
  by (simp add: start_def start_begin_def start_end_def obj_at_def Let_def put_obj_def put_nt_def set_priority_def priority_number_def)

theorem start_raises_priority_witness:
  "\<exists>w' n. start all_ok 1 world2 = (Inr (), w') \<and> kernel w' 2 = Some n \<and> win_priority n = THREAD_PRIORITY_NORMAL
     \<and> nt_priority PRIORITY_LOW = THREAD_PRIORITY_LOWEST"
proof -
  obtain t where t: "objs world2 1 = Some t" "ostate t = STATE_NEW" "opriority t = PRIORITY_LOW" "next_nt world2 = 2"
    by (simp add: world_defs)
  from start_raises_priority [OF t(1,2), of all_ok] t(3,4) show ?thesis
    by (auto simp: all_ok_def nt_priority_def THREAD_PRIORITY_NORMAL_def)
qed

text \<open>Threads without an object of their own that wait at the same time have borrowed different ones, whatever the
  order in which they begin and end their waits.\<close>

theorem borrowed_objects_exclusive:
  "\<exists>c held. pool_run (\<lambda>_ :: unit. take_dummy) (\<lambda>d. helper_delete (Inr d)) ops (cache_init, []) = Inr (c, held) \<and> distinct held"
proof -
  have "cache_ok cache_init" unfolding cache_ok_def by (rule exI [of _ "[]"]) (simp add: cache_init_def)
  from dummies.run_exclusive [OF this, of "[]" ops] show ?thesis by auto
qed

end
