(* ===== verification/Settling.thy ===== *)
theory Settling
  imports Main
begin

text \<open>
  The contract of a system of threads that comes to an end by itself: its steps keep an invariant, each of them
  lowers a rank, and until the end one of them is possible. The client lemmas say that every run is finite and
  ends where it should, whatever the order of the steps.
\<close>

locale settling =
  fixes step :: "'s \<Rightarrow> 's \<Rightarrow> bool"
    and inv :: "'s \<Rightarrow> bool"
    and rank :: "'s \<Rightarrow> nat"
    and fin :: "'s \<Rightarrow> bool"
  assumes inv_step: "inv s \<Longrightarrow> step s s' \<Longrightarrow> inv s'"
    and rank_less: "inv s \<Longrightarrow> step s s' \<Longrightarrow> rank s' < rank s"
    and can_move: "inv s \<Longrightarrow> \<not> fin s \<Longrightarrow> \<exists>s'. step s s'"
begin

lemma inv_run: "step\<^sup>*\<^sup>* s s' \<Longrightarrow> inv s \<Longrightarrow> inv s'"
  by (induction rule: rtranclp_induct) (auto intro: inv_step)

lemma run_ends: "inv s \<Longrightarrow> step\<^sup>*\<^sup>* s s' \<Longrightarrow> \<nexists>s''. step s' s'' \<Longrightarrow> fin s'"
  using inv_run can_move by blast

lemma run_rank:
  fixes f :: "nat \<Rightarrow> 's"
  assumes "inv (f 0)" and "\<And>i. step (f i) (f (Suc i))"
  shows "inv (f n) \<and> rank (f n) + n \<le> rank (f 0)"
proof (induction n)
  case (Suc n)
  then show ?case using inv_step [OF _ assms(2) [of n]] rank_less [OF _ assms(2) [of n]] by fastforce
qed (simp add: assms(1))

lemma no_endless_run:
  fixes f :: "nat \<Rightarrow> 's"
  assumes "inv (f 0)"
  shows "\<exists>i. \<not> step (f i) (f (Suc i))"
  using run_rank [of f "Suc (rank (f 0))"] assms by fastforce

lemma can_end: "inv s \<Longrightarrow> \<exists>s'. step\<^sup>*\<^sup>* s s' \<and> fin s'"
proof (induction "rank s" arbitrary: s rule: less_induct)
  case less
  show ?case
  proof (cases "fin s")
    case False
    then obtain s' where s: "step s s'" using can_move less.prems by blast
    from less.hyps [OF rank_less [OF less.prems s] inv_step [OF less.prems s]] s show ?thesis
      by (meson converse_rtranclp_into_rtranclp)
  qed auto
qed

end

end
