(* ===== verification/CompletionPort.thy ===== *)
theory CompletionPort
  imports Prelude Settling
begin

text \<open>
  The completion port framework, \<^verbatim>\<open>IOCompletePort/IOCompletePort.cpp\<close>: a port of Windows, the threads that wait at
  it, the operations that are posted to it, and its destruction, which waits for the threads in batches of 64.
  Threads, their handles and the operations are numbered.
\<close>

section \<open>The port\<close>

text \<open>\<^verbatim>\<open>m_hCompletePort\<close> is \<^verbatim>\<open>INVALID_HANDLE_VALUE\<close>, \<^verbatim>\<open>NULL\<close> or the handle of the port.\<close>

datatype port_handle = InvalidPort | NullPort | OpenPort

definition is_open :: "port_handle \<Rightarrow> bool" where
  "is_open hnd \<longleftrightarrow> hnd \<noteq> NullPort \<and> hnd \<noteq> InvalidPort"

definition IOCOMPLETEPORT_EXIT :: dword where "IOCOMPLETEPORT_EXIT = 0x0FFFFFFF"

definition MAXIMUM_WAIT_OBJECTS :: nat where "MAXIMUM_WAIT_OBJECTS = 64"

text \<open>
  A packet has the number of bytes and the pointer to an \<^verbatim>\<open>OVERLAPPED\<close>: none, or that of the member \<^verbatim>\<open>ol\<close> of an
  operation, which may be the null pointer itself.
\<close>

datatype ol_ptr = NoOverlapped | OlOf "nat option"

record completion =
  p_bytes :: dword
  p_ol :: ol_ptr

text \<open>
  A worker waits in \<^verbatim>\<open>GetQueuedCompletionStatus\<close>, is in \<^verbatim>\<open>OverLappedOparete\<close> of an operation, with the bytes of its
  packet, or has returned. An operation is an object from \<^verbatim>\<open>new\<close> or on the stack of a function.
\<close>

datatype worker = Waiting | Operating nat dword | Returned

datatype storage = Heap | Stack

text \<open>
  Where the thread is that destroys the port: before a batch, with the index of its first thread and the
  number of threads that remain; in the wait for a batch, with its size too; or it has returned.
\<close>

datatype caller_pos = Idle | AtBatch nat nat | WaitBatch nat nat nat | Done bool

record port =
  m_hCompletePort :: port_handle
  m_nThreadCount :: int
  m_hVecThread :: "nat list"
  m_listOverlapped :: "nat list"
  queue :: "completion list"
  workers :: "nat \<Rightarrow> worker option"
  next_thread :: nat
  closed :: "nat set"
  operations :: "nat \<Rightarrow> storage option"
  next_operation :: nat
  carried_out :: "nat list"
  caller :: caller_pos

definition set_worker :: "nat \<Rightarrow> worker \<Rightarrow> port \<Rightarrow> port" where
  "set_worker k v s = s\<lparr>workers := (workers s)(k \<mapsto> v)\<rparr>"

section \<open>Creation\<close>

text \<open>
  The answers of Windows: whether the port can be created, the number of processors, and whether the
  \<open>i\<close>th thread begins.
\<close>

record create_answers =
  port_ok :: bool
  processors :: dword
  begins :: "nat \<Rightarrow> bool"

definition begin_worker :: "port \<Rightarrow> port" where
  "begin_worker s = s\<lparr>workers := (workers s)(next_thread s \<mapsto> Waiting),
     m_hVecThread := m_hVecThread s @ [next_thread s], next_thread := Suc (next_thread s)\<rparr>"

fun begin_loop :: "nat \<Rightarrow> (nat \<Rightarrow> bool) \<Rightarrow> nat \<Rightarrow> bool \<Rightarrow> port \<Rightarrow> bool \<times> port" where
  "begin_loop 0 ok i bret s = (bret, s)"
| "begin_loop (Suc n) ok i bret s =
     (if ok i then begin_loop n ok (Suc i) bret (begin_worker s) else begin_loop n ok (Suc i) False s)"

text \<open>The number of threads is compared with an unsigned counter.\<close>

definition CreateCompletePort :: "create_answers \<Rightarrow> int \<Rightarrow> port \<Rightarrow> bool \<times> port" where
  "CreateCompletePort ans nthreadcount s =
     (let s = (if m_hCompletePort s = InvalidPort \<or> m_hCompletePort s = NullPort
               then s\<lparr>m_hCompletePort := if port_ok ans then OpenPort else NullPort\<rparr> else s) in
      if m_hCompletePort s = NullPort then (False, s)
      else
        let s = s\<lparr>m_nThreadCount := nthreadcount\<rparr>;
            s = (if m_nThreadCount s \<le> 0 then s\<lparr>m_nThreadCount := sint (processors ans * 2 + 2)\<rparr> else s) in
        begin_loop (unat (word_of_int (m_nThreadCount s) :: dword)) (begins ans) 0 True s)"

definition port_zero :: port where
  "port_zero = \<lparr>m_hCompletePort = InvalidPort, m_nThreadCount = 0, m_hVecThread = [], m_listOverlapped = [], queue = [],
     workers = Map.empty, next_thread = 0, closed = {}, operations = Map.empty, next_operation = 0, carried_out = [], caller = Idle\<rparr>"

definition CIOCompletePort :: "create_answers \<Rightarrow> port" where
  "CIOCompletePort ans = snd (CreateCompletePort ans 20 port_zero)"

section \<open>Posting\<close>

text \<open>
  \<open>post_ok\<close> is what \<^verbatim>\<open>PostQueuedCompletionStatus\<close> answers for an open port. The pointer to the operation is not
  tested: for the null pointer the address of its member \<^verbatim>\<open>ol\<close> is posted.
\<close>

definition post :: "completion \<Rightarrow> port \<Rightarrow> port" where
  "post p s = s\<lparr>queue := queue s @ [p]\<rparr>"

definition IOCompletePortPost :: "bool \<Rightarrow> dword \<Rightarrow> nat option \<Rightarrow> port \<Rightarrow> bool \<times> port" where
  "IOCompletePortPost post_ok bytes pol s =
     (if is_open (m_hCompletePort s)
      then if post_ok then (True, post \<lparr>p_bytes = bytes, p_ol = OlOf pol\<rparr> s) else (False, s)
      else (False, s))"

section \<open>The workers\<close>

text \<open>
  \<^verbatim>\<open>WorkerThreadProc\<close> up to \<^verbatim>\<open>OverLappedOparete\<close>: a packet is taken, or the wait fails because the port is closed.
  \<^term>\<open>None\<close> while the worker has to wait.
\<close>

definition worker_take :: "nat \<Rightarrow> port \<Rightarrow> port option" where
  "worker_take k s =
     (if \<not> is_open (m_hCompletePort s) then Some (set_worker k Returned s)
      else case queue s of
        [] \<Rightarrow> None
      | p # ps \<Rightarrow>
          let s = s\<lparr>queue := ps\<rparr> in
          Some (case p_ol p of
             NoOverlapped \<Rightarrow> set_worker k Returned s
           | OlOf None \<Rightarrow> if p_bytes p = IOCOMPLETEPORT_EXIT then set_worker k Returned s else s
           | OlOf (Some a) \<Rightarrow> set_worker k (Operating a (p_bytes p)) s))"

definition delete_operation :: "nat \<Rightarrow> port \<Rightarrow> port res" where
  "delete_operation a s =
     (case operations s a of
        None \<Rightarrow> Inl UseAfterFree
      | Some Stack \<Rightarrow> Inl InvalidFree
      | Some Heap \<Rightarrow> Inr (s\<lparr>operations := (operations s)(a := None)\<rparr>))"

text \<open>
  The rest: the operation is carried out and deleted, and the worker goes back to wait or returns. \<open>is_exit\<close> is
  what \<^verbatim>\<open>IsExit\<close> of an operation answers. Using an operation that is gone is a fault.
\<close>

definition worker_operate :: "(nat \<Rightarrow> bool) \<Rightarrow> nat \<Rightarrow> nat \<Rightarrow> dword \<Rightarrow> port \<Rightarrow> port res" where
  "worker_operate is_exit k a bytes s =
     (if operations s a = None then Inl UseAfterFree
      else
        let s = s\<lparr>carried_out := carried_out s @ [a]\<rparr> in
        rbind (delete_operation a s) (\<lambda>s.
        Inr (set_worker k (if is_exit a \<or> bytes = IOCOMPLETEPORT_EXIT then Returned else Waiting) s)))"

section \<open>Destruction\<close>

fun ClearOverlappedList :: "nat list \<Rightarrow> port \<Rightarrow> port res" where
  "ClearOverlappedList [] s = Inr s"
| "ClearOverlappedList (p # ps) s = rbind (delete_operation p s) (ClearOverlappedList ps)"

fun post_exit_packets :: "nat \<Rightarrow> port \<Rightarrow> port" where
  "post_exit_packets 0 s = s"
| "post_exit_packets (Suc n) s =
     post_exit_packets n (if is_open (m_hCompletePort s) then post \<lparr>p_bytes = IOCOMPLETEPORT_EXIT, p_ol = NoOverlapped\<rparr> s else s)"

text \<open>The handles of a batch.\<close>

definition batch :: "nat \<Rightarrow> nat \<Rightarrow> port \<Rightarrow> nat list" where
  "batch index wait s = map (\<lambda>i. m_hVecThread s ! (i + index)) [0..<wait]"

text \<open>
  \<^verbatim>\<open>DestroyCompletePort\<close>, from one wait to the next: the beginning, the posting of a batch or, after the last
  one, the end; and the return of \<^verbatim>\<open>WaitForMultipleObjects\<close>, when all threads of the batch have returned, or
  at once if one of the handles is closed.
\<close>

definition DestroyCompletePort :: "port \<Rightarrow> port" where
  "DestroyCompletePort s = s\<lparr>caller := AtBatch 0 (length (m_hVecThread s))\<rparr>"

definition destroy_end :: "port \<Rightarrow> port res" where
  "destroy_end s =
     (let bret = is_open (m_hCompletePort s);
          s = (if bret then s\<lparr>m_hCompletePort := NullPort\<rparr> else s) in
      rbind (ClearOverlappedList (m_listOverlapped s) s) (\<lambda>s. Inr (s\<lparr>caller := Done bret\<rparr>)))"

definition destroy_batch :: "nat \<Rightarrow> nat \<Rightarrow> port \<Rightarrow> port res" where
  "destroy_batch index remain s =
     (if remain > 0
      then let wait = min remain MAXIMUM_WAIT_OBJECTS in Inr ((post_exit_packets wait s)\<lparr>caller := WaitBatch index remain wait\<rparr>)
      else destroy_end s)"

definition batch_over :: "nat list \<Rightarrow> port \<Rightarrow> bool" where
  "batch_over hs s \<longleftrightarrow> (\<exists>k \<in> set hs. k \<in> closed s) \<or> (\<forall>k \<in> set hs. workers s k = Some Returned)"

definition destroy_waited :: "nat \<Rightarrow> nat \<Rightarrow> nat \<Rightarrow> port \<Rightarrow> port option" where
  "destroy_waited index remain wait s =
     (if batch_over (batch index wait s) s
      then Some (s\<lparr>closed := closed s \<union> set (batch index wait s), caller := AtBatch (index + wait) (remain - wait)\<rparr>)
      else None)"

section \<open>The list of operations\<close>

text \<open>Private functions for a list of operations to be used again; nothing calls them.\<close>

definition GetOverlapped :: "port \<Rightarrow> nat option \<times> port" where
  "GetOverlapped s = (case m_listOverlapped s of [] \<Rightarrow> (None, s) | p # ps \<Rightarrow> (Some p, s\<lparr>m_listOverlapped := ps\<rparr>))"

definition PushOverlappedList :: "nat \<Rightarrow> port \<Rightarrow> port" where
  "PushOverlappedList p s = s\<lparr>m_listOverlapped := m_listOverlapped s @ [p]\<rparr>"

definition PopOverlappedList :: "port \<Rightarrow> port" where
  "PopOverlappedList s = s\<lparr>m_listOverlapped := butlast (m_listOverlapped s)\<rparr>"

definition RemoveOverlapped :: "nat \<Rightarrow> port \<Rightarrow> port" where
  "RemoveOverlapped p s = s\<lparr>m_listOverlapped := removeAll p (m_listOverlapped s)\<rparr>"

end
