(* ===== verification/CompletionPortRun.thy ===== *)
theory CompletionPortRun
  imports CompletionPort
begin

text \<open>
  All orders of what the workers, the clients and the destruction of a completion port do, the invariant of the
  reachable states, and the steps of a shutdown as an instance of \<open>settling\<close>.
\<close>

section \<open>Steps\<close>

text \<open>The operations in a queue, and those that wait or are being carried out.\<close>

fun queued :: "completion list \<Rightarrow> nat list" where
  "queued [] = []"
| "queued (p # ps) = (case p_ol p of OlOf (Some a) \<Rightarrow> a # queued ps | _ \<Rightarrow> queued ps)"

definition operating :: "port \<Rightarrow> nat set" where
  "operating s = {a. \<exists>k b. workers s k = Some (Operating a b)}"

definition pending :: "port \<Rightarrow> nat set" where
  "pending s = set (queued (queue s)) \<union> operating s"

text \<open>What goes on by itself: the workers and the thread that destroys the port.\<close>

inductive run_step :: "(nat \<Rightarrow> bool) \<Rightarrow> port \<Rightarrow> port \<Rightarrow> bool" for is_exit where
  takes: "workers s k = Some Waiting \<Longrightarrow> worker_take k s = Some s' \<Longrightarrow> run_step is_exit s s'"
| operates: "workers s k = Some (Operating a b) \<Longrightarrow> worker_operate is_exit k a b s = Inr s' \<Longrightarrow> run_step is_exit s s'"
| begins_batch: "caller s = AtBatch i r \<Longrightarrow> destroy_batch i r s = Inr s' \<Longrightarrow> run_step is_exit s s'"
| has_waited: "caller s = WaitBatch i r w \<Longrightarrow> destroy_waited i r w s = Some s' \<Longrightarrow> run_step is_exit s s'"

text \<open>
  The clients allocate operations, free those they have not handed over, and post each at most once, from any
  thread and also from within an operation, with any number of bytes but the one that asks a worker to end
  (the callers of the program pass 0). The port is destroyed once.
\<close>

inductive port_step :: "(nat \<Rightarrow> bool) \<Rightarrow> port \<Rightarrow> port \<Rightarrow> bool" for is_exit where
  runs: "run_step is_exit s s' \<Longrightarrow> port_step is_exit s s'"
| creates: "caller s = Idle \<Longrightarrow> CreateCompletePort ans n s = (b, s') \<Longrightarrow> port_step is_exit s s'"
| allocates: "port_step is_exit s (s\<lparr>operations := (operations s)(next_operation s \<mapsto> Heap), next_operation := Suc (next_operation s)\<rparr>)"
| frees: "operations s a = Some Heap \<Longrightarrow> a \<notin> pending s \<Longrightarrow> delete_operation a s = Inr s' \<Longrightarrow> port_step is_exit s s'"
| posts: "operations s a = Some Heap \<Longrightarrow> a \<notin> pending s \<Longrightarrow> bytes \<noteq> IOCOMPLETEPORT_EXIT \<Longrightarrow>
    IOCompletePortPost ok bytes (Some a) s = (b, s') \<Longrightarrow> port_step is_exit s s'"
| posts_null: "bytes \<noteq> IOCOMPLETEPORT_EXIT \<Longrightarrow> IOCompletePortPost ok bytes None s = (b, s') \<Longrightarrow> port_step is_exit s s'"
| destroys: "caller s = Idle \<Longrightarrow> port_step is_exit s (DestroyCompletePort s)"

section \<open>Lemmas on queues\<close>

lemma queued_append [simp]: "queued (ps @ qs) = queued ps @ queued qs"
  by (induction ps) (auto split: ol_ptr.splits option.splits)

definition exit_packet :: completion where
  "exit_packet = \<lparr>p_bytes = IOCOMPLETEPORT_EXIT, p_ol = NoOverlapped\<rparr>"

lemma post_exit_packets_open:
  "is_open (m_hCompletePort s) \<Longrightarrow> post_exit_packets n s = s\<lparr>queue := queue s @ replicate n exit_packet\<rparr>"
  by (induction n arbitrary: s) (simp_all add: post_def exit_packet_def replicate_app_Cons_same)

lemma post_exit_packets_closed: "\<not> is_open (m_hCompletePort s) \<Longrightarrow> post_exit_packets n s = s"
  by (induction n) simp_all

lemma queued_exits [simp]: "queued (replicate n exit_packet) = []"
  by (induction n) (simp_all add: exit_packet_def)

section \<open>The invariant\<close>

definition packets_ok :: "port \<Rightarrow> bool" where
  "packets_ok s \<longleftrightarrow> distinct (queued (queue s)) \<and> (\<forall>a \<in> set (queued (queue s)). operations s a = Some Heap)
     \<and> (\<forall>p \<in> set (queue s). p_ol p \<noteq> NoOverlapped \<longrightarrow> p_bytes p \<noteq> IOCOMPLETEPORT_EXIT)"

definition workers_ok :: "port \<Rightarrow> bool" where
  "workers_ok s \<longleftrightarrow> (\<forall>k a b. workers s k = Some (Operating a b) \<longrightarrow>
     operations s a = Some Heap \<and> a \<notin> set (queued (queue s)) \<and> b \<noteq> IOCOMPLETEPORT_EXIT
     \<and> (\<forall>k' b'. workers s k' = Some (Operating a b') \<longrightarrow> k' = k))"

definition operations_ok :: "port \<Rightarrow> bool" where
  "operations_ok s \<longleftrightarrow> distinct (carried_out s) \<and> (\<forall>a \<in> set (carried_out s). operations s a = None \<and> a < next_operation s)
     \<and> (\<forall>a. operations s a \<noteq> None \<longrightarrow> a < next_operation s) \<and> m_listOverlapped s = []"

definition threads_ok :: "port \<Rightarrow> bool" where
  "threads_ok s \<longleftrightarrow> m_hVecThread s = [0..<next_thread s] \<and> (\<forall>k. workers s k \<noteq> None \<longleftrightarrow> k < next_thread s)"

definition returned_below :: "nat \<Rightarrow> port \<Rightarrow> bool" where
  "returned_below i s \<longleftrightarrow> (\<forall>k < i. workers s k = Some Returned)"

definition no_exits :: "completion list \<Rightarrow> bool" where
  "no_exits ps \<longleftrightarrow> (\<forall>p \<in> set ps. p_ol p \<noteq> NoOverlapped)"

fun caller_ok :: "caller_pos \<Rightarrow> port \<Rightarrow> bool" where
  "caller_ok Idle s \<longleftrightarrow> closed s = {} \<and> no_exits (queue s) \<and> (is_open (m_hCompletePort s) \<or> next_thread s = 0)"
| "caller_ok (AtBatch i r) s \<longleftrightarrow> i + r = next_thread s \<and> closed s = {..<i} \<and> returned_below i s
     \<and> (i = 0 \<longrightarrow> no_exits (queue s)) \<and> (is_open (m_hCompletePort s) \<or> next_thread s = 0)"
| "caller_ok (WaitBatch i r w) s \<longleftrightarrow> i + r = next_thread s \<and> closed s = {..<i} \<and> returned_below i s
     \<and> 0 < r \<and> w = min r MAXIMUM_WAIT_OBJECTS \<and> is_open (m_hCompletePort s)"
| "caller_ok (Done b) s \<longleftrightarrow> returned_below (next_thread s) s \<and> \<not> is_open (m_hCompletePort s)"

definition port_inv :: "port \<Rightarrow> bool" where
  "port_inv s \<longleftrightarrow> packets_ok s \<and> workers_ok s \<and> operations_ok s \<and> threads_ok s \<and> caller_ok (caller s) s"

lemmas port_inv_defs = packets_ok_def workers_ok_def operations_ok_def threads_ok_def returned_below_def no_exits_def

text \<open>What the parts of the invariant do not look at.\<close>

lemma packets_ok_other [simp]:
  "packets_ok (s\<lparr>m_hCompletePort := x0\<rparr>) = packets_ok s"
  "packets_ok (s\<lparr>m_nThreadCount := x1\<rparr>) = packets_ok s"
  "packets_ok (s\<lparr>caller := x2\<rparr>) = packets_ok s"
  "packets_ok (s\<lparr>closed := x3\<rparr>) = packets_ok s"
  by (simp_all add: packets_ok_def)

lemma workers_ok_other [simp]:
  "workers_ok (s\<lparr>m_hCompletePort := x0\<rparr>) = workers_ok s"
  "workers_ok (s\<lparr>m_nThreadCount := x1\<rparr>) = workers_ok s"
  "workers_ok (s\<lparr>caller := x2\<rparr>) = workers_ok s"
  "workers_ok (s\<lparr>closed := x3\<rparr>) = workers_ok s"
  by (simp_all add: workers_ok_def)

lemma operations_ok_other [simp]:
  "operations_ok (s\<lparr>m_hCompletePort := x0\<rparr>) = operations_ok s"
  "operations_ok (s\<lparr>m_nThreadCount := x1\<rparr>) = operations_ok s"
  "operations_ok (s\<lparr>caller := x2\<rparr>) = operations_ok s"
  "operations_ok (s\<lparr>closed := x3\<rparr>) = operations_ok s"
  "operations_ok (s\<lparr>queue := x4\<rparr>) = operations_ok s"
  "operations_ok (s\<lparr>workers := x5\<rparr>) = operations_ok s"
  by (simp_all add: operations_ok_def)

lemma threads_ok_other [simp]:
  "threads_ok (s\<lparr>m_hCompletePort := x0\<rparr>) = threads_ok s"
  "threads_ok (s\<lparr>m_nThreadCount := x1\<rparr>) = threads_ok s"
  "threads_ok (s\<lparr>caller := x2\<rparr>) = threads_ok s"
  "threads_ok (s\<lparr>closed := x3\<rparr>) = threads_ok s"
  "threads_ok (s\<lparr>queue := x4\<rparr>) = threads_ok s"
  by (simp_all add: threads_ok_def)

lemma returned_below_other [simp]:
  "returned_below i (s\<lparr>m_hCompletePort := x0\<rparr>) = returned_below i s"
  "returned_below i (s\<lparr>m_nThreadCount := x1\<rparr>) = returned_below i s"
  "returned_below i (s\<lparr>caller := x2\<rparr>) = returned_below i s"
  "returned_below i (s\<lparr>closed := x3\<rparr>) = returned_below i s"
  "returned_below i (s\<lparr>queue := x4\<rparr>) = returned_below i s"
  "returned_below i (s\<lparr>operations := x5\<rparr>) = returned_below i s"
  "returned_below i (s\<lparr>carried_out := x6\<rparr>) = returned_below i s"
  by (simp_all add: returned_below_def)

lemma port_invI [intro?]:
  "packets_ok s \<Longrightarrow> workers_ok s \<Longrightarrow> operations_ok s \<Longrightarrow> threads_ok s \<Longrightarrow> caller_ok (caller s) s \<Longrightarrow> port_inv s"
  by (simp add: port_inv_def)

lemma port_invD:
  assumes "port_inv s"
  shows "packets_ok s" "workers_ok s" "operations_ok s" "threads_ok s" "caller_ok (caller s) s"
  using assms by (simp_all add: port_inv_def)

text \<open>Every operation that waits or is being carried out exists.\<close>

lemma pending_exists: "port_inv s \<Longrightarrow> a \<in> pending s \<Longrightarrow> operations s a = Some Heap"
  by (auto simp: port_inv_def packets_ok_def workers_ok_def pending_def operating_def)

lemma port_zero_inv: "port_inv port_zero"
  by (simp add: port_inv_def port_inv_defs port_zero_def)

section \<open>Preservation\<close>

text \<open>A thread returns, or takes an operation.\<close>

lemma caller_ok_returns:
  assumes "caller_ok c s" and "workers s k \<noteq> None" and "set q \<subseteq> set (queue s)"
  shows "caller_ok c (set_worker k Returned (s\<lparr>queue := q\<rparr>))"
  using assms by (cases c) (auto simp: returned_below_def set_worker_def no_exits_def)

lemma caller_ok_worker:
  assumes "caller_ok c s" and "workers s k = Some v" and "v \<noteq> Returned" and "set q \<subseteq> set (queue s)"
  shows "caller_ok c (set_worker k v' (s\<lparr>queue := q\<rparr>))"
proof -
  have "returned_below i s \<Longrightarrow> returned_below i (set_worker k v' (s\<lparr>queue := q\<rparr>))" for i
    using assms(2,3) by (auto simp: returned_below_def set_worker_def)
  then show ?thesis using assms by (cases c) (auto simp: set_worker_def no_exits_def)
qed

lemma take_inv:
  assumes inv: "port_inv s" and k: "workers s k = Some Waiting" and t: "worker_take k s = Some s'"
  shows "port_inv s'"
proof (cases "is_open (m_hCompletePort s)")
  case False
  then have "s' = set_worker k Returned s" using t by (simp add: worker_take_def)
  then show ?thesis using inv k caller_ok_returns [of "caller s" s k "queue s"]
    by (auto simp: port_inv_def port_inv_defs set_worker_def)
next
  case True
  then obtain p q where q: "queue s = p # q" using t by (auto simp: worker_take_def split: list.splits)
  have c: "caller_ok (caller s) (set_worker k v (s\<lparr>queue := q\<rparr>))" "caller_ok (caller s) (s\<lparr>queue := q\<rparr>)" for v
    using caller_ok_worker [OF port_invD(5) [OF inv] k, of q v] caller_ok_worker [OF port_invD(5) [OF inv] k, of q Waiting] k q
    by (auto simp: set_worker_def fun_upd_idem)
  show ?thesis
  proof (cases "p_ol p")
    case NoOverlapped
    then have "s' = set_worker k Returned (s\<lparr>queue := q\<rparr>)" using t True q by (simp add: worker_take_def)
    then show ?thesis using inv k c q NoOverlapped
      by (auto simp: port_inv_def port_inv_defs set_worker_def)
  next
    case ol: (OlOf a)
    show ?thesis
    proof (cases a)
      case None
      then have "s' = s\<lparr>queue := q\<rparr>" using t True q ol inv
        by (auto simp: worker_take_def port_inv_def packets_ok_def)
      then show ?thesis using inv c q ol None by (auto simp: port_inv_def port_inv_defs)
    next
      case (Some x)
      then have s': "s' = set_worker k (Operating x (p_bytes p)) (s\<lparr>queue := q\<rparr>)" using t True q ol by (simp add: worker_take_def)
      have x: "x \<notin> set (queued q)" "operations s x = Some Heap" "p_bytes p \<noteq> IOCOMPLETEPORT_EXIT"
        using inv q ol Some by (auto simp: port_inv_def packets_ok_def)
      have x4: "workers s k' \<noteq> Some (Operating x b')" for k' b'
      proof
        assume "workers s k' = Some (Operating x b')"
        then have "x \<notin> set (queued (queue s))" using port_invD(2) [OF inv] by (auto simp: workers_ok_def)
        then show False using q ol Some by simp
      qed
      have "workers_ok s'" unfolding workers_ok_def
      proof (intro allI impI)
        fix j a b assume j: "workers s' j = Some (Operating a b)"
        show "operations s' a = Some Heap \<and> a \<notin> set (queued (queue s')) \<and> b \<noteq> IOCOMPLETEPORT_EXIT
          \<and> (\<forall>k' b'. workers s' k' = Some (Operating a b') \<longrightarrow> k' = j)"
        proof (cases "j = k")
          case True
          then show ?thesis using j x x4 by (auto simp: s' set_worker_def)
        next
          case False
          then have "workers s j = Some (Operating a b)" using j by (simp add: s' set_worker_def)
          moreover from this have "a \<noteq> x" using x4 by blast
          ultimately show ?thesis using inv q ol Some False
            by (auto simp: s' set_worker_def port_inv_def workers_ok_def)
        qed
      qed
      moreover have "packets_ok s'" "operations_ok s'"
        using port_invD(1,3) [OF inv] q ol Some by (auto simp: s' packets_ok_def operations_ok_def set_worker_def)
      moreover have "threads_ok s'" using port_invD(4) [OF inv] k by (auto simp: s' threads_ok_def set_worker_def)
      moreover have "caller_ok (caller s') s'" using c(1) by (simp add: s' set_worker_def)
      ultimately show ?thesis by (simp add: port_inv_def)
    qed
  qed
qed

lemma operate_inv:
  assumes inv: "port_inv s" and k: "workers s k = Some (Operating a b)"
  shows "\<exists>s'. worker_operate is_exit k a b s = Inr s' \<and> port_inv s' \<and> queue s' = queue s \<and> carried_out s' = carried_out s @ [a]
    \<and> workers s' = (workers s)(k \<mapsto> if is_exit a then Returned else Waiting) \<and> caller s' = caller s
    \<and> m_hCompletePort s' = m_hCompletePort s \<and> next_thread s' = next_thread s"
proof -
  have a: "operations s a = Some Heap" "a \<notin> set (queued (queue s))" "b \<noteq> IOCOMPLETEPORT_EXIT"
    "\<And>k' b'. workers s k' = Some (Operating a b') \<Longrightarrow> k' = k"
    using inv k by (auto simp: port_inv_def workers_ok_def)
  let ?v = "if is_exit a then Returned else Waiting"
  let ?s = "s\<lparr>carried_out := carried_out s @ [a], operations := (operations s)(a := None)\<rparr>"
  have e: "worker_operate is_exit k a b s = Inr (set_worker k ?v ?s)"
    using a by (simp add: worker_operate_def delete_operation_def)
  have "caller_ok (caller s) (set_worker k ?v ?s)"
    using caller_ok_worker [OF port_invD(5) [OF inv] k, of "queue s" ?v] by (cases "caller s") (auto simp: set_worker_def returned_below_def)
  moreover have "operations_ok ?s"
    using inv a(1) by (auto simp: port_inv_def operations_ok_def)
  moreover have "workers_ok (set_worker k ?v ?s)"
    using inv a(4) by (auto simp: port_inv_def workers_ok_def set_worker_def) 
  ultimately have "port_inv (set_worker k ?v ?s)"
    using inv a(2) k by (auto simp: port_inv_def packets_ok_def operations_ok_def threads_ok_def set_worker_def)
  then show ?thesis using e by (simp add: set_worker_def)
qed

lemma batch_inv:
  assumes inv: "port_inv s" and c: "caller s = AtBatch i r"
  shows "\<exists>s'. destroy_batch i r s = Inr s' \<and> port_inv s' \<and> carried_out s' = carried_out s \<and> workers s' = workers s
    \<and> next_thread s' = next_thread s
    \<and> (if r = 0 then queue s' = queue s \<and> (\<exists>b. caller s' = Done b)
       else queue s' = queue s @ replicate (min r MAXIMUM_WAIT_OBJECTS) exit_packet \<and> caller s' = WaitBatch i r (min r MAXIMUM_WAIT_OBJECTS))"
proof (cases "r = 0")
  case True
  have "destroy_batch i r s = Inr (s\<lparr>m_hCompletePort := if is_open (m_hCompletePort s) then NullPort else m_hCompletePort s,
      caller := Done (is_open (m_hCompletePort s))\<rparr>)"
    using True inv by (simp add: destroy_batch_def destroy_end_def port_inv_def operations_ok_def Let_def)
  then show ?thesis using True inv c by (auto simp: port_inv_def is_open_def)
next
  case False
  have "caller_ok (AtBatch i r) s" using port_invD(5) [OF inv] c by simp
  with False have "is_open (m_hCompletePort s)" by fastforce
  with False have "destroy_batch i r s = Inr (s\<lparr>queue := queue s @ replicate (min r MAXIMUM_WAIT_OBJECTS) exit_packet,
      caller := WaitBatch i r (min r MAXIMUM_WAIT_OBJECTS)\<rparr>)"
    by (simp add: destroy_batch_def post_exit_packets_open Let_def)
  moreover have "p \<in> set (replicate n exit_packet) \<Longrightarrow> p_ol p = NoOverlapped" for p n
    by (auto simp: exit_packet_def)
  moreover have "packets_ok (s\<lparr>queue := queue s @ replicate n exit_packet, caller := c'\<rparr>)" for n c'
    using inv calculation(2) by (auto simp: port_inv_def packets_ok_def)
  moreover have "workers_ok (s\<lparr>queue := queue s @ replicate n exit_packet\<rparr>)" for n
    using inv by (simp add: port_inv_def workers_ok_def)
  ultimately show ?thesis using False inv c \<open>is_open (m_hCompletePort s)\<close>
    by (simp add: port_inv_def)
qed

lemma batch_handles:
  assumes "port_inv s" and "i + w \<le> next_thread s"
  shows "set (batch i w s) = {i..<i + w}"
proof -
  have "batch i w s = map (\<lambda>j. j + i) [0..<w]" using assms by (auto simp: batch_def port_inv_def threads_ok_def)
  then have "batch i w s = [i..<w + i]" by (simp add: map_add_upt)
  then show ?thesis by (simp add: add.commute)
qed

lemma waited_inv:
  assumes inv: "port_inv s" and c: "caller s = WaitBatch i r w" and "destroy_waited i r w s = Some s'"
  shows "port_inv s' \<and> carried_out s' = carried_out s \<and> workers s' = workers s \<and> queue s' = queue s
    \<and> next_thread s' = next_thread s \<and> caller s' = AtBatch (i + w) (r - w) \<and> 0 < w \<and> w \<le> r"
proof -
  have p: "i + r = next_thread s" "closed s = {..<i}" "returned_below i s" "0 < r" "w = min r MAXIMUM_WAIT_OBJECTS" "is_open (m_hCompletePort s)"
    using inv c by (simp_all add: port_inv_def)
  have w: "0 < w" "w \<le> r" using p(4,5) by (simp_all add: MAXIMUM_WAIT_OBJECTS_def)
  have b: "set (batch i w s) = {i..<i + w}" by (rule batch_handles [OF inv]) (use w p(1) in simp)
  have s': "s' = s\<lparr>closed := closed s \<union> {i..<i + w}, caller := AtBatch (i + w) (r - w)\<rparr>" "batch_over (batch i w s) s"
    using assms(3) b by (auto simp: destroy_waited_def split: if_splits)
  then have ret: "\<forall>k \<in> {i..<i + w}. workers s k = Some Returned"
    using p(2) b by (auto simp: batch_over_def)
  have "returned_below (i + w) s'" using p(3) ret by (force simp: returned_below_def s'(1))
  then have "port_inv s'" using inv p w by (auto simp: port_inv_def port_inv_defs s'(1))
  then show ?thesis using w by (simp add: s'(1))
qed

lemma begin_loop_inv:
  "begin_loop n ok i b s = (b', s') \<Longrightarrow> port_inv s \<Longrightarrow> caller s = Idle \<Longrightarrow> is_open (m_hCompletePort s) \<Longrightarrow> port_inv s'"
proof (induction n ok i b s rule: begin_loop.induct)
  case (2 n ok i bret s)
  show ?case
  proof (cases "ok i")
    case True
    have "workers s (next_thread s) = None" using 2(4) unfolding port_inv_def threads_ok_def by (metis less_irrefl)
    moreover have "port_inv (begin_worker s)"
      using 2(4-6) by (auto simp: begin_worker_def port_inv_def port_inv_defs)
    ultimately show ?thesis using 2(1) [OF True] 2(3,5,6) True by (simp add: begin_worker_def)
  next
    case False
    then show ?thesis using 2(2) [OF False] 2(3-6) by simp
  qed
qed simp

lemma create_inv:
  assumes inv: "port_inv s" and c: "caller s = Idle" and e: "CreateCompletePort ans n s = (b, s')"
  shows "port_inv s'"
proof -
  define s1 where "s1 = (if m_hCompletePort s = InvalidPort \<or> m_hCompletePort s = NullPort
               then s\<lparr>m_hCompletePort := if port_ok ans then OpenPort else NullPort\<rparr> else s)"
  have s1: "port_inv s1" "caller s1 = Idle" using inv c by (auto simp: s1_def port_inv_def port_inv_defs is_open_def)
  show ?thesis
  proof (cases "m_hCompletePort s1 = NullPort")
    case True
    then show ?thesis using e s1 by (simp add: CreateCompletePort_def s1_def [symmetric])
  next
    case False
    then have o: "is_open (m_hCompletePort s1)" by (auto simp: s1_def is_open_def)
    let ?m = "if n \<le> 0 then sint (processors ans * 2 + 2) else n"
    from e False have "begin_loop (unat (word_of_int ?m :: dword)) (begins ans) 0 True (s1\<lparr>m_nThreadCount := ?m\<rparr>) = (b, s')"
      by (cases "n \<le> 0") (simp_all add: CreateCompletePort_def s1_def [symmetric] Let_def)
    moreover have "port_inv (s1\<lparr>m_nThreadCount := ?m\<rparr>)" using s1 by (simp add: port_inv_def port_inv_defs)
    ultimately show ?thesis using begin_loop_inv s1(2) o by fastforce
  qed
qed

lemma IOCompletePortPost_eq:
  "IOCompletePortPost ok bytes pol s = (if is_open (m_hCompletePort s) \<and> ok
     then (True, s\<lparr>queue := queue s @ [\<lparr>p_bytes = bytes, p_ol = OlOf pol\<rparr>]\<rparr>) else (False, s))"
  by (simp add: IOCompletePortPost_def post_def)

lemma post_inv:
  assumes inv: "port_inv s" and b: "bytes \<noteq> IOCOMPLETEPORT_EXIT"
    and a: "\<And>a. pol = Some a \<Longrightarrow> operations s a = Some Heap \<and> a \<notin> pending s"
    and e: "IOCompletePortPost ok bytes pol s = (r, s')"
  shows "port_inv s'"
proof (cases "s' = s")
  case False
  then have s': "s' = s\<lparr>queue := queue s @ [\<lparr>p_bytes = bytes, p_ol = OlOf pol\<rparr>]\<rparr>"
    using e by (simp add: IOCompletePortPost_eq split: if_splits)
  have "packets_ok s'" using inv a b by (cases pol) (auto simp: s' port_inv_def packets_ok_def pending_def)
  moreover have "workers_ok s'" using inv a by (cases pol) (auto simp: s' port_inv_def workers_ok_def pending_def operating_def)
  moreover have "caller_ok (caller s') s'" using inv b by (cases "caller s") (auto simp: s' port_inv_def returned_below_def no_exits_def)
  ultimately show ?thesis using inv by (simp add: s' port_inv_def operations_ok_def threads_ok_def)
qed (use inv in simp)

lemma free_inv:
  assumes inv: "port_inv s" and "a \<notin> pending s" and "delete_operation a s = Inr s'"
  shows "port_inv s'"
proof -
  have s': "s' = s\<lparr>operations := (operations s)(a := None)\<rparr>"
    using assms(3) by (auto simp: delete_operation_def split: option.splits storage.splits)
  have "packets_ok s'" using inv assms(2) by (auto simp: s' port_inv_def packets_ok_def pending_def)
  moreover have "workers_ok s'" using inv assms(2) by (auto simp: s' port_inv_def workers_ok_def pending_def operating_def)
  moreover have "operations_ok s'" using inv by (auto simp: s' port_inv_def operations_ok_def)
  moreover have "caller_ok (caller s') s'" using inv by (cases "caller s") (auto simp: s' port_inv_def returned_below_def)
  ultimately show ?thesis using inv by (simp add: s' port_inv_def threads_ok_def)
qed

lemma alloc_inv:
  assumes inv: "port_inv s"
  shows "port_inv (s\<lparr>operations := (operations s)(next_operation s \<mapsto> Heap), next_operation := Suc (next_operation s)\<rparr>)"
    (is "port_inv ?s")
proof -
  have "packets_ok ?s" using inv by (auto simp: port_inv_def packets_ok_def)
  moreover have "workers_ok ?s" using inv by (auto simp: port_inv_def workers_ok_def)
  moreover have "operations_ok ?s" using inv by (auto simp: port_inv_def operations_ok_def less_Suc_eq)
  moreover have "caller_ok (caller ?s) ?s" using inv by (cases "caller s") (auto simp: port_inv_def returned_below_def)
  ultimately show ?thesis using inv by (simp add: port_inv_def threads_ok_def)
qed

lemma run_inv: "run_step is_exit s s' \<Longrightarrow> port_inv s \<Longrightarrow> port_inv s'"
proof (induction rule: run_step.induct)
  case (takes s k s')
  then show ?case using take_inv by blast
next
  case (operates s k a b s')
  then show ?case using operate_inv [OF operates(3,1), of is_exit] by auto
next
  case (begins_batch s i r s')
  then show ?case using batch_inv [OF begins_batch(3,1)] by auto
next
  case (has_waited s i r w s')
  then show ?case using waited_inv by blast
qed

lemma port_step_inv: "port_step is_exit s s' \<Longrightarrow> port_inv s \<Longrightarrow> port_inv s'"
proof (induction rule: port_step.induct)
  case (destroys s)
  then show ?case by (simp add: DestroyCompletePort_def port_inv_def port_inv_defs)
qed (auto intro: run_inv create_inv alloc_inv free_inv post_inv)

lemma port_reachable: "(port_step is_exit)\<^sup>*\<^sup>* s s' \<Longrightarrow> port_inv s \<Longrightarrow> port_inv s'"
  by (induction rule: rtranclp_induct) (auto intro: port_step_inv)

text \<open>No worker ever uses or frees an operation that is not there.\<close>

lemma no_fault:
  assumes "port_inv s" and "workers s k = Some (Operating a b)"
  shows "\<exists>s'. worker_operate is_exit k a b s = Inr s'"
  using operate_inv [OF assms] by blast

end
