(* ===== verification/CompletionPortEnd.thy ===== *)
theory CompletionPortEnd
  imports CompletionPortRun
begin

text \<open>
  How the destruction of a completion port ends: with at most 64 threads it always does, after it has carried out
  all that was posted; with more it can wait forever.
\<close>

section \<open>At most 64 threads\<close>

text \<open>Threads that have not returned, and exit packets in the queue.\<close>

definition alive :: "port \<Rightarrow> nat set" where
  "alive s = {k. k < next_thread s \<and> workers s k \<noteq> Some Returned}"

definition exits :: "completion list \<Rightarrow> nat" where
  "exits ps = length (filter (\<lambda>p. p_ol p = NoOverlapped) ps)"

lemma finite_alive [simp]: "finite (alive s)"
  by (simp add: alive_def)

lemma exits_simps [simp]:
  "exits [] = 0" "exits (p # ps) = (if p_ol p = NoOverlapped then Suc (exits ps) else exits ps)"
  "exits (ps @ qs) = exits ps + exits qs" "exits (replicate n exit_packet) = n"
  by (simp_all add: exits_def exit_packet_def filter_replicate)

definition shutting_down :: "port \<Rightarrow> bool" where
  "shutting_down s \<longleftrightarrow> port_inv s \<and> next_thread s \<le> MAXIMUM_WAIT_OBJECTS \<and> caller s \<noteq> Idle
     \<and> (\<forall>i r w. caller s = WaitBatch i r w \<longrightarrow> card (alive s) \<le> exits (queue s))"

fun weight :: "worker option \<Rightarrow> nat" where
  "weight None = 0" | "weight (Some Waiting) = 1" | "weight (Some (Operating a b)) = 2" | "weight (Some Returned) = 0"

fun caller_rank :: "caller_pos \<Rightarrow> nat" where
  "caller_rank Idle = 0" | "caller_rank (AtBatch i r) = Suc (4 * r)" | "caller_rank (WaitBatch i r w) = 4 * (r - w) + 2" | "caller_rank (Done b) = 0"

definition shutdown_rank :: "port \<Rightarrow> nat" where
  "shutdown_rank s = 2 * length (queue s) + (\<Sum>k<next_thread s. weight (workers s k)) + caller_rank (caller s)"

definition is_done :: "port \<Rightarrow> bool" where
  "is_done s \<longleftrightarrow> (\<exists>b. caller s = Done b)"

lemma sum_weight_upd:
  fixes f :: "nat \<Rightarrow> worker option"
  assumes "k < n" and "f k = v"
  shows "(\<Sum>j<n. weight ((f(k := v')) j)) + weight v = (\<Sum>j<n. weight (f j)) + weight v'"
proof -
  have "(\<Sum>j<n. weight ((f(k := v')) j)) = weight v' + (\<Sum>j\<in>{..<n} - {k}. weight ((f(k := v')) j))"
    using assms(1) by (subst sum.remove [of _ k]) simp_all
  also have "(\<Sum>j\<in>{..<n} - {k}. weight ((f(k := v')) j)) = (\<Sum>j\<in>{..<n} - {k}. weight (f j))"
    by (rule sum.cong) auto
  finally show ?thesis using assms sum.remove [of "{..<n}" k "\<lambda>j. weight (f j)"] by simp
qed

lemma alive_returns: "k \<in> alive s \<Longrightarrow> workers s' = (workers s)(k \<mapsto> Returned) \<Longrightarrow> next_thread s' = next_thread s \<Longrightarrow>
    Suc (card (alive s')) = card (alive s)"
proof -
  assume a: "k \<in> alive s" "workers s' = (workers s)(k \<mapsto> Returned)" "next_thread s' = next_thread s"
  then have "alive s' = alive s - {k}" by (auto simp: alive_def)
  then show ?thesis using a(1) card_Suc_Diff1 [of "alive s" k] by simp
qed

lemma alive_mono: "workers s' = (workers s)(k \<mapsto> v) \<Longrightarrow> k \<in> alive s \<Longrightarrow> next_thread s' = next_thread s \<Longrightarrow> card (alive s') \<le> card (alive s)"
  by (rule card_mono) (auto simp: alive_def split: if_splits)

text \<open>What one taking of a packet does.\<close>

lemma take_cases:
  assumes "port_inv s" and "workers s k = Some Waiting" and "worker_take k s = Some s'"
  obtains (closed) "\<not> is_open (m_hCompletePort s)" "s' = set_worker k Returned s"
  | (stop) p q where "is_open (m_hCompletePort s)" "queue s = p # q" "p_ol p = NoOverlapped" "s' = set_worker k Returned (s\<lparr>queue := q\<rparr>)"
  | (skip) p q where "is_open (m_hCompletePort s)" "queue s = p # q" "p_ol p = OlOf None" "s' = s\<lparr>queue := q\<rparr>"
  | (operate) p q a where "is_open (m_hCompletePort s)" "queue s = p # q" "p_ol p = OlOf (Some a)"
      "s' = set_worker k (Operating a (p_bytes p)) (s\<lparr>queue := q\<rparr>)"
proof (cases "is_open (m_hCompletePort s)")
  case False
  then show thesis using assms(3) closed by (simp add: worker_take_def)
next
  case True
  then obtain p q where q: "queue s = p # q" using assms(3) by (auto simp: worker_take_def split: list.splits)
  show thesis
  proof (cases "p_ol p")
    case NoOverlapped
    then show thesis using True q assms(3) stop by (simp add: worker_take_def)
  next
    case (OlOf a)
    moreover have "p_bytes p \<noteq> IOCOMPLETEPORT_EXIT"
      using assms(1) q OlOf by (simp add: port_inv_def packets_ok_def)
    ultimately show thesis using True q assms(3) skip operate by (cases a) (simp_all add: worker_take_def)
  qed
qed

lemma worker_thread: "port_inv s \<Longrightarrow> workers s k = Some v \<Longrightarrow> k < next_thread s"
  unfolding port_inv_def threads_ok_def by (metis option.distinct(1))

lemma waiting_alive: "port_inv s \<Longrightarrow> workers s k = Some v \<Longrightarrow> v \<noteq> Returned \<Longrightarrow> k \<in> alive s"
  unfolding port_inv_def threads_ok_def alive_def by auto

lemma shutdown_step:
  assumes "shutting_down s" and "run_step is_exit s s'"
  shows "shutting_down s' \<and> shutdown_rank s' < shutdown_rank s"
proof -
  have inv: "port_inv s" and n: "next_thread s \<le> MAXIMUM_WAIT_OBJECTS" and ni: "caller s \<noteq> Idle"
    and ex: "\<And>i r w. caller s = WaitBatch i r w \<Longrightarrow> card (alive s) \<le> exits (queue s)"
    using assms(1) by (auto simp: shutting_down_def)
  have inv': "port_inv s'" using run_inv [OF assms(2) inv] .
  from assms(2) show ?thesis
  proof cases
    case (takes k)
    have k: "k \<in> alive s" "k < next_thread s" using waiting_alive [OF inv takes(1)] by (auto simp: alive_def)
    note w = sum_weight_upd [where f = "workers s", OF k(2) takes(1)]
    from inv takes show ?thesis
    proof (cases rule: take_cases)
      case closed
      have "caller s \<noteq> WaitBatch i r w" for i r w using closed(1) inv by (auto simp: port_inv_def)
      then show ?thesis using closed inv' n ni w [of "Some Returned"]
        by (simp add: shutting_down_def shutdown_rank_def set_worker_def)
    next
      case (stop p q)
      have "Suc (card (alive s')) = card (alive s)" by (rule alive_returns [OF k(1)]) (simp_all add: stop set_worker_def)
      then show ?thesis using stop inv' n ni ex w [of "Some Returned"]
        by (fastforce simp: shutting_down_def shutdown_rank_def set_worker_def)
    next
      case (skip p q)
      have "alive s' = alive s" by (simp add: alive_def skip)
      then show ?thesis using skip inv' n ni ex by (simp add: shutting_down_def shutdown_rank_def)
    next
      case (operate p q a)
      have "card (alive s') \<le> card (alive s)" by (rule alive_mono [OF _ k(1)]) (simp_all add: operate set_worker_def)
      then show ?thesis using operate inv' n ni ex w [of "Some (Operating a (p_bytes p))"]
        by (fastforce simp: shutting_down_def shutdown_rank_def set_worker_def)
    qed
  next
    case (operates k a b)
    have k: "k \<in> alive s" "k < next_thread s" using waiting_alive [OF inv operates(1)] by (auto simp: alive_def)
    from operate_inv [OF inv operates(1), of is_exit] operates(2) have e:
        "queue s' = queue s" "workers s' = (workers s)(k \<mapsto> if is_exit a then Returned else Waiting)" "caller s' = caller s"
        "next_thread s' = next_thread s" by auto
    have "card (alive s') \<le> card (alive s)" by (rule alive_mono [OF e(2) k(1) e(4)])
    then have "shutting_down s'" using e inv' n ni ex by (fastforce simp: shutting_down_def)
    moreover have "(\<Sum>j<next_thread s'. weight (workers s' j)) < (\<Sum>j<next_thread s. weight (workers s j))"
      using sum_weight_upd [where f = "workers s", OF k(2) operates(1), of "Some (if is_exit a then Returned else Waiting)"]
      unfolding e(2,4) by (cases "is_exit a") simp_all
    then have "shutdown_rank s' < shutdown_rank s" unfolding shutdown_rank_def e(1,3) by simp
    ultimately show ?thesis ..
  next
    case (begins_batch i r)
    from batch_inv [OF inv begins_batch(1)] begins_batch(2) have e:
        "workers s' = workers s" "next_thread s' = next_thread s"
        "if r = 0 then queue s' = queue s \<and> (\<exists>b. caller s' = Done b)
         else queue s' = queue s @ replicate (min r MAXIMUM_WAIT_OBJECTS) exit_packet \<and> caller s' = WaitBatch i r (min r MAXIMUM_WAIT_OBJECTS)"
      by auto
    show ?thesis
    proof (cases "r = 0")
      case True
      then show ?thesis using e inv' n begins_batch(1) by (auto simp: shutting_down_def shutdown_rank_def)
    next
      case False
      have "i + r = next_thread s" "returned_below i s" using port_invD(5) [OF inv] begins_batch(1) by simp_all
      then have "alive s' \<subseteq> {i..<i + r}" using e(1,2) by (fastforce simp: alive_def returned_below_def not_less [symmetric])
      then have "card (alive s') \<le> r" using card_mono [of "{i..<i + r}" "alive s'"] by simp
      moreover have "min r MAXIMUM_WAIT_OBJECTS = r" using \<open>i + r = next_thread s\<close> n by simp
      ultimately show ?thesis using False e inv' n begins_batch(1) by (simp add: shutting_down_def shutdown_rank_def)
    qed
  next
    case (has_waited i r w)
    from waited_inv [OF inv has_waited] has_waited(1) show ?thesis
      using inv' n by (simp add: shutting_down_def shutdown_rank_def)
  qed
qed

lemma shutdown_moves:
  assumes sd: "shutting_down s" and "\<not> is_done s"
  shows "\<exists>s'. run_step is_exit s s'"
proof -
  have inv: "port_inv s" using sd by (simp add: shutting_down_def)
  show ?thesis
  proof (cases "caller s")
    case (AtBatch i r)
    then show ?thesis using batch_inv [OF inv AtBatch] run_step.begins_batch by metis
  next
    case (WaitBatch i r w)
    show ?thesis
    proof (cases "\<exists>k. k \<in> alive s")
      case False
      have c: "i + r = next_thread s" "w \<le> r" using port_invD(5) [OF inv] WaitBatch by simp_all
      have "\<forall>k \<in> set (batch i w s). workers s k = Some Returned"
        using False c batch_handles [OF inv, of i w] by (auto simp: alive_def)
      then have "\<exists>s'. destroy_waited i r w s = Some s'" by (simp add: destroy_waited_def batch_over_def)
      then show ?thesis using run_step.has_waited [OF WaitBatch] by blast
    next
      case True
      then obtain k where k: "k \<in> alive s" by blast
      then have "0 < card (alive s)" by (auto simp: card_gt_0_iff)
      then have "queue s \<noteq> []" using sd WaitBatch by (auto simp: shutting_down_def)
      moreover have "workers s k \<noteq> None" using k port_invD(4) [OF inv] by (simp add: alive_def threads_ok_def)
      then obtain v where v: "workers s k = Some v" "v \<noteq> Returned" using k by (auto simp: alive_def)
      ultimately show ?thesis
      proof (cases v)
        case Waiting
        obtain p q where "queue s = p # q" using \<open>queue s \<noteq> []\<close> by (cases "queue s") auto
        then have "\<exists>s'. worker_take k s = Some s'" by (simp add: worker_take_def Let_def)
        then show ?thesis using run_step.takes [of s k] v(1) Waiting by blast
      next
        case (Operating a b)
        then show ?thesis using no_fault [OF inv] v(1) run_step.operates by metis
      qed simp
    qed
  qed (use sd assms(2) in \<open>auto simp: shutting_down_def is_done_def\<close>)
qed

interpretation shutdown: settling "run_step is_exit" shutting_down shutdown_rank is_done for is_exit
  by unfold_locales (use shutdown_step shutdown_moves in blast)+

lemma destroy_shutting_down:
  "port_inv s \<Longrightarrow> next_thread s \<le> MAXIMUM_WAIT_OBJECTS \<Longrightarrow> caller s = Idle \<Longrightarrow> shutting_down (DestroyCompletePort s)"
  by (simp add: shutting_down_def DestroyCompletePort_def port_inv_def threads_ok_def returned_below_def)

section \<open>What has been posted is carried out\<close>

text \<open>The part of the queue before the first exit packet.\<close>

definition before_exits :: "completion list \<Rightarrow> completion list" where
  "before_exits ps = takeWhile (\<lambda>p. p_ol p \<noteq> NoOverlapped) ps"

text \<open>
  The operations \<open>old\<close> have been carried out, are being carried out, or wait before the exit packets; once a
  worker has returned none of them waits.
\<close>

definition due :: "nat set \<Rightarrow> port \<Rightarrow> bool" where
  "due old s \<longleftrightarrow> old \<subseteq> set (carried_out s) \<union> operating s \<union> set (queued (before_exits (queue s)))
     \<and> ((\<exists>k. workers s k = Some Returned) \<longrightarrow> old \<inter> set (queued (queue s)) = {})
     \<and> (is_done s \<or> is_open (m_hCompletePort s))"

lemma before_exits_simps [simp]:
  "before_exits [] = []" "before_exits (p # ps) = (if p_ol p = NoOverlapped then [] else p # before_exits ps)"
  by (simp_all add: before_exits_def)

lemma before_exits_subset: "set (queued (before_exits ps)) \<subseteq> set (queued ps)"
  by (induction ps) (auto split: ol_ptr.splits option.splits)

lemma before_exits_append:
  "set (queued (before_exits ps)) \<subseteq> set (queued (before_exits (ps @ qs)))"
  "\<forall>p \<in> set ps. p_ol p \<noteq> NoOverlapped \<Longrightarrow> queued (before_exits ps) = queued ps"
  by (induction ps) (auto split: ol_ptr.splits option.splits)

lemma operating_moves:
  assumes "workers s k = Some Waiting"
  shows "operating (set_worker k Returned (s\<lparr>queue := q\<rparr>)) = operating s"
    "operating (set_worker k (Operating a b) (s\<lparr>queue := q\<rparr>)) = insert a (operating s)"
proof -
  have ne: "j \<noteq> k" if "workers s j = Some (Operating c d)" for j c d using that assms by auto
  show "operating (set_worker k Returned (s\<lparr>queue := q\<rparr>)) = operating s"
    by (rule set_eqI) (use ne in \<open>auto simp: operating_def set_worker_def split: if_splits; blast\<close>)
  show "operating (set_worker k (Operating a b) (s\<lparr>queue := q\<rparr>)) = insert a (operating s)"
    by (rule set_eqI) (use ne in \<open>auto simp: operating_def set_worker_def split: if_splits; blast\<close>)
qed

lemma due_step:
  assumes inv: "port_inv s" and d: "due old s" and step: "run_step (\<lambda>_. False) s s'"
  shows "due old s'"
  using step
proof cases
  case (takes k)
  from inv takes show ?thesis
  proof (cases rule: take_cases)
    case closed
    then have "\<exists>b. caller s = Done b" using d by (simp add: due_def is_done_def)
    then have "workers s k = Some Returned" using worker_thread [OF inv takes(1)] inv
      by (auto simp: port_inv_def returned_below_def)
    then show ?thesis using takes(1) by simp
  next
    case (stop p q)
    have "operating s' = operating s" using operating_moves(1) [OF takes(1)] stop by simp
    moreover have "old \<subseteq> set (carried_out s) \<union> operating s" using d stop by (simp add: due_def)
    moreover have "a \<notin> set (queued (queue s))" if "a \<in> set (carried_out s) \<union> operating s" for a
      using that port_invD(1-3) [OF inv] by (force simp: packets_ok_def workers_ok_def operations_ok_def operating_def)
    ultimately show ?thesis using d stop by (auto simp: due_def is_done_def set_worker_def)
  next
    case (skip p q)
    then have "operating s' = operating s" by (simp add: operating_def)
    then show ?thesis using d skip by (simp add: due_def is_done_def)
  next
    case (operate p q a)
    have "operating s' = insert a (operating s)" using operating_moves(2) [OF takes(1)] operate by simp
    then show ?thesis using d operate by (auto simp: due_def is_done_def set_worker_def split: if_splits)
  qed
next
  case (operates k a b)
  from operate_inv [OF inv operates(1), of "\<lambda>_. False"] operates(2) have e:
      "queue s' = queue s" "carried_out s' = carried_out s @ [a]" "workers s' = (workers s)(k \<mapsto> Waiting)" "caller s' = caller s"
      "m_hCompletePort s' = m_hCompletePort s" by auto
  have "operating s \<subseteq> insert a (operating s')"
  proof
    fix x assume "x \<in> operating s"
    then obtain j d where j: "workers s j = Some (Operating x d)" by (auto simp: operating_def)
    show "x \<in> insert a (operating s')"
    proof (cases "j = k")
      case False
      then have "workers s' j = Some (Operating x d)" using j e(3) by simp
      then show ?thesis by (auto simp: operating_def)
    qed (use j operates(1) in simp)
  qed
  then show ?thesis using d e by (auto simp: due_def is_done_def split: if_splits)
next
  case (begins_batch i r)
  from batch_inv [OF inv begins_batch(1)] begins_batch(2) have e: "carried_out s' = carried_out s" "workers s' = workers s"
      "if r = 0 then queue s' = queue s \<and> (\<exists>b. caller s' = Done b)
       else queue s' = queue s @ replicate (min r MAXIMUM_WAIT_OBJECTS) exit_packet \<and> caller s' = WaitBatch i r (min r MAXIMUM_WAIT_OBJECTS)"
      "port_inv s'"
    by auto
  have o: "operating s' = operating s" by (simp add: operating_def e(2))
  show ?thesis
  proof (cases "r = 0")
    case True
    then show ?thesis using d e o by (auto simp: due_def is_done_def)
  next
    case False
    then have "is_open (m_hCompletePort s')" using port_invD(5) [OF e(4)] e(3) by simp
    then show ?thesis using False d e(1-3) o before_exits_append(1) [of "queue s"] by (fastforce simp: due_def)
  qed
next
  case (has_waited i r w)
  from has_waited(2) have "carried_out s' = carried_out s" "workers s' = workers s" "queue s' = queue s"
      "m_hCompletePort s' = m_hCompletePort s"
    by (auto simp: destroy_waited_def split: if_splits)
  moreover from this have "operating s' = operating s" by (simp add: operating_def)
  moreover have "\<not> is_done s" using has_waited(1) by (simp add: is_done_def)
  ultimately show ?thesis using d by (auto simp: due_def)
qed

text \<open>Posts and the clients' other steps do no harm.\<close>

lemma due_client:
  assumes "due old s" and "operating s' = operating s" and "carried_out s' = carried_out s" and "workers s' = workers s"
    and "queue s' = queue s @ ps" and "old \<inter> set (queued ps) = {}"
    and "caller s' = caller s" and "m_hCompletePort s' = m_hCompletePort s"
  shows "due old s'"
  using assms before_exits_append(1) [of "queue s" ps] by (auto simp: due_def is_done_def)

lemma due_destroy:
  assumes "port_inv s" and "caller s = Idle" and "is_open (m_hCompletePort s)" and "\<forall>k. workers s k \<noteq> Some Returned"
    and "\<forall>p \<in> set (queue s). p_ol p \<noteq> NoOverlapped"
  shows "due (pending s) (DestroyCompletePort s)"
  using assms before_exits_append(2) [of "queue s"] by (auto simp: due_def DestroyCompletePort_def pending_def operating_def)

lemma due_done:
  assumes "port_inv s" and "due old s" and "is_done s" and "0 < next_thread s"
  shows "old \<subseteq> set (carried_out s)"
proof -
  have r: "\<forall>k < next_thread s. workers s k = Some Returned"
    using assms(1,3) by (auto simp: is_done_def port_inv_def returned_below_def)
  then have "old \<inter> set (queued (queue s)) = {}" using assms(2,4) by (auto simp: due_def)
  moreover have "operating s = {}"
    using r worker_thread [OF assms(1)] by (fastforce simp: operating_def)
  ultimately show ?thesis using assms(2) before_exits_subset [of "queue s"] by (fastforce simp: due_def)
qed

text \<open>Before the destruction begins no worker has returned, if no operation asks for it.\<close>

definition all_running :: "port \<Rightarrow> bool" where
  "all_running s \<longleftrightarrow> (caller s = Idle \<longrightarrow> (\<forall>k. workers s k \<noteq> Some Returned))"

lemma begin_loop_running:
  "begin_loop n ok i b s = (b', s') \<Longrightarrow> \<forall>k. workers s k \<noteq> Some Returned \<Longrightarrow> \<forall>k. workers s' k \<noteq> Some Returned"
  by (induction n ok i b s rule: begin_loop.induct) (auto simp: begin_worker_def split: if_splits)

lemma create_running:
  assumes "CreateCompletePort ans n s = (b, s')" and "\<forall>k. workers s k \<noteq> Some Returned"
  shows "\<forall>k. workers s' k \<noteq> Some Returned"
  using assms begin_loop_running by (fastforce simp: CreateCompletePort_def Let_def split: if_splits)

lemma run_running:
  assumes inv: "port_inv s" and "all_running s" and step: "run_step (\<lambda>_. False) s s'"
  shows "all_running s'"
  using step
proof cases
  case (takes k)
  from inv takes show ?thesis
  proof (cases rule: take_cases)
    case closed
    then show ?thesis using worker_thread [OF inv takes(1)] inv by (auto simp: all_running_def set_worker_def port_inv_def)
  next
    case (stop p q)
    then have "\<not> no_exits (queue s)" by (auto simp: no_exits_def)
    then show ?thesis using stop inv by (auto simp: all_running_def set_worker_def port_inv_def)
  qed (use assms(2) in \<open>auto simp: all_running_def set_worker_def\<close>)
next
  case (operates k a b)
  with operate_inv [OF inv operates(1), of "\<lambda>_. False"] assms(2) show ?thesis by (auto simp: all_running_def)
next
  case (begins_batch i r)
  with batch_inv [OF inv begins_batch(1)] show ?thesis by (auto simp: all_running_def split: if_splits)
next
  case (has_waited i r w)
  with waited_inv [OF inv has_waited] show ?thesis by (simp add: all_running_def)
qed

lemma client_running:
  "port_step (\<lambda>_. False) s s' \<Longrightarrow> port_inv s \<Longrightarrow> all_running s \<Longrightarrow> all_running s'"
proof (induction rule: port_step.induct)
  case (runs s s')
  then show ?case using run_running by blast
next
  case (creates s ans n b s')
  then show ?case using create_running by (auto simp: all_running_def)
qed (auto simp: all_running_def delete_operation_def IOCompletePortPost_eq DestroyCompletePort_def
       split: option.splits storage.splits if_splits)

lemma reachable_running: "(port_step (\<lambda>_. False))\<^sup>*\<^sup>* s s' \<Longrightarrow> port_inv s \<Longrightarrow> all_running s \<Longrightarrow> all_running s'"
  by (induction rule: rtranclp_induct) (auto intro: client_running dest: port_reachable)

lemma due_port_step:
  assumes step: "port_step (\<lambda>_. False) s s'" and inv: "port_inv s" and d: "due old s" and c: "caller s \<noteq> Idle"
  shows "due old s' \<and> caller s' \<noteq> Idle"
  using step
proof cases
  case runs
  have "caller s' \<noteq> Idle" using runs
  proof cases
    case (takes k)
    from inv takes show ?thesis by (cases rule: take_cases) (use c in \<open>simp_all add: set_worker_def\<close>)
  next
    case (operates k a b)
    with operate_inv [OF inv operates(1), of "\<lambda>_. False"] c show ?thesis by auto
  next
    case (begins_batch i r)
    with batch_inv [OF inv begins_batch(1)] show ?thesis by (auto split: if_splits)
  next
    case (has_waited i r w)
    with waited_inv [OF inv has_waited] show ?thesis by simp
  qed
  then show ?thesis using due_step [OF inv d runs] by blast
next
  case allocates
  then show ?thesis using c due_client [OF d, of s' "[]"] by (simp add: operating_def)
next
  case (frees a)
  then have "s' = s\<lparr>operations := (operations s)(a := None)\<rparr>"
    by (auto simp: delete_operation_def split: option.splits storage.splits)
  then show ?thesis using c due_client [OF d, of s' "[]"] by (simp add: operating_def)
next
  case (posts a bytes ok b)
  have "a \<notin> set (carried_out s)" using posts(1) port_invD(3) [OF inv] by (auto simp: operations_ok_def)
  then have "a \<notin> old" using d posts(2) before_exits_subset [of "queue s"] by (auto simp: due_def pending_def)
  then show ?thesis using posts(4) c d due_client [OF d, of s' "[\<lparr>p_bytes = bytes, p_ol = OlOf (Some a)\<rparr>]"]
    by (auto simp: IOCompletePortPost_eq operating_def split: if_splits)
next
  case (posts_null bytes ok b)
  then show ?thesis using c d due_client [OF d, of s' "[\<lparr>p_bytes = bytes, p_ol = OlOf None\<rparr>]"]
    by (auto simp: IOCompletePortPost_eq operating_def split: if_splits)
qed (use c in simp_all)

lemma due_reachable:
  "(port_step (\<lambda>_. False))\<^sup>*\<^sup>* s s' \<Longrightarrow> port_inv s \<Longrightarrow> due old s \<Longrightarrow> caller s \<noteq> Idle \<Longrightarrow> due old s' \<and> caller s' \<noteq> Idle \<and> port_inv s'"
  by (induction rule: rtranclp_induct) (auto dest: due_port_step port_step_inv)

text \<open>There are never fewer threads.\<close>

lemma begin_loop_count: "begin_loop n ok i b s = (b', s') \<Longrightarrow> next_thread s \<le> next_thread s'"
  by (induction n ok i b s rule: begin_loop.induct) (auto simp: begin_worker_def split: if_splits)

lemma create_count: "CreateCompletePort ans n s = (b, s') \<Longrightarrow> next_thread s \<le> next_thread s'"
  using begin_loop_count by (fastforce simp: CreateCompletePort_def Let_def split: if_splits)

lemma run_count: "run_step is_exit s s' \<Longrightarrow> port_inv s \<Longrightarrow> next_thread s \<le> next_thread s'"
proof (induction rule: run_step.induct)
  case (takes s k s')
  from takes(3,1,2) show ?case by (cases rule: take_cases) (simp_all add: set_worker_def)
next
  case (operates s k a b s')
  with operate_inv [OF operates(3,1), of is_exit] show ?case by auto
next
  case (begins_batch s i r s')
  with batch_inv [OF begins_batch(3,1)] show ?case by auto
next
  case (has_waited s i r w s')
  then show ?case by (auto simp: destroy_waited_def split: if_splits)
qed

lemma step_count: "port_step is_exit s s' \<Longrightarrow> port_inv s \<Longrightarrow> next_thread s \<le> next_thread s'"
proof (induction rule: port_step.induct)
  case (runs s s')
  then show ?case using run_count by blast
next
  case (creates s ans n b s')
  then show ?case using create_count by blast
qed (auto simp: delete_operation_def IOCompletePortPost_eq DestroyCompletePort_def split: option.splits storage.splits if_splits)

lemma thread_count: "(port_step is_exit)\<^sup>*\<^sup>* s s' \<Longrightarrow> port_inv s \<Longrightarrow> next_thread s \<le> next_thread s'"
  by (induction rule: rtranclp_induct) (auto dest: step_count port_reachable intro: le_trans)

section \<open>More than 64 threads\<close>

text \<open>The exit packets go to threads that the first wait does not wait for, as long as there are enough of them.\<close>

lemma drain:
  "queue s = replicate m exit_packet \<Longrightarrow> is_open (m_hCompletePort s) \<Longrightarrow> (\<forall>j. k \<le> j \<and> j < k + m \<longrightarrow> workers s j = Some Waiting) \<Longrightarrow>
     \<exists>s'. (run_step is_exit)\<^sup>*\<^sup>* s s' \<and> queue s' = [] \<and> (\<forall>j. j < k \<or> k + m \<le> j \<longrightarrow> workers s' j = workers s j)
       \<and> (\<forall>j. k \<le> j \<and> j < k + m \<longrightarrow> workers s' j = Some Returned)
       \<and> caller s' = caller s \<and> m_hCompletePort s' = m_hCompletePort s \<and> closed s' = closed s \<and> m_hVecThread s' = m_hVecThread s"
proof (induction m arbitrary: s k)
  case (Suc m)
  let ?s = "set_worker k Returned (s\<lparr>queue := replicate m exit_packet\<rparr>)"
  have "worker_take k s = Some ?s" using Suc.prems(1,2) by (simp add: worker_take_def exit_packet_def)
  then have "run_step is_exit s ?s" using Suc.prems(3) by (intro run_step.takes [of s k]) auto
  moreover obtain s' where s': "(run_step is_exit)\<^sup>*\<^sup>* ?s s'" "queue s' = []" "\<forall>j. j < Suc k \<or> Suc k + m \<le> j \<longrightarrow> workers s' j = workers ?s j"
      "\<forall>j. Suc k \<le> j \<and> j < Suc k + m \<longrightarrow> workers s' j = Some Returned"
      "caller s' = caller ?s" "m_hCompletePort s' = m_hCompletePort ?s" "closed s' = closed ?s" "m_hVecThread s' = m_hVecThread ?s"
    using Suc.IH [of ?s "Suc k"] Suc.prems by (auto simp: set_worker_def)
  ultimately have "(run_step is_exit)\<^sup>*\<^sup>* s s'" by (meson converse_rtranclp_into_rtranclp)
  moreover have "\<forall>j. j < k \<or> k + Suc m \<le> j \<longrightarrow> workers s' j = workers s j" using s'(3) by (auto simp: set_worker_def)
  moreover have "workers s' k = Some Returned" using s'(3) by (simp add: set_worker_def)
  then have "workers s' j = Some Returned" if "k \<le> j" "j < k + Suc m" for j using s'(4) that by (cases "j = k") auto
  ultimately show ?case using s'(2,5-8) by (auto simp: set_worker_def)
qed auto

text \<open>In the end thread 0 waits for a packet and the destruction for thread 0.\<close>

definition blocked :: "(nat \<Rightarrow> bool) \<Rightarrow> port \<Rightarrow> bool" where
  "blocked is_exit s \<longleftrightarrow> \<not> is_done s \<and> workers s 0 = Some Waiting \<and> (\<nexists>s'. run_step is_exit s s')"

lemma can_block:
  assumes inv: "port_inv s" and c: "caller s = Idle" and n: "MAXIMUM_WAIT_OBJECTS < next_thread s" and q: "queue s = []"
    and w: "\<forall>k < next_thread s. workers s k = Some Waiting"
  shows "\<exists>s'. (run_step is_exit)\<^sup>*\<^sup>* (DestroyCompletePort s) s' \<and> blocked is_exit s'"
proof -
  let ?d = "DestroyCompletePort s" and ?M = MAXIMUM_WAIT_OBJECTS
  have v: "m_hVecThread s = [0..<next_thread s]" "closed s = {}" "is_open (m_hCompletePort s)"
    using inv c n by (auto simp: port_inv_def threads_ok_def MAXIMUM_WAIT_OBJECTS_def)
  let ?s1 = "s\<lparr>caller := WaitBatch 0 (next_thread s) ?M, queue := replicate ?M exit_packet\<rparr>"
  have "destroy_batch 0 (next_thread s) ?d = Inr ?s1"
    using n v q by (simp add: destroy_batch_def post_exit_packets_open DestroyCompletePort_def Let_def)
  then have s1: "run_step is_exit ?d ?s1"
    by (intro run_step.begins_batch) (simp add: DestroyCompletePort_def v)
  obtain s2 where s2: "(run_step is_exit)\<^sup>*\<^sup>* ?s1 s2" "queue s2 = []" "workers s2 0 = Some Waiting"
      "\<forall>j. j < next_thread s \<longrightarrow> workers s2 j = Some Waiting \<or> workers s2 j = Some Returned"
      "\<forall>j. next_thread s \<le> j \<longrightarrow> workers s2 j = workers s j"
      "caller s2 = WaitBatch 0 (next_thread s) ?M" "m_hCompletePort s2 = m_hCompletePort s" "closed s2 = {}" "m_hVecThread s2 = m_hVecThread s"
  proof -
    from drain [of ?s1 ?M 1 is_exit] w n v obtain s2 where d: "(run_step is_exit)\<^sup>*\<^sup>* ?s1 s2" "queue s2 = []"
        "\<forall>j. j < 1 \<or> 1 + ?M \<le> j \<longrightarrow> workers s2 j = workers s j" "\<forall>j. 1 \<le> j \<and> j < 1 + ?M \<longrightarrow> workers s2 j = Some Returned"
        "caller s2 = WaitBatch 0 (next_thread s) ?M" "m_hCompletePort s2 = m_hCompletePort s" "closed s2 = closed s" "m_hVecThread s2 = m_hVecThread s"
      by auto
    have "workers s2 0 = Some Waiting" using d(3) w n by auto
    moreover have "workers s2 j = Some Waiting \<or> workers s2 j = Some Returned" if "j < next_thread s" for j
      using d(3,4) w that by (cases "j < 1 \<or> 1 + ?M \<le> j") (auto simp: not_le)
    moreover have "workers s2 j = workers s j" if "next_thread s \<le> j" for j using d(3) n that by simp
    ultimately show thesis using that d v by simp
  qed
  have dom: "workers s j = None" if "next_thread s \<le> j" for j
    using port_invD(4) [OF inv] that unfolding threads_ok_def by (metis leD)
  have "\<not> run_step is_exit s2 s'" for s'
  proof
    assume "run_step is_exit s2 s'"
    then show False
    proof cases
      case (takes k)
      then show False using s2(2,7) v(3) by (simp add: worker_take_def)
    next
      case (operates k a b)
      then show False using s2(4,5) dom by (metis leI option.distinct(1) option.inject worker.distinct(1,5))
    next
      case (has_waited i r w)
      then have "0 \<in> set (batch 0 ?M s2)" "i = 0" "w = ?M" using s2(6,9) v n by (auto simp: batch_def MAXIMUM_WAIT_OBJECTS_def)
      then show False using has_waited s2(3,8) by (auto simp: destroy_waited_def batch_over_def split: if_splits)
    qed (use s2(6) in simp)
  qed
  then have "blocked is_exit s2" using s2(3,6) by (simp add: blocked_def is_done_def)
  moreover have "(run_step is_exit)\<^sup>*\<^sup>* ?d s2" using s1 s2(1) by (meson converse_rtranclp_into_rtranclp)
  ultimately show ?thesis by blast
qed

end
