(* ===== verification/CompletionPortProperties.thy ===== *)
theory CompletionPortProperties
  imports CompletionPortEnd
begin

text \<open>
  The properties of the completion port: what has been posted is carried out once before the port is gone, its
  destruction returns with at most 64 threads, and with the threads that the program creates on a machine of 22
  or more processors it may not.
\<close>

section \<open>The threads that are created\<close>

lemma begin_loop_all:
  "(\<And>i. ok i) \<Longrightarrow> begin_loop n ok i b s = (b, s') \<Longrightarrow> next_thread s' = next_thread s + n \<and> queue s' = queue s \<and> caller s' = caller s
     \<and> (\<forall>k. next_thread s \<le> k \<and> k < next_thread s + n \<longrightarrow> workers s' k = Some Waiting)
     \<and> (\<forall>k. k < next_thread s \<longrightarrow> workers s' k = workers s k)"
proof (induction n arbitrary: i s)
  case (Suc n)
  have "next_thread s' = next_thread (begin_worker s) + n \<and> queue s' = queue (begin_worker s) \<and> caller s' = caller (begin_worker s)
     \<and> (\<forall>k. next_thread (begin_worker s) \<le> k \<and> k < next_thread (begin_worker s) + n \<longrightarrow> workers s' k = Some Waiting)
     \<and> (\<forall>k. k < next_thread (begin_worker s) \<longrightarrow> workers s' k = workers (begin_worker s) k)"
    by (rule Suc.IH [of "Suc i"]) (use Suc.prems in auto)
  moreover from this have "workers s' k = Some Waiting" if "next_thread s \<le> k" "k < next_thread s + Suc n" for k
    using that by (cases "k = next_thread s") (auto simp: begin_worker_def)
  ultimately show ?case by (auto simp: begin_worker_def)
qed auto

lemma begin_loop_keeps:
  "begin_loop n ok i b s = (b', s') \<Longrightarrow> m_hCompletePort s' = m_hCompletePort s \<and> caller s' = caller s"
proof (induction n ok i b s rule: begin_loop.induct)
  case (2 n ok i b s)
  then show ?case by (cases "ok i") (simp_all add: begin_worker_def)
qed simp

lemma begin_loop_result: "\<exists>s'. begin_loop n (\<lambda>_. True) i b s = (b, s')"
  by (induction n arbitrary: i s) auto

text \<open>The port of \<^verbatim>\<open>CThreadSocketRecevier\<close>: the constructor creates 20 threads, and the call of \<^verbatim>\<open>CreateCompletePort\<close>
  without an argument the number that fits the processors.\<close>

definition receiver_port :: "create_answers \<Rightarrow> create_answers \<Rightarrow> port" where
  "receiver_port ans ans' = snd (CreateCompletePort ans' 0 (CIOCompletePort ans))"

definition good_answers :: "dword \<Rightarrow> create_answers" where
  "good_answers p = \<lparr>port_ok = True, processors = p, begins = \<lambda>_. True\<rparr>"

lemma receiver_threads:
  assumes "unat p < 2 ^ 30" and "ans = good_answers p"
  shows "next_thread (receiver_port ans ans) = 22 + 2 * unat p \<and> queue (receiver_port ans ans) = [] \<and> caller (receiver_port ans ans) = Idle
    \<and> (\<forall>k < next_thread (receiver_port ans ans). workers (receiver_port ans ans) k = Some Waiting)"
proof -
  let ?s0 = "port_zero\<lparr>m_hCompletePort := OpenPort, m_nThreadCount := 20\<rparr>"
  obtain s1 where s1: "begin_loop 20 (\<lambda>_. True) 0 True ?s0 = (True, s1)" using begin_loop_result [of 20 0 True ?s0] by auto
  have z: "m_hCompletePort port_zero = InvalidPort" by (simp add: port_zero_def)
  have "CreateCompletePort ans 20 port_zero = begin_loop 20 (\<lambda>_. True) 0 True ?s0"
    by (simp add: CreateCompletePort_def z Let_def) (simp add: assms(2) good_answers_def)
  then have c: "CIOCompletePort ans = s1" using s1 by (simp add: CIOCompletePort_def)
  have f1: "next_thread s1 = 20" "queue s1 = []" "caller s1 = Idle" "\<forall>k < 20. workers s1 k = Some Waiting"
    using begin_loop_all [OF _ s1] by (simp_all add: port_zero_def)
  have o: "m_hCompletePort s1 = OpenPort" using begin_loop_keeps [OF s1] by simp
  have u: "unat (p * 2 + 2) = 2 * unat p + 2"
    using assms(1) by (simp add: unat_word_ariths)
  let ?s2 = "s1\<lparr>m_nThreadCount := sint (p * 2 + 2)\<rparr>"
  obtain s3 where s3: "begin_loop (2 * unat p + 2) (\<lambda>_. True) 0 True ?s2 = (True, s3)" using begin_loop_result [of "2 * unat p + 2" 0 True ?s2] by auto
  have "receiver_port ans ans = s3" using s3 o u
    by (simp add: receiver_port_def c CreateCompletePort_def Let_def) (simp add: assms(2) good_answers_def)
  moreover have "next_thread s3 = 22 + 2 * unat p \<and> queue s3 = [] \<and> caller s3 = Idle \<and> (\<forall>k < next_thread s3. workers s3 k = Some Waiting)"
    using begin_loop_all [OF _ s3] f1 by (auto simp: not_less [symmetric])
  ultimately show ?thesis by simp
qed

lemma receiver_reachable: "(port_step is_exit)\<^sup>*\<^sup>* port_zero (receiver_port ans ans')"
proof -
  have i: "caller (CIOCompletePort ans) = Idle"
    using begin_loop_keeps [of 20 "begins ans" 0 True "port_zero\<lparr>m_hCompletePort := OpenPort, m_nThreadCount := 20\<rparr>"]
    by (cases "begin_loop 20 (begins ans) 0 True (port_zero\<lparr>m_hCompletePort := OpenPort, m_nThreadCount := 20\<rparr>)")
      (simp add: CIOCompletePort_def CreateCompletePort_def Let_def port_zero_def)
  have "port_step is_exit port_zero (CIOCompletePort ans)" unfolding CIOCompletePort_def
    by (rule port_step.creates [of _ ans 20 "fst (CreateCompletePort ans 20 port_zero)"]) (simp_all add: port_zero_def)
  moreover have "port_step is_exit (CIOCompletePort ans) (receiver_port ans ans')" unfolding receiver_port_def
    by (rule port_step.creates [of _ ans' 0 "fst (CreateCompletePort ans' 0 (CIOCompletePort ans))", OF i]) simp
  ultimately show ?thesis by (meson converse_rtranclp_into_rtranclp rtranclp.rtrancl_refl)
qed

section \<open>Properties\<close>

text \<open>C11: every operation that was posted before the destruction of the port began is carried out once and deleted
  before the destruction returns, if there is a thread and no operation asks a thread to end; operations that are
  posted meanwhile, also by operations, do not change that.\<close>

theorem posted_operations_carried_out:
  assumes "(port_step (\<lambda>_. False))\<^sup>*\<^sup>* port_zero s0" and "caller s0 = Idle" and "0 < next_thread s0"
    and "(port_step (\<lambda>_. False))\<^sup>*\<^sup>* (DestroyCompletePort s0) s" and "caller s = Done b"
  shows "pending s0 \<subseteq> set (carried_out s) \<and> distinct (carried_out s) \<and> (\<forall>a \<in> pending s0. operations s a = None)"
proof -
  have i0: "port_inv s0" using port_reachable [OF assms(1) port_zero_inv] .
  have r0: "all_running s0" using reachable_running [OF assms(1) port_zero_inv] by (simp add: all_running_def port_zero_def)
  have o: "is_open (m_hCompletePort s0)" "no_exits (queue s0)" using port_invD(5) [OF i0] assms(2,3) by auto
  have "due (pending s0) (DestroyCompletePort s0)"
    by (rule due_destroy [OF i0 assms(2) o(1)]) (use r0 assms(2) o(2) in \<open>auto simp: all_running_def no_exits_def\<close>)
  moreover have d: "port_inv (DestroyCompletePort s0)" using port_step_inv [OF port_step.destroys [OF assms(2)] i0] .
  moreover have "caller (DestroyCompletePort s0) \<noteq> Idle" by (simp add: DestroyCompletePort_def)
  ultimately have "due (pending s0) s \<and> port_inv s" using due_reachable [OF assms(4)] by blast
  moreover have "0 < next_thread s" using thread_count [OF assms(4) d] assms(3) by (simp add: DestroyCompletePort_def)
  moreover have "is_done s" using assms(5) by (simp add: is_done_def)
  ultimately have "pending s0 \<subseteq> set (carried_out s)" "port_inv s" using due_done by auto
  then show ?thesis by (auto simp: port_inv_def operations_ok_def)
qed

text \<open>C12: with at most 64 threads the destruction of a port returns: no run of the workers and the destruction goes on
  forever, and each one that cannot go on has ended with the return.\<close>

theorem destruction_returns:
  assumes "(port_step is_exit)\<^sup>*\<^sup>* port_zero s0" and "caller s0 = Idle" and "next_thread s0 \<le> 64"
  shows "(\<forall>f. f 0 = DestroyCompletePort s0 \<longrightarrow> (\<exists>i. \<not> run_step is_exit (f i) (f (Suc i))))
    \<and> (\<forall>s. (run_step is_exit)\<^sup>*\<^sup>* (DestroyCompletePort s0) s \<and> (\<nexists>s'. run_step is_exit s s') \<longrightarrow> (\<exists>b. caller s = Done b))
    \<and> (\<exists>s b. (run_step is_exit)\<^sup>*\<^sup>* (DestroyCompletePort s0) s \<and> caller s = Done b)"
proof -
  have "shutting_down (DestroyCompletePort s0)"
    using destroy_shutting_down [OF port_reachable [OF assms(1) port_zero_inv] _ assms(2)] assms(3) by (simp add: MAXIMUM_WAIT_OBJECTS_def)
  from shutdown.no_endless_run shutdown.run_ends [OF this] shutdown.can_end [OF this] this show ?thesis
    unfolding is_done_def by metis
qed

text \<open>On a machine with 22 or more processors the two calls that create the threads of a port of the receiver create
  more than 64, and the destruction of the port can wait forever, for a thread that waits for a packet.\<close>

theorem destruction_can_block:
  assumes "22 \<le> unat p" and "unat p < 2 ^ 30"
  shows "\<exists>s. (run_step is_exit)\<^sup>*\<^sup>* (DestroyCompletePort (receiver_port (good_answers p) (good_answers p))) s \<and> blocked is_exit s"
proof -
  have "port_inv (receiver_port (good_answers p) (good_answers p))" using port_reachable [OF receiver_reachable port_zero_inv] .
  moreover note receiver_threads [OF assms(2) refl]
  ultimately show ?thesis using can_block assms(1) by (simp add: MAXIMUM_WAIT_OBJECTS_def)
qed

theorem destruction_can_block_witness:
  "\<exists>s. (run_step (\<lambda>_. False))\<^sup>*\<^sup>* (DestroyCompletePort (receiver_port (good_answers 24) (good_answers 24))) s \<and> blocked (\<lambda>_. False) s"
  by (rule destruction_can_block) simp_all

theorem destruction_returns_witness:
  "\<exists>s b. (run_step (\<lambda>_. False))\<^sup>*\<^sup>* (DestroyCompletePort (receiver_port (good_answers 4) (good_answers 4))) s \<and> caller s = Done b"
  using destruction_returns [OF receiver_reachable [of _ "good_answers 4" "good_answers 4"]] receiver_threads [of 4, OF _ refl] by simp

text \<open>One operation is posted to a port with one thread, which is destroyed.\<close>

definition port1 :: port where "port1 = snd (CreateCompletePort (good_answers 1) 1 port_zero)"
definition port2 :: port where "port2 = port1\<lparr>operations := [0 \<mapsto> Heap], next_operation := 1\<rparr>"
definition port3 :: port where "port3 = snd (IOCompletePortPost True 0 (Some 0) port2)"

lemmas port_defs = port3_def port2_def port1_def IOCompletePortPost_eq CreateCompletePort_def good_answers_def port_zero_def Let_def
  begin_worker_def is_open_def

lemma exit_not_zero: "0 \<noteq> IOCOMPLETEPORT_EXIT"
  by (simp add: IOCOMPLETEPORT_EXIT_def)

lemma port3: "(port_step (\<lambda>_. False))\<^sup>*\<^sup>* port_zero port3"
proof -
  have "port_step (\<lambda>_. False) port_zero port1"
    unfolding port1_def by (rule port_step.creates [of _ "good_answers 1" 1 "True"]) (simp_all add: port_defs)
  moreover have "port2 = port1\<lparr>operations := (operations port1)(next_operation port1 \<mapsto> Heap), next_operation := Suc (next_operation port1)\<rparr>"
    by (simp add: port_defs)
  then have "port_step (\<lambda>_. False) port1 port2" using port_step.allocates by metis
  moreover have "port_step (\<lambda>_. False) port2 port3"
    by (rule port_step.posts [of _ 0 0 True True]) (simp_all add: port_defs pending_def operating_def exit_not_zero)
  ultimately show ?thesis by (meson converse_rtranclp_into_rtranclp rtranclp.rtrancl_refl)
qed

lemma run_port_steps: "(run_step is_exit)\<^sup>*\<^sup>* s s' \<Longrightarrow> (port_step is_exit)\<^sup>*\<^sup>* s s'"
  by (induction rule: rtranclp_induct) (auto intro: port_step.runs rtranclp.rtrancl_into_rtrancl)

theorem posted_operations_carried_out_witness:
  "\<exists>s. (port_step (\<lambda>_. False))\<^sup>*\<^sup>* (DestroyCompletePort port3) s \<and> 0 \<in> set (carried_out s) \<and> operations s 0 = None"
proof -
  have p: "caller port3 = Idle" "next_thread port3 = 1" "0 \<in> pending port3" by (simp_all add: port_defs pending_def)
  have "shutting_down (DestroyCompletePort port3)"
    using destroy_shutting_down [OF port_reachable [OF port3 port_zero_inv]] p(1,2) by (simp add: MAXIMUM_WAIT_OBJECTS_def)
  from shutdown.can_end [where is_exit = "\<lambda>_. False", OF this] obtain s b where s: "(run_step (\<lambda>_. False))\<^sup>*\<^sup>* (DestroyCompletePort port3) s" "caller s = Done b"
    by (auto simp: is_done_def)
  with posted_operations_carried_out [OF port3 p(1) _ run_port_steps [OF s(1)] s(2)] p show ?thesis
    using run_port_steps by fastforce
qed

end
