(* ===== verification/Receiver.thy ===== *)
theory Receiver
  imports CompletionPortProperties TcpStream
begin

text \<open>
  The receiver of the application, \<^verbatim>\<open>VerifyServer/ThreadSocketRecevier.cpp\<close>, with the operation it posts,
  \<^verbatim>\<open>StringIOCompletePortOverlapped.cpp\<close>: it reads what the TCP server hands over as wide text and posts an
  operation on it to one of two completion ports.
\<close>

section \<open>The operation\<close>

text \<open>\<open>so_entity\<close> is \<^verbatim>\<open>m_pAppEntity != NULL\<close>; \<open>RecevieData\<close> of the application does nothing with the text.\<close>

record string_operation =
  so_string :: "wchar list"
  so_socket :: dword
  so_entity :: bool

definition CStringIOCompletePortOverlapped :: "bool \<Rightarrow> string_operation" where
  "CStringIOCompletePortOverlapped pShareData = \<lparr>so_string = [], so_socket = 0, so_entity = pShareData\<rparr>"

definition Update :: "dword \<Rightarrow> wchar list \<Rightarrow> string_operation \<Rightarrow> string_operation" where
  "Update nsocket str p = p\<lparr>so_socket := nsocket, so_string := str\<rparr>"

definition RecevieData :: "dword \<Rightarrow> wchar list \<Rightarrow> int" where
  "RecevieData i text_data = -1"

definition OverLappedOparete :: "string_operation \<Rightarrow> int option" where
  "OverLappedOparete p = (if so_entity p then Some (RecevieData (so_socket p) (so_string p)) else None)"

definition IsExit :: "string_operation \<Rightarrow> bool" where
  "IsExit p = False"

text \<open>\<open>pp\<close> is the other operation, if the cast finds that it is of this class.\<close>

definition string_Copy :: "string_operation option \<Rightarrow> string_operation \<Rightarrow> bool \<times> string_operation" where
  "string_Copy pp p =
     (case pp of None \<Rightarrow> (False, p)
      | Some q \<Rightarrow> (True, p\<lparr>so_string := so_string q, so_socket := so_socket q\<rparr>))"

section \<open>The receiver\<close>

definition nPortCount :: int where "nPortCount = 2"

text \<open>
  \<open>rv_entity\<close> is \<^verbatim>\<open>m_pShareData != NULL\<close>; \<open>rv_contents\<close> has the contents of the operations by port and number.
\<close>

record receiver =
  rv_entity :: bool
  rv_ports :: "port list"
  m_nCurPort :: int
  rv_contents :: "nat \<times> nat \<Rightarrow> string_operation option"
  m_listOverLapped :: "nat list"

definition CThreadSocketRecevier :: "(nat \<Rightarrow> create_answers) \<Rightarrow> (nat \<Rightarrow> create_answers) \<Rightarrow> bool \<Rightarrow> receiver" where
  "CThreadSocketRecevier ans ans' pShareData =
     \<lparr>rv_entity = pShareData, rv_ports = map (\<lambda>i. receiver_port (ans i) (ans' i)) [0..<nat nPortCount], m_nCurPort = 0,
      rv_contents = Map.empty, m_listOverLapped = []\<rparr>"

text \<open>A wide text is read up to its zero, wherever that is.\<close>

fun wide_string :: "byte list \<Rightarrow> wchar list res" where
  "wide_string (lo # hi # bs) =
     (let c = push_bit 8 (ucast hi) OR ucast lo in
      if c = 0 then Inr [] else rbind (wide_string bs) (\<lambda>cs. Inr (c # cs)))"
| "wide_string bs = Inl OutOfBounds"

text \<open>
  \<^verbatim>\<open>Recevie\<close> up to the posting: \<open>blk\<close> is the block that \<^verbatim>\<open>rev_buf\<close> points to. The operation is a local object of
  the function; the result names its port and number. Then the change of the port, inside the lock, and the
  return, after which the local object is gone.
\<close>

definition Recevie_post :: "bool \<Rightarrow> dword \<Rightarrow> byte list \<Rightarrow> receiver \<Rightarrow> (receiver \<times> (nat \<times> nat) option) res" where
  "Recevie_post post_ok uSokcetID blk r =
     (if rv_entity r
      then rbind (wide_string blk) (\<lambda>strData.
        let i = nat (m_nCurPort r); s = rv_ports r ! i; p = next_operation s;
            s = s\<lparr>operations := (operations s)(p \<mapsto> Stack), next_operation := Suc p\<rparr>;
            content = Update uSokcetID strData (CStringIOCompletePortOverlapped (rv_entity r));
            s = snd (IOCompletePortPost post_ok 0 (Some p) s) in
        Inr (r\<lparr>rv_ports := (rv_ports r)[i := s], rv_contents := (rv_contents r)((i, p) \<mapsto> content)\<rparr>, Some (i, p)))
      else Inr (r, None))"

definition Recevie_next :: "receiver \<Rightarrow> receiver" where
  "Recevie_next r = r\<lparr>m_nCurPort := if m_nCurPort r < nPortCount - 1 then m_nCurPort r + 1 else 0\<rparr>"

definition frame_gone :: "nat \<Rightarrow> port \<Rightarrow> port" where
  "frame_gone p s = s\<lparr>operations := (operations s)(p := None)\<rparr>"

definition Recevie_return :: "(nat \<times> nat) option \<Rightarrow> receiver \<Rightarrow> receiver" where
  "Recevie_return local_object r =
     (case local_object of None \<Rightarrow> r
      | Some (i, p) \<Rightarrow> r\<lparr>rv_ports := (rv_ports r)[i := frame_gone p (rv_ports r ! i)], rv_contents := (rv_contents r)((i, p) := None)\<rparr>)"

definition Recevie :: "bool \<Rightarrow> dword \<Rightarrow> byte list \<Rightarrow> receiver \<Rightarrow> receiver res" where
  "Recevie post_ok uSokcetID blk r =
     rbind (Recevie_post post_ok uSokcetID blk r) (\<lambda>(r, local_object).
     Inr (Recevie_return local_object (if rv_entity r then Recevie_next r else r)))"

text \<open>Private functions that nothing calls. The front of an empty list is read without a test.\<close>

definition getOverlapped :: "receiver \<Rightarrow> nat res" where
  "getOverlapped r = (case m_listOverLapped r of [] \<Rightarrow> Inl OutOfBounds | p # _ \<Rightarrow> Inr p)"

definition receiver_RemoveOverlapped :: "nat \<Rightarrow> receiver \<Rightarrow> receiver" where
  "receiver_RemoveOverlapped p r = r\<lparr>m_listOverLapped := removeAll p (m_listOverLapped r)\<rparr>"

definition PushOverlapped :: "nat \<Rightarrow> receiver \<Rightarrow> receiver" where
  "PushOverlapped p r = r\<lparr>m_listOverLapped := m_listOverLapped r @ [p]\<rparr>"

section \<open>The ports in turn\<close>

definition receiver_ok :: "receiver \<Rightarrow> bool" where
  "receiver_ok r \<longleftrightarrow> rv_entity r \<and> length (rv_ports r) = 2 \<and> 0 \<le> m_nCurPort r \<and> m_nCurPort r < nPortCount"

lemma constructor_ok: "receiver_ok (CThreadSocketRecevier ans ans' True)"
  by (simp add: receiver_ok_def CThreadSocketRecevier_def nPortCount_def)

lemma Recevie_ok:
  assumes "receiver_ok r" and "Recevie post_ok i blk r = Inr r'"
  shows "receiver_ok r' \<and> m_nCurPort r' = 1 - m_nCurPort r"
  using assms
  by (auto simp: receiver_ok_def Recevie_def Recevie_post_def Recevie_return_def Recevie_next_def nPortCount_def rbind_eq_Inr Let_def)

section \<open>Texts of the server\<close>

text \<open>A block has a wide text only if two bytes at an even place are zero.\<close>

lemma wide_string_bounds: "wide_string bs = Inr cs \<Longrightarrow> \<exists>i. Suc (2 * i) < length bs \<and> bs ! (2 * i) = 0 \<and> bs ! Suc (2 * i) = 0"
proof (induction bs arbitrary: cs rule: wide_string.induct)
  case (1 lo hi bs)
  show ?case
  proof (cases "push_bit 8 (ucast hi) OR ucast lo = (0 :: wchar)")
    case True
    have "lo = 0 \<and> hi = 0"
    proof -
      have "bit (push_bit 8 (ucast hi) OR ucast lo :: wchar) n = False" for n using True by simp
      then have n: "\<not> bit (ucast lo :: wchar) n \<and> \<not> bit (push_bit 8 (ucast hi) :: wchar) n" for n by (metis bit_or_iff)
      have "\<not> bit lo n" for n using n [of n] by (cases "n < 8") (auto simp: bit_simps dest: bit_imp_le_length)
      moreover have "\<not> bit hi n" for n using n [of "n + 8"] by (cases "n < 8") (auto simp: bit_simps dest: bit_imp_le_length)
      ultimately show ?thesis by (simp add: bit_eq_iff)
    qed
    then show ?thesis by (intro exI [of _ 0]) simp
  next
    case False
    then obtain ds where "wide_string bs = Inr ds" using 1(2) by (auto simp: Let_def rbind_eq_Inr)
    from 1(1) [OF refl False this] obtain i where "Suc (2 * i) < length bs" "bs ! (2 * i) = 0" "bs ! Suc (2 * i) = 0" by blast
    then show ?thesis by (intro exI [of _ "Suc i"]) simp
  qed
qed auto

lemma text_has_no_wide_end:
  assumes "0 \<notin> set data"
  shows "wide_string (data @ [0]) = Inl OutOfBounds"
proof (cases "wide_string (data @ [0])")
  case (Inl e)
  moreover have "wide_string bs = Inl e \<Longrightarrow> e = OutOfBounds" for bs
    by (induction bs rule: wide_string.induct) (auto simp: Let_def rbind_def split: if_splits sum.splits)
  ultimately show ?thesis by blast
next
  case (Inr cs)
  from wide_string_bounds [OF this] obtain i where "Suc (2 * i) < Suc (length data)" "(data @ [0]) ! (2 * i) = 0" by auto
  then have "data ! (2 * i) = 0" "2 * i < length data" by (simp_all add: nth_append)
  then show ?thesis using assms nth_mem by metis
qed

section \<open>The local operation\<close>

text \<open>What may happen to a port while \<^verbatim>\<open>Recevie\<close> returns.\<close>

definition frame_step :: "nat \<Rightarrow> port \<Rightarrow> port \<Rightarrow> bool" where
  "frame_step p s s' \<longleftrightarrow> port_step (\<lambda>_. False) s s' \<or> s' = frame_gone p s"

definition not_heap :: "nat \<Rightarrow> port \<Rightarrow> bool" where
  "not_heap p s \<longleftrightarrow> operations s p \<noteq> Some Heap \<and> p < next_operation s"

lemma begin_loop_operations: "begin_loop n ok i b s = (b', s') \<Longrightarrow> operations s' = operations s \<and> next_operation s' = next_operation s"
proof (induction n ok i b s rule: begin_loop.induct)
  case (2 n ok i b s)
  then show ?case by (cases "ok i") (simp_all add: begin_worker_def)
qed simp

lemma create_operations: "CreateCompletePort ans n s = (b, s') \<Longrightarrow> operations s' = operations s \<and> next_operation s' = next_operation s"
  using begin_loop_operations by (fastforce simp: CreateCompletePort_def Let_def split: if_splits)

text \<open>No object becomes one of the heap, and no number is given again.\<close>

definition shrinks :: "port \<Rightarrow> port \<Rightarrow> bool" where
  "shrinks s s' \<longleftrightarrow> (\<forall>a. operations s' a = Some Heap \<longrightarrow> operations s a = Some Heap) \<and> next_operation s' = next_operation s"

lemma shrinks_same: "operations s' = operations s \<Longrightarrow> next_operation s' = next_operation s \<Longrightarrow> shrinks s s'"
  by (simp add: shrinks_def)

lemma shrinks_trans: "shrinks s1 s2 \<Longrightarrow> shrinks s2 s3 \<Longrightarrow> shrinks s1 s3"
  by (simp add: shrinks_def)

lemma delete_shrinks: "delete_operation p s = Inr s' \<Longrightarrow> shrinks s s'"
  by (auto simp: shrinks_def delete_operation_def split: option.splits storage.splits if_splits)

lemma ClearOverlappedList_shrinks: "ClearOverlappedList ps s = Inr s' \<Longrightarrow> shrinks s s'"
proof (induction ps arbitrary: s)
  case (Cons p ps)
  then obtain s1 where "delete_operation p s = Inr s1" "ClearOverlappedList ps s1 = Inr s'" by (auto simp: rbind_eq_Inr)
  then show ?case using Cons.IH delete_shrinks shrinks_trans by blast
qed (simp add: shrinks_same)

lemma post_exit_packets_operations: "operations (post_exit_packets n s) = operations s \<and> next_operation (post_exit_packets n s) = next_operation s"
  by (cases "is_open (m_hCompletePort s)") (simp_all add: post_exit_packets_open post_exit_packets_closed)

lemma run_shrinks:
  assumes "run_step is_exit s s'"
  shows "shrinks s s'"
  using assms
proof cases
  case (takes k)
  then show ?thesis
    by (intro shrinks_same)
      (auto simp: worker_take_def set_worker_def Let_def split: if_splits list.splits ol_ptr.splits option.splits)
next
  case (operates k c b)
  then obtain s1 where "delete_operation c (s\<lparr>carried_out := carried_out s @ [c]\<rparr>) = Inr s1" "operations s' = operations s1"
      "next_operation s' = next_operation s1"
    by (auto simp: worker_operate_def set_worker_def Let_def rbind_eq_Inr split: if_splits)
  then show ?thesis using delete_shrinks [of c "s\<lparr>carried_out := carried_out s @ [c]\<rparr>" s1] by (simp add: shrinks_def)
next
  case (begins_batch i r)
  show ?thesis
  proof (cases "r > 0")
    case True
    then have "s' = (post_exit_packets (min r MAXIMUM_WAIT_OBJECTS) s)\<lparr>caller := WaitBatch i r (min r MAXIMUM_WAIT_OBJECTS)\<rparr>"
      using begins_batch(2) by (simp add: destroy_batch_def Let_def)
    then show ?thesis using post_exit_packets_operations by (simp add: shrinks_same)
  next
    case False
    let ?s1 = "if is_open (m_hCompletePort s) then s\<lparr>m_hCompletePort := NullPort\<rparr> else s"
    from False begins_batch(2) have "destroy_end s = Inr s'" by (simp add: destroy_batch_def)
    then obtain s2 where "ClearOverlappedList (m_listOverlapped ?s1) ?s1 = Inr s2" "operations s' = operations s2"
        "next_operation s' = next_operation s2"
      unfolding destroy_end_def Let_def rbind_eq_Inr by auto
    then show ?thesis using ClearOverlappedList_shrinks [of _ ?s1 s2] by (simp add: shrinks_def split: if_splits)
  qed
next
  case (has_waited i r w)
  then show ?thesis by (auto simp: destroy_waited_def shrinks_same split: if_splits)
qed

lemma port_not_heap:
  assumes "not_heap p s" and "port_step is_exit s s'"
  shows "not_heap p s'"
  using assms(2)
proof cases
  case runs
  then show ?thesis using run_shrinks [OF runs] assms(1) by (auto simp: not_heap_def shrinks_def)
next
  case (creates ans n b)
  then show ?thesis using create_operations assms(1) by (simp add: not_heap_def)
next
  case (frees a)
  then show ?thesis using delete_shrinks [OF frees(3)] assms(1) by (auto simp: not_heap_def shrinks_def)
qed (use assms(1) in \<open>auto simp: not_heap_def IOCompletePortPost_eq DestroyCompletePort_def split: if_splits\<close>)

lemma frame_not_heap: "(frame_step p)\<^sup>*\<^sup>* s s' \<Longrightarrow> not_heap p s \<Longrightarrow> not_heap p s'"
  by (induction rule: rtranclp_induct) (auto simp: frame_step_def intro: port_not_heap, simp add: not_heap_def frame_gone_def)

lemma operate_not_heap: "not_heap p s \<Longrightarrow> worker_operate is_exit k p b s = Inl UseAfterFree \<or> worker_operate is_exit k p b s = Inl InvalidFree"
  by (auto simp: not_heap_def worker_operate_def delete_operation_def Let_def split: option.splits storage.splits)

section \<open>Properties\<close>

text \<open>A text that comes off the wire and has no zero byte is read past the block in which the server hands it over:
  the block ends with one zero byte, and a wide text with two.\<close>

theorem delivered_text_overruns:
  assumes "rv_entity r" and "0 \<notin> set data"
  shows "Recevie post_ok i (fst (delivery_of wide_len data)) r = Inl OutOfBounds"
  using assms text_has_no_wide_end by (simp add: Recevie_def Recevie_post_def delivery_of_def)

text \<open>The operation that \<^verbatim>\<open>Recevie\<close> posts is never carried out and deleted properly: whatever happens to the port
  until a worker has it, also if \<^verbatim>\<open>Recevie\<close> has not returned, the worker frees an object that is not from the heap, or
  uses one that is gone.\<close>

theorem local_operation_faults:
  assumes "receiver_ok r" and "Recevie_post True i blk r = Inr (r', Some (j, p))"
    and "(frame_step p)\<^sup>*\<^sup>* (rv_ports r' ! j) s" and "workers s k = Some (Operating p b)"
  shows "worker_operate (\<lambda>_. False) k p b s = Inl UseAfterFree \<or> worker_operate (\<lambda>_. False) k p b s = Inl InvalidFree"
proof -
  from assms(1,2) have "rv_ports r' ! j = snd (IOCompletePortPost True 0 (Some p)
      ((rv_ports r ! j)\<lparr>operations := (operations (rv_ports r ! j))(p \<mapsto> Stack), next_operation := Suc p\<rparr>))"
    by (auto simp: receiver_ok_def Recevie_post_def rbind_eq_Inr Let_def nPortCount_def nth_list_update)
  then have "not_heap p (rv_ports r' ! j)" by (simp add: not_heap_def IOCompletePortPost_eq)
  then show ?thesis using operate_not_heap frame_not_heap [OF assms(3)] by blast
qed

text \<open>A receiver with one thread for each port, and the text A.\<close>

definition receiver1 :: receiver where
  "receiver1 = \<lparr>rv_entity = True, rv_ports = [port1, port1], m_nCurPort = 0, rv_contents = Map.empty, m_listOverLapped = []\<rparr>"

definition port4 :: port where
  "port4 = port1\<lparr>operations := [0 \<mapsto> Stack], next_operation := 1, queue := [\<lparr>p_bytes = 0, p_ol = OlOf (Some 0)\<rparr>]\<rparr>"

definition port5 :: port where "port5 = set_worker 0 (Operating 0 0) (port4\<lparr>queue := []\<rparr>)"

theorem delivered_text_overruns_witness:
  "Recevie True 5 (fst (delivery_of (\<lambda>_. 3) [65, 66])) receiver1 = Inl OutOfBounds"
  by (rule delivered_text_overruns) (simp_all add: receiver1_def)

theorem local_operation_faults_witness:
  "worker_operate (\<lambda>_. False) 0 0 0 (frame_gone 0 port5) = Inl UseAfterFree"
proof -
  have p: "m_hCompletePort port1 = OpenPort" "queue port1 = []" "next_operation port1 = 0" "workers port1 0 = Some Waiting"
    "operations port1 = Map.empty"
    by (simp_all add: port_defs)
  have "\<exists>r'. Recevie_post True 5 [65, 0, 0, 0] receiver1 = Inr (r', Some (0, 0)) \<and> rv_ports r' ! 0 = port4"
    by (simp add: Recevie_post_def receiver1_def Let_def IOCompletePortPost_eq is_open_def p port4_def)
  then obtain r' where r': "Recevie_post True 5 [65, 0, 0, 0] receiver1 = Inr (r', Some (0, 0))" "rv_ports r' ! 0 = port4" by blast
  have "worker_take 0 port4 = Some port5" by (simp add: worker_take_def port4_def port5_def p is_open_def)
  moreover have "workers port4 0 = Some Waiting" by (simp add: port4_def p)
  ultimately have "port_step (\<lambda>_. False) port4 port5" by (intro port_step.runs run_step.takes)
  then have "frame_step 0 port4 port5" "frame_step 0 port5 (frame_gone 0 port5)" by (simp_all add: frame_step_def)
  then have "(frame_step 0)\<^sup>*\<^sup>* (rv_ports r' ! 0) (frame_gone 0 port5)" using r'(2) by (simp add: rtranclp.rtrancl_into_rtrancl)
  moreover have "receiver_ok receiver1" by (simp add: receiver_ok_def receiver1_def nPortCount_def)
  moreover have "workers (frame_gone 0 port5) 0 = Some (Operating 0 0)" by (simp add: frame_gone_def port5_def set_worker_def)
  ultimately have "worker_operate (\<lambda>_. False) 0 0 0 (frame_gone 0 port5) = Inl UseAfterFree
      \<or> worker_operate (\<lambda>_. False) 0 0 0 (frame_gone 0 port5) = Inl InvalidFree"
    using local_operation_faults r'(1) by blast
  moreover have "operations (frame_gone 0 port5) 0 = None" by (simp add: frame_gone_def)
  ultimately show ?thesis by (simp add: worker_operate_def)
qed

end
