(* ===== verification/Service.thy ===== *)
theory Service
  imports Prelude
begin

text \<open>
  The Windows service, \<^verbatim>\<open>VerifyServer/Service.cpp\<close>: the status that it reports, its main function, its working
  thread and the handler of controls, which run in three threads and share global variables.
\<close>

section \<open>The status\<close>

record service_status =
  dwServiceType :: dword
  dwCurrentState :: dword
  dwControlsAccepted :: dword
  dwWin32ExitCode :: dword
  dwServiceSpecificExitCode :: dword
  dwCheckPoint :: dword
  dwWaitHint :: dword

definition SERVICE_STOPPED :: dword where "SERVICE_STOPPED = 1"
definition SERVICE_START_PENDING :: dword where "SERVICE_START_PENDING = 2"
definition SERVICE_STOP_PENDING :: dword where "SERVICE_STOP_PENDING = 3"
definition SERVICE_RUNNING :: dword where "SERVICE_RUNNING = 4"
definition SERVICE_ACCEPT_STOP :: dword where "SERVICE_ACCEPT_STOP = 1"
definition SERVICE_CONTROL_STOP :: dword where "SERVICE_CONTROL_STOP = 1"
definition SERVICE_CONTROL_INTERROGATE :: dword where "SERVICE_CONTROL_INTERROGATE = 4"
definition SERVICE_WIN32 :: dword where "SERVICE_WIN32 = 0x30"
definition SERVICE_INTERACTIVE_PROCESS :: dword where "SERVICE_INTERACTIVE_PROCESS = 0x100"
definition NO_ERROR :: dword where "NO_ERROR = 0"

lemmas service_consts = SERVICE_STOPPED_def SERVICE_START_PENDING_def SERVICE_STOP_PENDING_def SERVICE_RUNNING_def
  SERVICE_ACCEPT_STOP_def SERVICE_CONTROL_STOP_def SERVICE_CONTROL_INTERROGATE_def NO_ERROR_def

text \<open>
  Where the threads are. The main function has not begun, goes on after its first report, or has returned. The
  working thread does not exist, is at its start, has saved its number, is in \<^verbatim>\<open>WinAppMain\<close>, has cleared the
  number, or has ended. The handler is idle, before \<^verbatim>\<open>ServiceStop\<close>, before it reads the state that it is going
  to report, or about to report that state.
\<close>

datatype main_pos = MainIdle | MainPending | MainReturned
datatype work_pos = NoWork | WorkStart | WorkSaved | WorkRunning | WorkCleared | WorkEnded
datatype ctrl_pos = CtrlIdle | CtrlStop | CtrlRead | CtrlReport dword

text \<open>
  The globals, the static \<^verbatim>\<open>checkpoint\<close>, the statuses that the service control manager has accepted, the threads
  to which \<^verbatim>\<open>WM_QUIT\<close> was posted, and the messages of \<^verbatim>\<open>LogErrorMsg\<close>.
\<close>

record service =
  g_srvstatus :: service_status
  g_hstatus :: dword
  g_error :: dword
  g_servicethread :: dword
  checkpoint :: dword
  reported :: "service_status list"
  quits :: "dword list"
  logged :: nat
  main_at :: main_pos
  work_at :: work_pos
  ctrl_at :: ctrl_pos

definition service_zero :: service where
  "service_zero = \<lparr>g_srvstatus = \<lparr>dwServiceType = 0, dwCurrentState = 0, dwControlsAccepted = 0, dwWin32ExitCode = 0,
       dwServiceSpecificExitCode = 0, dwCheckPoint = 0, dwWaitHint = 0\<rparr>,
     g_hstatus = 0, g_error = 0, g_servicethread = 0, checkpoint = 1, reported = [], quits = [], logged = 0,
     main_at = MainIdle, work_at = NoWork, ctrl_at = CtrlIdle\<rparr>"

section \<open>Reporting\<close>

definition LogErrorMsg :: "dword \<Rightarrow> service \<Rightarrow> service" where
  "LogErrorMsg last_error w = w\<lparr>g_error := last_error, logged := Suc (logged w)\<rparr>"

text \<open>
  \<open>ans\<close> is the answer of \<^verbatim>\<open>SetServiceStatus\<close>: \<^term>\<open>None\<close>, or the error.
\<close>

definition ReportStatus :: "dword option \<Rightarrow> dword \<Rightarrow> dword \<Rightarrow> dword \<Rightarrow> service \<Rightarrow> bool \<times> service" where
  "ReportStatus ans st exitcode waithint w =
     (let s = g_srvstatus w;
          s = s\<lparr>dwControlsAccepted := if st = SERVICE_START_PENDING then 0 else SERVICE_ACCEPT_STOP\<rparr>;
          s = s\<lparr>dwCurrentState := st, dwWin32ExitCode := exitcode, dwWaitHint := waithint\<rparr>;
          settled = (st = SERVICE_RUNNING \<or> st = SERVICE_STOPPED);
          s = s\<lparr>dwCheckPoint := if settled then 0 else checkpoint w\<rparr>;
          w = w\<lparr>g_srvstatus := s, checkpoint := if settled then checkpoint w else checkpoint w + 1\<rparr> in
      case ans of
        None \<Rightarrow> (True, w\<lparr>reported := reported w @ [s]\<rparr>)
      | Some e \<Rightarrow> (False, LogErrorMsg e w))"

section \<open>The main function\<close>

text \<open>
  Up to the first report: \<open>hstatus\<close> is the answer of \<^verbatim>\<open>RegisterServiceCtrlHandler\<close>. The result tells whether the
  function goes on.
\<close>

definition ServiceMain_begin :: "dword \<Rightarrow> dword option \<Rightarrow> dword option \<Rightarrow> service \<Rightarrow> bool \<times> service" where
  "ServiceMain_begin hstatus ans ans' w =
     (let w = w\<lparr>g_hstatus := hstatus\<rparr> in
      if g_hstatus w = 0 then (False, w\<lparr>main_at := MainReturned\<rparr>)
      else
        let w = w\<lparr>g_srvstatus := (g_srvstatus w)\<lparr>dwServiceType := SERVICE_WIN32 OR SERVICE_INTERACTIVE_PROCESS,
                    dwServiceSpecificExitCode := 0\<rparr>\<rparr>;
            (ok, w) = ReportStatus ans SERVICE_START_PENDING NO_ERROR 15000 w in
        if ok then (True, w\<lparr>main_at := MainPending\<rparr>)
        else let (_, w) = ReportStatus ans' SERVICE_STOPPED (g_error w) 0 w in (False, w\<lparr>main_at := MainReturned\<rparr>))"

text \<open>
  The arguments: \<open>argv\<close> are the blocks that the array points to. In each pass the pointer \<^verbatim>\<open>argv[i]\<close> is replaced
  by a new block of 256 wide characters, from which 256 bytes are copied to \<^verbatim>\<open>argv[1]\<close>. \<^verbatim>\<open>memcpy\<close> does not look at
  what it copies.
\<close>

function argv_loop :: "nat \<Rightarrow> byte option list list \<Rightarrow> byte option list list res" where
  "argv_loop i argv =
     (if i < length argv
      then let argv = argv[i := replicate 512 None] in
           if length argv \<le> 1 then Inl OutOfBounds
           else rbind (mem_write (argv ! 1) 0 (take 256 (argv ! i))) (\<lambda>blk. argv_loop (Suc i) (argv[1 := blk]))
      else Inr argv)"
  by auto

termination by (relation "measure (\<lambda>(i, argv). length argv - i)") auto

declare argv_loop.simps [simp del]

text \<open>After the arguments the working thread is created; \<^verbatim>\<open>create\<close> of the thread library throws if it cannot.\<close>

definition ServiceMain_create :: "bool \<Rightarrow> byte option list list \<Rightarrow> service \<Rightarrow> service res" where
  "ServiceMain_create thread_ok argv w =
     rbind (argv_loop 0 argv) (\<lambda>_.
     Inr (w\<lparr>main_at := MainReturned, work_at := if thread_ok then WorkStart else NoWork\<rparr>))"

definition ServiceMain :: "dword \<Rightarrow> dword option \<Rightarrow> dword option \<Rightarrow> bool \<Rightarrow> byte option list list \<Rightarrow> service \<Rightarrow> service res" where
  "ServiceMain hstatus ans ans' thread_ok argv w =
     (let (go, w) = ServiceMain_begin hstatus ans ans' w in
      if go then ServiceMain_create thread_ok argv w else Inr w)"

section \<open>The working thread\<close>

text \<open>
  The test compares the static types \<^verbatim>\<open>void*\<close> and \<^verbatim>\<open>CArg*\<close>, so the arguments are never taken.
\<close>

definition work_args :: "'a option \<Rightarrow> 'a option" where
  "work_args arg = (if False then arg else None)"

definition work_save :: "dword \<Rightarrow> service \<Rightarrow> service" where
  "work_save tid w = w\<lparr>g_servicethread := tid, work_at := WorkSaved\<rparr>"

definition work_report :: "dword option \<Rightarrow> service \<Rightarrow> service" where
  "work_report ans w =
     (let (ok, w) = ReportStatus ans SERVICE_RUNNING NO_ERROR 0 w in w\<lparr>work_at := if ok then WorkRunning else WorkEnded\<rparr>)"

definition work_clear :: "service \<Rightarrow> service" where
  "work_clear w = w\<lparr>g_servicethread := 0, work_at := WorkCleared\<rparr>"

definition work_stopped :: "dword option \<Rightarrow> service \<Rightarrow> service" where
  "work_stopped ans w = (snd (ReportStatus ans SERVICE_STOPPED (g_error w) 0 w))\<lparr>work_at := WorkEnded\<rparr>"

text \<open>The thread on its own. \<^verbatim>\<open>WinAppMain\<close> of \<^verbatim>\<open>ServiceAppMain.cpp\<close> does nothing and returns 0.\<close>

definition WinAppMain :: "nat \<Rightarrow> 'a option \<Rightarrow> int" where
  "WinAppMain argc argv = 0"

definition ServiceWorkThread :: "dword \<Rightarrow> dword option \<Rightarrow> dword option \<Rightarrow> service \<Rightarrow> service" where
  "ServiceWorkThread tid ans ans' w =
     (let w = work_report ans (work_save tid w) in
      if work_at w = WorkRunning then work_stopped ans' (work_clear w) else w)"

section \<open>The handler\<close>

definition ServiceStop :: "service \<Rightarrow> service" where
  "ServiceStop w = (if g_servicethread w \<noteq> 0 then w\<lparr>quits := quits w @ [g_servicethread w]\<rparr> else w)"

definition ctrl_begin :: "dword \<Rightarrow> service \<Rightarrow> service" where
  "ctrl_begin ctrlcode w =
     (if ctrlcode = SERVICE_CONTROL_STOP
      then w\<lparr>g_srvstatus := (g_srvstatus w)\<lparr>dwCurrentState := SERVICE_STOP_PENDING\<rparr>, ctrl_at := CtrlStop\<rparr>
      else w\<lparr>ctrl_at := CtrlRead\<rparr>)"

definition ctrl_stop :: "service \<Rightarrow> service" where
  "ctrl_stop w = (ServiceStop w)\<lparr>ctrl_at := CtrlRead\<rparr>"

definition ctrl_read :: "service \<Rightarrow> service" where
  "ctrl_read w = w\<lparr>ctrl_at := CtrlReport (dwCurrentState (g_srvstatus w))\<rparr>"

definition ctrl_report :: "dword option \<Rightarrow> dword \<Rightarrow> service \<Rightarrow> service" where
  "ctrl_report ans st w = (snd (ReportStatus ans st NO_ERROR 0 w))\<lparr>ctrl_at := CtrlIdle\<rparr>"

definition ServiceCtrl :: "dword option \<Rightarrow> dword \<Rightarrow> service \<Rightarrow> service" where
  "ServiceCtrl ans ctrlcode w =
     (let w = (if ctrlcode = SERVICE_CONTROL_STOP
               then ServiceStop (w\<lparr>g_srvstatus := (g_srvstatus w)\<lparr>dwCurrentState := SERVICE_STOP_PENDING\<rparr>\<rparr>) else w) in
      snd (ReportStatus ans (dwCurrentState (g_srvstatus w)) NO_ERROR 0 w))"

text \<open>The handler's steps without interruption are the handler.\<close>

lemma ReportStatus_ctrl:
  "ReportStatus ans st e h (w\<lparr>ctrl_at := x\<rparr>) = (let (ok, w) = ReportStatus ans st e h w in (ok, w\<lparr>ctrl_at := x\<rparr>))"
  by (cases ans) (simp_all add: ReportStatus_def Let_def LogErrorMsg_def)

lemma ServiceCtrl_steps:
  "(ServiceCtrl ans c w)\<lparr>ctrl_at := CtrlIdle\<rparr> =
    (let w = ctrl_begin c w; w = (if ctrl_at w = CtrlStop then ctrl_stop w else w); w = ctrl_read w in
     ctrl_report ans (dwCurrentState (g_srvstatus w)) w)"
proof (cases "c = SERVICE_CONTROL_STOP")
  case True
  let ?w = "ServiceStop (w\<lparr>g_srvstatus := (g_srvstatus w)\<lparr>dwCurrentState := SERVICE_STOP_PENDING\<rparr>\<rparr>)"
  have "ctrl_stop (ctrl_begin c w) = ?w\<lparr>ctrl_at := CtrlRead\<rparr>" using True
    by (simp add: ctrl_stop_def ctrl_begin_def ServiceStop_def)
  then show ?thesis using True
    by (simp add: ServiceCtrl_def ctrl_begin_def ctrl_read_def ctrl_report_def ReportStatus_ctrl Let_def split_beta)
next
  case False
  then show ?thesis
    by (simp add: ServiceCtrl_def ctrl_begin_def ctrl_read_def ctrl_report_def ReportStatus_ctrl Let_def split_beta)
qed

section \<open>All orders of the three threads\<close>

text \<open>
  What the service control manager does: it takes no status of state 0, calls the handler one control at a time,
  once it is registered, and sends a stop only to a service whose last status accepts it and is not stopped.
\<close>

definition taken :: "dword option \<Rightarrow> dword \<Rightarrow> bool" where
  "taken ans st \<longleftrightarrow> (ans = None \<longrightarrow> st \<noteq> 0)"

definition stoppable :: "service \<Rightarrow> bool" where
  "stoppable w \<longleftrightarrow> reported w \<noteq> [] \<and> dwControlsAccepted (last (reported w)) AND SERVICE_ACCEPT_STOP \<noteq> 0
     \<and> dwCurrentState (last (reported w)) \<noteq> SERVICE_STOPPED"

inductive service_step :: "dword \<Rightarrow> service \<Rightarrow> service \<Rightarrow> bool" for tid where
  main_begins: "main_at w = MainIdle \<Longrightarrow> ServiceMain_begin hstatus ans ans' w = (go, w') \<Longrightarrow> service_step tid w w'"
| main_creates: "main_at w = MainPending \<Longrightarrow> ServiceMain_create ok argv w = Inr w' \<Longrightarrow> service_step tid w w'"
| saves: "work_at w = WorkStart \<Longrightarrow> service_step tid w (work_save tid w)"
| reports: "work_at w = WorkSaved \<Longrightarrow> service_step tid w (work_report ans w)"
| clears: "work_at w = WorkRunning \<Longrightarrow> service_step tid w (work_clear w)"
| stops: "work_at w = WorkCleared \<Longrightarrow> service_step tid w (work_stopped ans w)"
| controls: "ctrl_at w = CtrlIdle \<Longrightarrow> g_hstatus w \<noteq> 0 \<Longrightarrow> c = SERVICE_CONTROL_STOP \<longrightarrow> stoppable w \<Longrightarrow> service_step tid w (ctrl_begin c w)"
| ctrl_stops: "ctrl_at w = CtrlStop \<Longrightarrow> service_step tid w (ctrl_stop w)"
| ctrl_reads: "ctrl_at w = CtrlRead \<Longrightarrow> service_step tid w (ctrl_read w)"
| ctrl_reports: "ctrl_at w = CtrlReport st \<Longrightarrow> taken ans st \<Longrightarrow> service_step tid w (ctrl_report ans st w)"




lemma stoppable_snoc:
  "reported w = r @ [s] \<Longrightarrow> stoppable w \<longleftrightarrow> dwControlsAccepted s AND SERVICE_ACCEPT_STOP \<noteq> 0 \<and> dwCurrentState s \<noteq> SERVICE_STOPPED"
  by (simp add: stoppable_def)

text \<open>What a report changes.\<close>

lemma ReportStatus_fields:
  assumes "ReportStatus ans st e h w = (ok, w')"
  shows "dwCurrentState (g_srvstatus w') = st" "work_at w' = work_at w" "ctrl_at w' = ctrl_at w" "main_at w' = main_at w"
    "g_servicethread w' = g_servicethread w" "g_hstatus w' = g_hstatus w" "quits w' = quits w" "ok \<longleftrightarrow> ans = None"
    "ans = None \<Longrightarrow> stoppable w' \<longleftrightarrow> st \<noteq> SERVICE_START_PENDING \<and> st \<noteq> SERVICE_STOPPED"
    "ans \<noteq> None \<Longrightarrow> stoppable w' = stoppable w"
    "ans = None \<Longrightarrow> \<exists>s. reported w' = reported w @ [s] \<and> dwCurrentState s = st"
  using assms
  by (auto simp: ReportStatus_def Let_def LogErrorMsg_def stoppable_def SERVICE_ACCEPT_STOP_def split: option.splits if_splits)

lemma ReportStatus_taken:
  "map dwCurrentState (reported (snd (ReportStatus None st e h w))) = map dwCurrentState (reported w) @ [st]"
  by (simp add: ReportStatus_def Let_def)

lemma ReportStatus_same:
  "ctrl_at (snd (ReportStatus ans st e h w)) = ctrl_at w" "work_at (snd (ReportStatus ans st e h w)) = work_at w"
  "main_at (snd (ReportStatus ans st e h w)) = main_at w"
  using ReportStatus_fields(2-4) [of ans st e h w "fst (ReportStatus ans st e h w)"] by simp_all




section \<open>Properties\<close>


text \<open>A service that is started, and stopped while it runs.\<close>

definition begun :: service where "begun = snd (ServiceMain_begin 7 None None service_zero)"
definition created :: service where "created = begun\<lparr>main_at := MainReturned, work_at := WorkStart\<rparr>"
definition running :: service where "running = work_report None (work_save 9 created)"
definition stopping :: service where "stopping = ctrl_begin SERVICE_CONTROL_STOP running"

lemmas example_defs = begun_def created_def running_def stopping_def ServiceMain_begin_def work_report_def work_save_def ctrl_begin_def
  ReportStatus_def Let_def service_zero_def LogErrorMsg_def service_consts

lemma argv_two: "argv_loop 0 [[], replicate 256 None] = Inr [replicate 512 None, replicate 256 None @ replicate 256 None]"
  by (simp add: argv_loop.simps mem_write_def)

lemma created: "(service_step 9)\<^sup>*\<^sup>* service_zero created"
proof -
  have "service_step 9 service_zero begun"
    by (rule service_step.main_begins [of _ 7 None None True]) (simp_all add: example_defs)
  moreover have "ServiceMain_create True [[], replicate 256 None] begun = Inr created"
    by (simp add: ServiceMain_create_def argv_two created_def)
  then have "service_step 9 begun created"
    by (intro service_step.main_creates [of begun True]) (simp_all add: example_defs)
  ultimately show ?thesis by auto
qed

lemma stopping: "(service_step 9)\<^sup>*\<^sup>* service_zero stopping"
proof -
  have "service_step 9 created (work_save 9 created)" by (rule service_step.saves) (simp add: created_def)
  moreover have "service_step 9 (work_save 9 created) running"
    unfolding running_def by (rule service_step.reports) (simp add: work_save_def)
  moreover have "service_step 9 running stopping"
    unfolding stopping_def by (rule service_step.controls) (simp_all add: example_defs stoppable_def)
  ultimately show ?thesis using created by (meson rtranclp.rtrancl_into_rtrancl)
qed


text \<open>The handler and the working thread report through the same variables without a lock: a service that is
  stopped can report that it has stopped and after that, for the rest of its time, that it is stopping.\<close>

theorem stopped_then_stop_pending:
  "\<exists>w. (service_step 9)\<^sup>*\<^sup>* service_zero w \<and> main_at w = MainReturned \<and> work_at w = WorkEnded \<and> ctrl_at w = CtrlIdle
     \<and> map dwCurrentState (reported w) = [SERVICE_START_PENDING, SERVICE_RUNNING, SERVICE_STOPPED, SERVICE_STOP_PENDING]"
proof -
  let ?w2 = "ctrl_read (ctrl_stop stopping)"
  let ?w3 = "work_stopped None (work_clear ?w2)"
  let ?w4 = "ctrl_report None SERVICE_STOP_PENDING ?w3"
  have c2: "ctrl_at ?w2 = CtrlReport SERVICE_STOP_PENDING" "work_at ?w2 = work_at running" "main_at ?w2 = main_at running"
      "reported ?w2 = reported running"
    by (simp_all add: ctrl_read_def ctrl_stop_def ServiceStop_def stopping_def ctrl_begin_def)
  have r: "work_at running = WorkRunning" "main_at running = MainReturned"
      "map dwCurrentState (reported running) = [SERVICE_START_PENDING, SERVICE_RUNNING]"
    by (simp_all add: example_defs)
  have c3: "ctrl_at ?w3 = ctrl_at ?w2" "main_at ?w3 = main_at ?w2" "work_at ?w3 = WorkEnded"
      "map dwCurrentState (reported ?w3) = map dwCurrentState (reported ?w2) @ [SERVICE_STOPPED]"
    by (simp_all add: work_stopped_def work_clear_def ReportStatus_same ReportStatus_taken)
  have c4: "ctrl_at ?w4 = CtrlIdle" "main_at ?w4 = main_at ?w3" "work_at ?w4 = work_at ?w3"
      "map dwCurrentState (reported ?w4) = map dwCurrentState (reported ?w3) @ [SERVICE_STOP_PENDING]"
    by (simp_all add: ctrl_report_def ReportStatus_same ReportStatus_taken)
  have "service_step 9 stopping (ctrl_stop stopping)"
    by (rule service_step.ctrl_stops) (simp add: stopping_def ctrl_begin_def)
  moreover have "service_step 9 (ctrl_stop stopping) ?w2" by (rule service_step.ctrl_reads) (simp add: ctrl_stop_def)
  moreover have "service_step 9 ?w2 (work_clear ?w2)" by (rule service_step.clears) (simp add: c2 r)
  moreover have "service_step 9 (work_clear ?w2) ?w3" by (rule service_step.stops) (simp add: work_clear_def)
  moreover have "service_step 9 ?w3 ?w4"
    by (rule service_step.ctrl_reports) (simp_all add: c3 c2 taken_def service_consts)
  ultimately have "(service_step 9)\<^sup>*\<^sup>* service_zero ?w4" using stopping by (meson rtranclp.rtrancl_into_rtrancl)
  then show ?thesis using c4 c3 c2 r by (intro exI [of _ ?w4]) simp
qed

text \<open>A service that is started with its name alone, as usual, or with a second argument of fewer than 256 bytes, does
  not get to its working thread: the loop over the arguments writes outside them.\<close>

theorem short_arguments_overrun:
  assumes "hstatus \<noteq> 0" and "length argv = 1 \<or> 1 < length argv \<and> length (argv ! 1) < 256"
  shows "ServiceMain hstatus None ans' ok argv w = Inl OutOfBounds"
proof -
  have "argv_loop 0 argv = Inl OutOfBounds"
  proof (cases "length argv = 1")
    case False
    then have "mem_write (argv ! 1) 0 (replicate 256 None) = Inl OutOfBounds" using assms(2) by (simp add: mem_write_def)
    then show ?thesis using assms(2) False by (subst argv_loop.simps) (auto simp: Let_def take_replicate)
  qed (simp add: argv_loop.simps)
  then show ?thesis using assms(1)
    by (simp add: ServiceMain_def ServiceMain_begin_def ServiceMain_create_def ReportStatus_def Let_def)
qed

theorem short_arguments_overrun_witness:
  "ServiceMain 7 None None True [map Some [86, 0, 0, 0]] service_zero = Inl OutOfBounds"
  by (rule short_arguments_overrun) simp_all

end
