(* ===== verification/ServiceInstall.thy ===== *)
theory ServiceInstall
  imports Prelude
begin

text \<open>
  The installation of the service, \<^verbatim>\<open>InstallService\<close> and \<^verbatim>\<open>RemoveService\<close> of \<^verbatim>\<open>VerifyServer/Service.cpp\<close>, and the
  functions that ask for the version of Windows. What Windows answers is a parameter, what it is told is a state:
  the registry, the services, and how many handles of keys and services are open.
\<close>

section \<open>The version of Windows\<close>

definition VER_PLATFORM_WIN32_WINDOWS :: dword where "VER_PLATFORM_WIN32_WINDOWS = 1"
definition VER_PLATFORM_WIN32_NT :: dword where "VER_PLATFORM_WIN32_NT = 2"

record version_info =
  g_platform_id :: dword
  g_version_major :: dword
  g_version_minor :: dword

text \<open>The constructor reads the answer of \<^verbatim>\<open>GetVersionEx\<close> also when there is none.\<close>

definition vncService :: "version_info option \<Rightarrow> version_info res" where
  "vncService ans = (case ans of None \<Rightarrow> Inl Uninitialised | Some v \<Rightarrow> Inr v)"

definition IsWin95 :: "version_info \<Rightarrow> bool" where "IsWin95 v = (g_platform_id v = VER_PLATFORM_WIN32_WINDOWS)"
definition IsWinNT :: "version_info \<Rightarrow> bool" where "IsWinNT v = (g_platform_id v = VER_PLATFORM_WIN32_NT)"
definition VersionMajor :: "version_info \<Rightarrow> dword" where "VersionMajor v = g_version_major v"
definition VersionMinor :: "version_info \<Rightarrow> dword" where "VersionMinor v = g_version_minor v"

section \<open>Running as a service\<close>

text \<open>
  \<^verbatim>\<open>WinRunAsService\<close>: whether the process is in service mode, how many libraries it has loaded, whether Windows 95 takes it for a
  simple service, how often \<^verbatim>\<open>WinAppMain\<close> was run, and the errors that were logged. On Windows NT the dispatcher calls the main
  function of \<open>Service\<close>.
\<close>

record run_state =
  g_servicemode :: bool
  libraries :: nat
  simple_service :: bool
  app_runs :: nat
  run_errors :: nat

definition RunningAsService :: "run_state \<Rightarrow> bool" where
  "RunningAsService r = g_servicemode r"

definition WinRunAsService :: "dword \<Rightarrow> bool \<Rightarrow> bool \<Rightarrow> bool \<Rightarrow> run_state \<Rightarrow> int \<times> run_state" where
  "WinRunAsService platform kernel_loaded register_found dispatches r =
     (let r = r\<lparr>g_servicemode := True\<rparr> in
      if platform = VER_PLATFORM_WIN32_WINDOWS
      then if \<not> kernel_loaded then (0, r)
           else
             let r = r\<lparr>libraries := libraries r + 1\<rparr> in
             if \<not> register_found then (0, r)
             else
               let r = r\<lparr>simple_service := True\<rparr>;
                   r = r\<lparr>app_runs := app_runs r + 1\<rparr>;
                   r = r\<lparr>simple_service := False\<rparr> in
               (0, r\<lparr>libraries := libraries r - 1\<rparr>)
      else if platform = VER_PLATFORM_WIN32_NT
      then if \<not> dispatches then (0, r\<lparr>run_errors := run_errors r + 1\<rparr>) else (0, r)
      else (0, r))"

text \<open>The library stays loaded when it lacks the function.\<close>

lemma WinRunAsService_libraries:
  "WinRunAsService platform kernel_loaded register_found dispatches r = (x, r') \<Longrightarrow>
     RunningAsService r' \<and> libraries r' = libraries r + (if platform = VER_PLATFORM_WIN32_WINDOWS \<and> kernel_loaded \<and> \<not> register_found then 1 else 0)"
  by (auto simp: WinRunAsService_def RunningAsService_def Let_def split: if_splits)

section \<open>The state\<close>

datatype reg_key = RunServices | Run

record installation =
  registry :: "reg_key \<times> wchar list \<Rightarrow> byte list option"
  services :: "wchar list \<Rightarrow> wchar list option"
  open_handles :: int
  processes :: "wchar list list"

text \<open>\<^verbatim>\<open>-service\<close> and \<^verbatim>\<open>-servicehelper\<close>.\<close>

definition runService :: "wchar list" where "runService = [45, 115, 101, 114, 118, 105, 99, 101]"
definition runServiceHelper :: "wchar list" where
  "runServiceHelper = [45, 115, 101, 114, 118, 105, 99, 101, 104, 101, 108, 112, 101, 114]"

definition pathlength :: nat where "pathlength = 2048"

text \<open>\<^verbatim>\<open>MySprintf\<close> of a quoted path and an argument into an array of \<open>pathlength\<close> characters.\<close>

definition command_line :: "wchar list \<Rightarrow> wchar list \<Rightarrow> wchar list" where
  "command_line path arg = [34] @ path @ [34, 32] @ arg"

definition print_command :: "wchar list \<Rightarrow> wchar list \<Rightarrow> wchar list res" where
  "print_command path arg =
     rbind (mem_write (replicate pathlength 0) 0 (command_line path arg @ [0])) (\<lambda>_. Inr (command_line path arg))"

text \<open>
  The value that is set has as many bytes as the text has characters, and one more.
\<close>

definition wide_bytes :: "wchar list \<Rightarrow> byte list" where
  "wide_bytes cs = concat (map (\<lambda>c. [ucast c, ucast (drop_bit 8 c)]) cs)"

definition reg_value :: "wchar list \<Rightarrow> byte list" where
  "reg_value cmd = take (length cmd + 1) (wide_bytes (cmd @ [0]))"

definition set_value :: "reg_key \<Rightarrow> wchar list \<Rightarrow> wchar list \<Rightarrow> installation \<Rightarrow> installation" where
  "set_value k name cmd st = st\<lparr>registry := (registry st)((k, name) \<mapsto> reg_value cmd)\<rparr>"

definition opened :: "installation \<Rightarrow> installation" where "opened st = st\<lparr>open_handles := open_handles st + 1\<rparr>"
definition closed_handle :: "installation \<Rightarrow> installation" where "closed_handle st = st\<lparr>open_handles := open_handles st - 1\<rparr>"

section \<open>Installation\<close>

record install_answers =
  module_file :: "wchar list option"
  key_created :: bool
  value_set :: bool
  process_created :: bool
  manager_opened :: bool
  service_created :: bool

text \<open>On Windows 95 the command is written to the registry and run.\<close>

definition install_windows :: "install_answers \<Rightarrow> wchar list \<Rightarrow> wchar list \<Rightarrow> installation \<Rightarrow> installation" where
  "install_windows ans szAppName servicecmd st =
     (if \<not> key_created ans then st
      else
        let st = opened st in
        if \<not> value_set ans then closed_handle st
        else
          let st = closed_handle (set_value RunServices szAppName servicecmd st) in
          if process_created ans then st\<lparr>processes := processes st @ [servicecmd]\<rparr> else st)"

text \<open>On Windows NT a service is created and the helper entered in the registry.\<close>

definition install_nt :: "install_answers \<Rightarrow> wchar list \<Rightarrow> wchar list \<Rightarrow> wchar list \<Rightarrow> wchar list \<Rightarrow> installation \<Rightarrow> installation res" where
  "install_nt ans path szAppName szServiceName servicecmd st =
     (if \<not> manager_opened ans then Inr st
      else
        let st = opened st in
        if \<not> service_created ans then Inr (closed_handle st)
        else
          let st = opened (st\<lparr>services := (services st)(szServiceName \<mapsto> servicecmd)\<rparr>);
              st = closed_handle (closed_handle st) in
          if \<not> key_created ans then Inr st
          else
            let st = opened st in
            if length path + 4 + length runServiceHelper < pathlength
            then rbind (print_command path runServiceHelper) (\<lambda>servicehelpercmd.
                   Inr (closed_handle (if value_set ans then set_value Run szAppName servicehelpercmd st else st)))
            else Inr st)"

definition InstallService :: "dword \<Rightarrow> install_answers \<Rightarrow> wchar list \<Rightarrow> wchar list \<Rightarrow> installation \<Rightarrow> (int \<times> installation) res" where
  "InstallService platform ans szAppName szServiceName st =
     (case module_file ans of
        None \<Rightarrow> Inr (0, st)
      | Some path \<Rightarrow>
          if length path + 4 + length runService < pathlength
          then rbind (print_command path runService) (\<lambda>servicecmd.
               rbind (if platform = VER_PLATFORM_WIN32_WINDOWS then Inr (install_windows ans szAppName servicecmd st)
                      else if platform = VER_PLATFORM_WIN32_NT then install_nt ans path szAppName szServiceName servicecmd st
                      else Inr st) (\<lambda>st. Inr (0, st)))
          else Inr (0, st))"

section \<open>Removal\<close>

text \<open>
  \<open>queries\<close> are the states that \<^verbatim>\<open>QueryServiceStatus\<close> answers, \<^term>\<open>None\<close> where it fails. The loop sleeps and asks again
  while the service is stopping; it has no result if the answers do not end it.
\<close>

record remove_answers =
  key_opened :: bool
  value_deleted :: bool
  manager_opens :: bool
  service_opened :: bool
  stop_sent :: bool
  queries :: "dword option list"
  service_deleted :: bool

fun query_loop :: "dword option list \<Rightarrow> nat option" where
  "query_loop [] = None"
| "query_loop (None # qs) = Some 0"
| "query_loop (Some st # qs) = (if st = 3 then map_option Suc (query_loop qs) else Some 0)"

definition remove_windows :: "remove_answers \<Rightarrow> wchar list \<Rightarrow> installation \<Rightarrow> installation" where
  "remove_windows ans szAppName st =
     (if \<not> key_opened ans then st
      else
        let st = opened st;
            st = (if value_deleted ans then st\<lparr>registry := (registry st)((RunServices, szAppName) := None)\<rparr> else closed_handle st) in
        closed_handle st)"

text \<open>The manager is closed only in the branch \<^verbatim>\<open>else if (!silent)\<close> of a service that cannot be opened.\<close>

definition remove_nt :: "remove_answers \<Rightarrow> wchar list \<Rightarrow> wchar list \<Rightarrow> bool \<Rightarrow> installation \<Rightarrow> installation option" where
  "remove_nt ans szAppName szServiceName silent st =
     (let st = (if key_opened ans
                then let st = opened st;
                         st = (if value_deleted ans then st\<lparr>registry := (registry st)((Run, szAppName) := None)\<rparr> else st) in
                     closed_handle st
                else st) in
      if manager_opens ans
      then let st = opened st in
           if service_opened ans
           then let st = opened st in
                if stop_sent ans \<and> query_loop (queries ans) = None then None
                else let st = (if service_deleted ans then st\<lparr>services := (services st)(szServiceName := None)\<rparr> else st) in
                     Some (closed_handle st)
           else if \<not> silent then Some (closed_handle st) else Some st
      else Some st)"

definition RemoveService :: "dword \<Rightarrow> remove_answers \<Rightarrow> wchar list \<Rightarrow> wchar list \<Rightarrow> bool \<Rightarrow> installation \<Rightarrow> (int \<times> installation) option" where
  "RemoveService platform ans szAppName szServiceName silent st =
     (if platform = VER_PLATFORM_WIN32_WINDOWS then Some (0, remove_windows ans szAppName st)
      else if platform = VER_PLATFORM_WIN32_NT then map_option (Pair 0) (remove_nt ans szAppName szServiceName silent st)
      else Some (0, st))"

definition ReinstallService ::
    "dword \<Rightarrow> remove_answers \<Rightarrow> install_answers \<Rightarrow> wchar list \<Rightarrow> wchar list \<Rightarrow> installation \<Rightarrow> (int \<times> installation) res option" where
  "ReinstallService platform rans ians szAppName szServiceName st =
     map_option (\<lambda>(_, st). rbind (InstallService platform ians szAppName szServiceName st) (\<lambda>(_, st). Inr (0, st)))
       (RemoveService platform rans szAppName szServiceName True st)"

section \<open>Lemmas\<close>

lemma length_wide_bytes: "length (wide_bytes cs) = 2 * length cs"
  by (induction cs) (simp_all add: wide_bytes_def)

lemma wide_bytes_append: "wide_bytes (cs @ ds) = wide_bytes cs @ wide_bytes ds"
  by (simp add: wide_bytes_def)


text \<open>The value is half of the command with its zero.\<close>

lemma reg_value_half: "2 * length (reg_value cmd) = length (wide_bytes (cmd @ [0]))"
  by (simp add: reg_value_def length_wide_bytes)

section \<open>Properties\<close>


text \<open>C2: \<^verbatim>\<open>RemoveService\<close> on Windows NT leaves the handle of the service manager open whenever it has opened the service,
  and also when it could not and was told to be silent.\<close>

theorem remove_leaks_manager:
  assumes "RemoveService VER_PLATFORM_WIN32_NT ans app name silent st = Some (r, st')"
  shows "open_handles st' = open_handles st + (if manager_opens ans \<and> (service_opened ans \<or> silent) then 1 else 0)"
  using assms
  by (auto simp: RemoveService_def remove_nt_def opened_def closed_handle_def Let_def VER_PLATFORM_WIN32_WINDOWS_def
      VER_PLATFORM_WIN32_NT_def split: if_splits)

theorem remove_leaks_manager_witness:
  "\<exists>st'. RemoveService VER_PLATFORM_WIN32_NT
      \<lparr>key_opened = True, value_deleted = True, manager_opens = True, service_opened = True, stop_sent = True,
       queries = [Some 3, Some 1], service_deleted = True\<rparr> [65] [66] False
      \<lparr>registry = Map.empty, services = [[66] \<mapsto> [67]], open_handles = 0, processes = []\<rparr> = Some (0, st')
    \<and> open_handles st' = 1"
proof -
  let ?ans = "\<lparr>key_opened = True, value_deleted = True, manager_opens = True, service_opened = True, stop_sent = True,
       queries = [Some 3, Some 1], service_deleted = True\<rparr>"
  let ?st = "\<lparr>registry = Map.empty, services = [[66] \<mapsto> [67]], open_handles = 0, processes = []\<rparr>"
  obtain st' where "RemoveService VER_PLATFORM_WIN32_NT ?ans [65] [66] False ?st = Some (0, st')"
    by (simp add: RemoveService_def remove_nt_def Let_def VER_PLATFORM_WIN32_WINDOWS_def VER_PLATFORM_WIN32_NT_def)
  with remove_leaks_manager [OF this] show ?thesis by simp
qed

end
