(* ===== verification/UdpSocket.thy ===== *)
theory UdpSocket
  imports TextConv
begin

text \<open>
  The datagram socket, \<^verbatim>\<open>socket/UdpSocket/UDPSocket.cpp\<close>: its creation, the thread that receives, sending and the
  end. What Windows answers is a parameter.
\<close>

section \<open>The object and the sockets of Windows\<close>

text \<open>
  \<^verbatim>\<open>SOCKET\<close> is an unsigned number of 32 bits, and \<open>UDP_INVALID_SOCKET\<close> its greatest. An address is an IP address and a
  port. A socket of Windows may be bound to a local address, which sending does on an unbound one.
\<close>

definition UDP_INVALID_SOCKET :: dword where "UDP_INVALID_SOCKET = -1"

type_synonym sock_addr = "dword \<times> 16 word"

record win_socket =
  broadcast :: bool
  receive_timeout :: nat
  bound :: bool

datatype rev_handle = NoRevThread | InvalidThread | ThreadHandle nat

record udp =
  m_sockServer :: dword
  m_addrSend :: sock_addr
  m_addrRevice :: sock_addr
  m_bStopUDPRevThread :: bool
  m_pRevInterface :: bool
  m_hRevThread :: rev_handle
  win_sockets :: "dword \<Rightarrow> win_socket option"
  wsa_count :: int
  rev_threads :: "nat \<Rightarrow> bool option"
  next_rev :: nat
  sent :: "(sock_addr \<times> byte list) list"
  rev_told :: "byte list list"

text \<open>
  \<open>rev_threads\<close> tells which of the started threads still run. \<open>wsa_ok\<close> is the answer of \<^verbatim>\<open>WSAStartup\<close>; a \<^verbatim>\<open>WSACleanup\<close> that
  has no start to undo fails.
\<close>

definition WSACleanup :: "udp \<Rightarrow> bool \<times> udp" where
  "WSACleanup u = (if wsa_count u > 0 then (True, u\<lparr>wsa_count := wsa_count u - 1\<rparr>) else (False, u))"

definition CUDPSocket :: "bool \<Rightarrow> bool \<Rightarrow> udp" where
  "CUDPSocket wsa_ok rev_interface =
     (let u = \<lparr>m_sockServer = 0, m_addrSend = (0, 0), m_addrRevice = (0, 0), m_bStopUDPRevThread = False,
               m_pRevInterface = rev_interface, m_hRevThread = InvalidThread, win_sockets = Map.empty,
               wsa_count = if wsa_ok then 1 else 0, rev_threads = Map.empty, next_rev = 0, sent = [], rev_told = []\<rparr> in
      if wsa_ok then u else snd (WSACleanup u))"

definition closesocket :: "dword \<Rightarrow> udp \<Rightarrow> bool \<times> udp" where
  "closesocket s u = (if win_sockets u s = None then (False, u) else (True, u\<lparr>win_sockets := (win_sockets u)(s := None)\<rparr>))"

section \<open>Start\<close>

text \<open>
  The answers: the number of the new socket, if there is one; whether the two options can be set; whether the
  thread begins. A new socket has a number that is neither 0 nor \<open>UDP_INVALID_SOCKET\<close> nor in use.
\<close>

record udp_answers =
  new_socket :: "dword option"
  broadcast_set :: bool
  timeout_set :: bool
  thread_begins :: bool

definition INADDR_BROADCAST :: dword where "INADDR_BROADCAST = 0xFFFFFFFF"
definition INADDR_ANY :: dword where "INADDR_ANY = 0"

text \<open>Creation of the socket with its options, which both kinds of sockets share.\<close>

definition open_socket :: "udp_answers \<Rightarrow> (udp \<Rightarrow> udp) \<Rightarrow> udp \<Rightarrow> bool \<times> udp" where
  "open_socket ans addresses u =
     (if m_sockServer u > 0 then (True, u)
      else
        let s = (case new_socket ans of None \<Rightarrow> UDP_INVALID_SOCKET | Some s \<Rightarrow> s); u = u\<lparr>m_sockServer := s\<rparr> in
        if s = -1 then (False, u)
        else
          let u = addresses (u\<lparr>win_sockets := (win_sockets u)(s \<mapsto> \<lparr>broadcast = False, receive_timeout = 0, bound = False\<rparr>)\<rparr>) in
          if \<not> broadcast_set ans then (False, snd (closesocket s u))
          else if \<not> timeout_set ans then (False, snd (closesocket s u))
          else (True, u\<lparr>win_sockets := (win_sockets u)(s \<mapsto> \<lparr>broadcast = True, receive_timeout = 1000 * 5, bound = False\<rparr>)\<rparr>))"

definition InitBroadcastSocket :: "udp_answers \<Rightarrow> 16 word \<Rightarrow> udp \<Rightarrow> bool \<times> udp" where
  "InitBroadcastSocket ans usPort =
     open_socket ans (\<lambda>u. u\<lparr>m_addrSend := (INADDR_BROADCAST, usPort), m_addrRevice := (INADDR_ANY, usPort)\<rparr>)"

definition InitMulticastSocket :: "udp_answers \<Rightarrow> 16 word \<Rightarrow> udp \<Rightarrow> bool \<times> udp" where
  "InitMulticastSocket ans usPort = open_socket ans (\<lambda>u. u\<lparr>m_addrRevice := (INADDR_ANY, usPort)\<rparr>)"

definition WantStopThread :: "udp \<Rightarrow> udp" where
  "WantStopThread u = u\<lparr>m_bStopUDPRevThread := True\<rparr>"

definition IsWantStopThread :: "udp \<Rightarrow> bool" where
  "IsWantStopThread u = m_bStopUDPRevThread u"

text \<open>\<open>still_runs\<close>: a wait for the receiving thread would block.\<close>

definition still_runs :: "udp \<Rightarrow> bool" where
  "still_runs u = (case m_hRevThread u of ThreadHandle k \<Rightarrow> rev_threads u k = Some True | _ \<Rightarrow> False)"

definition begin_rev_thread :: "bool \<Rightarrow> udp \<Rightarrow> udp" where
  "begin_rev_thread ok u =
     (if ok then u\<lparr>m_hRevThread := ThreadHandle (next_rev u), rev_threads := (rev_threads u)(next_rev u \<mapsto> True), next_rev := Suc (next_rev u)\<rparr>
      else u\<lparr>m_hRevThread := NoRevThread\<rparr>)"

text \<open>\<^term>\<open>None\<close> while the call has to wait for the thread of an earlier start.\<close>

definition StartRecive :: "udp_answers \<Rightarrow> 16 word \<Rightarrow> udp \<Rightarrow> (bool \<times> udp) option" where
  "StartRecive ans usDesPort u =
     (if m_sockServer u < 0 then Some (False, u)
      else
        let u = WantStopThread u in
        if still_runs u then None
        else
          let u = (case m_hRevThread u of ThreadHandle k \<Rightarrow> u\<lparr>m_hRevThread := InvalidThread\<rparr> | _ \<Rightarrow> u);
              u = u\<lparr>m_addrRevice := (fst (m_addrRevice u), usDesPort)\<rparr>;
              u = begin_rev_thread (thread_begins ans) u in
          Some (m_hRevThread u \<noteq> NoRevThread, u))"

definition udp_Start :: "udp_answers \<Rightarrow> 16 word \<Rightarrow> udp \<Rightarrow> (bool \<times> udp) option" where
  "udp_Start ans usPort u =
     (let (ok, u) = InitBroadcastSocket ans usPort u in
      if \<not> ok then Some (False, u)
      else case StartRecive ans usPort u of
        None \<Rightarrow> None
      | Some (started, u) \<Rightarrow> if \<not> started then Some (False, u) else Some (True, u))"

section \<open>Receiving\<close>

text \<open>
  \<open>arrives\<close> is the sender and the data of a datagram, or \<^term>\<open>None\<close> for a time-out or an error. A socket that is not
  bound receives nothing, and a datagram of more than 256 bytes is an error.
\<close>

definition recvfrom :: "(sock_addr \<times> byte list) option \<Rightarrow> udp \<Rightarrow> int \<times> udp \<times> byte list" where
  "recvfrom arrives u =
     (case (win_sockets u (m_sockServer u), arrives) of
        (Some s, Some (from_addr, bs)) \<Rightarrow>
          if bound s \<and> length bs \<le> 256 then (int (length bs), u\<lparr>m_addrRevice := from_addr\<rparr>, bs) else (-1, u, [])
      | _ \<Rightarrow> (-1, u, []))"

text \<open>One pass of the loop of \<^verbatim>\<open>_RevThread\<close>.\<close>

definition rev_pass :: "nat \<Rightarrow> (sock_addr \<times> byte list) option \<Rightarrow> udp \<Rightarrow> udp" where
  "rev_pass k arrives u =
     (let (ret, u, bs) = recvfrom arrives u;
          u = (if ret \<le> 0 then u else if m_pRevInterface u then u\<lparr>rev_told := rev_told u @ [bs]\<rparr> else u) in
      if IsWantStopThread u then u\<lparr>rev_threads := (rev_threads u)(k \<mapsto> False)\<rparr> else u)"

section \<open>Sending\<close>

text \<open>
  \<open>send_ok\<close> is the answer of \<^verbatim>\<open>sendto\<close> for a socket that exists; sending binds the socket. The \<^verbatim>\<open>send\<close> that follows a broadcast
  fails, since the socket is never connected, and its answer is not used.
\<close>

definition sendto :: "bool \<Rightarrow> byte list \<Rightarrow> sock_addr \<Rightarrow> udp \<Rightarrow> int \<times> udp" where
  "sendto send_ok bs addr u =
     (case win_sockets u (m_sockServer u) of
        Some s \<Rightarrow> if send_ok then (int (length bs), u\<lparr>win_sockets := (win_sockets u)(m_sockServer u \<mapsto> s\<lparr>bound := True\<rparr>), sent := sent u @ [(addr, bs)]\<rparr>)
                  else (-1, u)
      | None \<Rightarrow> (-1, u))"

definition send_result :: "int \<times> udp \<Rightarrow> bool \<times> udp" where
  "send_result r = (if fst r < 0 then (False, snd r) else (True, snd r))"

definition SendData_broadcast :: "bool \<Rightarrow> byte list \<Rightarrow> udp \<Rightarrow> bool \<times> udp" where
  "SendData_broadcast send_ok chData u = send_result (sendto send_ok chData (m_addrSend u) u)"

definition SendData_addr :: "bool \<Rightarrow> byte list \<Rightarrow> sock_addr \<Rightarrow> udp \<Rightarrow> bool \<times> udp" where
  "SendData_addr send_ok chData send_to u = send_result (sendto send_ok chData send_to u)"

text \<open>
  To an IP address as text, which is converted into an array of 32 zeros with room for 31; \<open>inet_addr\<close> is that of the
  socket library.
\<close>

definition SendData_ip ::
    "(wchar list \<Rightarrow> byte list) \<Rightarrow> (byte list \<Rightarrow> dword) \<Rightarrow> bool \<Rightarrow> byte list \<Rightarrow> wchar list \<Rightarrow> 16 word \<Rightarrow> udp \<Rightarrow> (bool \<times> udp) res" where
  "SendData_ip to_utf8 inet_addr send_ok chData desIp desPort u =
     rbind (GlobalUnicodeToUtf8 to_utf8 desIp (replicate 32 0) 31) (\<lambda>(cip, _).
     Inr (send_result (sendto send_ok chData (inet_addr (c_text cip), desPort) u)))"

section \<open>The end\<close>

text \<open>\<^term>\<open>None\<close> while the call has to wait for the thread.\<close>

definition udp_Stop :: "udp \<Rightarrow> (bool \<times> udp) option" where
  "udp_Stop u =
     (let u = WantStopThread u in
      if still_runs u then None
      else
        let (closed_ok, u) = closesocket (m_sockServer u) u; (cleaned, u) = WSACleanup u in
        Some (closed_ok \<and> cleaned, u))"

section \<open>All orders\<close>

inductive udp_step :: "udp \<Rightarrow> udp \<Rightarrow> bool" where
  starts: "udp_Start ans usPort u = Some (r, u') \<Longrightarrow> udp_step u u'"
| passes: "rev_threads u k = Some True \<Longrightarrow> udp_step u (rev_pass k arrives u)"
| broadcasts: "SendData_broadcast ok bs u = (r, u') \<Longrightarrow> udp_step u u'"
| sends: "SendData_addr ok bs addr u = (r, u') \<Longrightarrow> udp_step u u'"
| sends_ip: "SendData_ip to_utf8 inet_addr ok bs desIp desPort u = Inr (r, u') \<Longrightarrow> udp_step u u'"
| ends: "udp_Stop u = Some (r, u') \<Longrightarrow> udp_step u u'"

text \<open>
  A thread that runs has been asked to stop before it began; no more datagrams are passed on than threads were
  begun; a socket is bound only if something was sent.
\<close>

definition rev_running :: "udp \<Rightarrow> nat set" where
  "rev_running u = {k. rev_threads u k = Some True}"

definition udp_ok :: "udp \<Rightarrow> bool" where
  "udp_ok u \<longleftrightarrow> (rev_running u \<noteq> {} \<longrightarrow> m_bStopUDPRevThread u) \<and> rev_running u \<subseteq> {..<next_rev u}
     \<and> length (rev_told u) + card (rev_running u) \<le> next_rev u
     \<and> (\<forall>a s. win_sockets u a = Some s \<and> bound s \<longrightarrow> sent u \<noteq> [])"

lemma udp_okI_same:
  assumes "udp_ok u" and "rev_threads u' = rev_threads u" and "next_rev u' = next_rev u" and "rev_told u' = rev_told u"
    and "m_bStopUDPRevThread u \<longrightarrow> m_bStopUDPRevThread u'"
    and "\<And>a s. win_sockets u' a = Some s \<Longrightarrow> bound s \<Longrightarrow> sent u' \<noteq> []"
  shows "udp_ok u'"
  using assms by (auto simp: udp_ok_def rev_running_def)

lemma open_socket_ok:
  assumes "udp_ok u" and "open_socket ans adr u = (r, u')"
    and "\<And>u. \<exists>a b. adr u = u\<lparr>m_addrSend := a, m_addrRevice := b\<rparr>"
  shows "udp_ok u'"
proof (rule udp_okI_same [OF assms(1)])
  show "rev_threads u' = rev_threads u" "next_rev u' = next_rev u" "rev_told u' = rev_told u"
      "m_bStopUDPRevThread u \<longrightarrow> m_bStopUDPRevThread u'"
    using assms(2) assms(3) [of "u\<lparr>m_sockServer := case new_socket ans of None \<Rightarrow> UDP_INVALID_SOCKET | Some s \<Rightarrow> s,
        win_sockets := (win_sockets u)(case new_socket ans of None \<Rightarrow> UDP_INVALID_SOCKET | Some s \<Rightarrow> s \<mapsto>
          \<lparr>broadcast = False, receive_timeout = 0, bound = False\<rparr>)\<rparr>"]
    by (auto simp: open_socket_def closesocket_def Let_def split: if_splits)
  show "sent u' \<noteq> []" if "win_sockets u' a = Some s" "bound s" for a s
    using that assms(1,2) assms(3) [of "u\<lparr>m_sockServer := case new_socket ans of None \<Rightarrow> UDP_INVALID_SOCKET | Some s \<Rightarrow> s,
        win_sockets := (win_sockets u)(case new_socket ans of None \<Rightarrow> UDP_INVALID_SOCKET | Some s \<Rightarrow> s \<mapsto>
          \<lparr>broadcast = False, receive_timeout = 0, bound = False\<rparr>)\<rparr>"]
    by (auto simp: open_socket_def closesocket_def Let_def udp_ok_def split: if_splits)
qed

lemma InitBroadcastSocket_ok: "udp_ok u \<Longrightarrow> InitBroadcastSocket ans usPort u = (r, u') \<Longrightarrow> udp_ok u'"
  unfolding InitBroadcastSocket_def by (erule open_socket_ok, assumption) auto

lemma begin_rev_thread_ok:
  assumes "udp_ok u" and "m_bStopUDPRevThread u"
  shows "udp_ok (begin_rev_thread ok u)"
proof (cases ok)
  case True
  have "rev_running (begin_rev_thread ok u) = insert (next_rev u) (rev_running u)"
    using True by (auto simp: begin_rev_thread_def rev_running_def)
  moreover have "next_rev u \<notin> rev_running u" "finite (rev_running u)"
    using assms(1) finite_subset by (auto simp: udp_ok_def)
  ultimately show ?thesis using assms True by (auto simp: udp_ok_def begin_rev_thread_def)
next
  case False
  then show ?thesis using assms by (simp add: udp_ok_def begin_rev_thread_def rev_running_def)
qed

lemma StartRecive_ok:
  assumes "udp_ok u" and "StartRecive ans p u = Some (r, u')"
  shows "udp_ok u'"
proof -
  let ?u = "(case m_hRevThread u of ThreadHandle k \<Rightarrow> (WantStopThread u)\<lparr>m_hRevThread := InvalidThread\<rparr> | _ \<Rightarrow> WantStopThread u)
      \<lparr>m_addrRevice := (fst (m_addrRevice u), p)\<rparr>"
  have "udp_ok ?u \<and> m_bStopUDPRevThread ?u"
    using assms(1) by (cases "m_hRevThread u") (auto simp: udp_ok_def WantStopThread_def rev_running_def)
  then have "udp_ok (begin_rev_thread (thread_begins ans) ?u)" using begin_rev_thread_ok by blast
  moreover have "u' = begin_rev_thread (thread_begins ans) ?u"
    using assms(2) by (cases "m_hRevThread u") (auto simp: StartRecive_def Let_def WantStopThread_def split: if_splits)
  ultimately show ?thesis by simp
qed

lemma sendto_ok:
  assumes "udp_ok u"
  shows "udp_ok (snd (sendto ok bs addr u))"
proof (cases "snd (sendto ok bs addr u) = u")
  case False
  then have "sent (snd (sendto ok bs addr u)) \<noteq> []" by (auto simp: sendto_def split: option.splits)
  then show ?thesis by (intro udp_okI_same [OF assms]) (auto simp: sendto_def split: option.splits)
qed (use assms in simp)

lemma rev_pass_ok:
  assumes "udp_ok u" and "rev_threads u k = Some True"
  shows "udp_ok (rev_pass k arrives u) \<and> rev_threads (rev_pass k arrives u) k = Some False
    \<and> (sent u = [] \<longrightarrow> rev_told (rev_pass k arrives u) = rev_told u)"
proof -
  have k: "k \<in> rev_running u" "m_bStopUDPRevThread u" using assms by (auto simp: udp_ok_def rev_running_def)
  obtain ret u1 bs where r: "recvfrom arrives u = (ret, u1, bs)" using prod_cases3 by blast
  then have u1: "rev_threads u1 = rev_threads u" "next_rev u1 = next_rev u" "rev_told u1 = rev_told u" "m_bStopUDPRevThread u1"
      "win_sockets u1 = win_sockets u" "sent u1 = sent u" "m_pRevInterface u1 = m_pRevInterface u"
    and b: "ret > 0 \<Longrightarrow> sent u \<noteq> []"
    using k(2) assms(1) by (auto simp: recvfrom_def udp_ok_def split: option.splits if_splits)
  define u2 where "u2 = rev_pass k arrives u"
  have u2: "rev_threads u2 = (rev_threads u)(k \<mapsto> False)" "next_rev u2 = next_rev u" "m_bStopUDPRevThread u2"
      "win_sockets u2 = win_sockets u" "sent u2 = sent u" "length (rev_told u2) \<le> Suc (length (rev_told u))"
      "ret \<le> 0 \<longrightarrow> rev_told u2 = rev_told u"
    using u1 by (auto simp: u2_def rev_pass_def r IsWantStopThread_def Let_def)
  have run: "rev_running u2 = rev_running u - {k}" using u2(1) by (auto simp: rev_running_def)
  have "finite (rev_running u)" using assms(1) finite_subset by (auto simp: udp_ok_def)
  then have "Suc (card (rev_running u2)) = card (rev_running u)" using k(1) run card_Suc_Diff1 by metis
  then have "udp_ok u2" using assms(1) u2 run by (auto simp: udp_ok_def)
  then show ?thesis using u2 b unfolding u2_def [symmetric] by auto
qed

lemma udp_step_ok: "udp_step u u' \<Longrightarrow> udp_ok u \<Longrightarrow> udp_ok u'"
proof (induction rule: udp_step.induct)
  case (starts ans p u r u')
  obtain ok u1 where i: "InitBroadcastSocket ans p u = (ok, u1)" by fastforce
  have "udp_ok u1" using InitBroadcastSocket_ok [OF starts(2) i] .
  then show ?case using starts(1) i StartRecive_ok by (auto simp: udp_Start_def split: if_splits option.splits)
next
  case (passes u k arrives)
  then show ?case using rev_pass_ok by blast
next
  case (ends u r u')
  have "udp_ok (WantStopThread u)" using ends(2) by (auto simp: udp_ok_def WantStopThread_def rev_running_def)
  moreover have "udp_ok (snd (closesocket a v))" if "udp_ok v" for a v
    using that by (auto simp: closesocket_def udp_ok_def rev_running_def)
  moreover have "udp_ok (snd (WSACleanup v))" if "udp_ok v" for v
    using that by (auto simp: WSACleanup_def udp_ok_def rev_running_def)
  ultimately show ?case using ends(1) by (auto simp: udp_Stop_def Let_def split_beta split: if_splits)
qed (use sendto_ok in \<open>fastforce simp: SendData_broadcast_def SendData_addr_def SendData_ip_def send_result_def rbind_eq_Inr split: if_splits\<close>)+

lemma udp_reachable: "udp_step\<^sup>*\<^sup>* u u' \<Longrightarrow> udp_ok u \<Longrightarrow> udp_ok u'"
  by (induction rule: rtranclp_induct) (auto intro: udp_step_ok)

lemma CUDPSocket_ok: "udp_ok (CUDPSocket wsa_ok iface)"
  by (simp add: udp_ok_def CUDPSocket_def WSACleanup_def rev_running_def Let_def)

section \<open>Properties\<close>

text \<open>C39: a start asks the thread that it begins to stop, and nothing takes that back: the thread ends after its first
  pass, all starts together pass on no more datagrams than there were starts, and none as long as the socket has sent nothing,
  because it is never bound.\<close>

theorem listener_hears_once:
  assumes "udp_step\<^sup>*\<^sup>* (CUDPSocket wsa_ok iface) u"
  shows "length (rev_told u) \<le> next_rev u
    \<and> (\<forall>k arrives. rev_threads u k = Some True \<longrightarrow> rev_threads (rev_pass k arrives u) k = Some False
         \<and> (sent u = [] \<longrightarrow> rev_told (rev_pass k arrives u) = rev_told u))"
  using rev_pass_ok udp_reachable [OF assms CUDPSocket_ok] by (auto simp: udp_ok_def)

text \<open>A socket that is started.\<close>

definition good_start :: udp_answers where
  "good_start = \<lparr>new_socket = Some 100, broadcast_set = True, timeout_set = True, thread_begins = True\<rparr>"

definition listening :: udp where "listening = snd (the (udp_Start good_start 3601 (CUDPSocket True True)))"

lemmas udp_defs = udp_Start_def InitBroadcastSocket_def open_socket_def StartRecive_def WantStopThread_def still_runs_def begin_rev_thread_def
  CUDPSocket_def good_start_def INADDR_ANY_def INADDR_BROADCAST_def UDP_INVALID_SOCKET_def

theorem listener_hears_once_witness:
  "rev_threads listening 0 = Some True \<and> rev_threads (rev_pass 0 (Some ((1, 2), [65])) listening) 0 = Some False
     \<and> rev_told (rev_pass 0 (Some ((1, 2), [65])) listening) = []"
proof -
  have "udp_Start good_start 3601 (CUDPSocket True True) = Some (True, listening)" by (simp add: listening_def udp_defs)
  then have "udp_step (CUDPSocket True True) listening" by (rule udp_step.starts)
  then have r: "udp_step\<^sup>*\<^sup>* (CUDPSocket True True) listening" by blast
  have "rev_threads listening 0 = Some True" "sent listening = []" "rev_told listening = []" by (simp_all add: listening_def udp_defs)
  then show ?thesis using listener_hears_once [OF r] by simp
qed

text \<open>C2: after a start that failed because no socket could be created, the next start succeeds without one: the number of the
  failure is taken for a socket, since it is unsigned.\<close>

theorem failed_start_succeeds_later:
  assumes "m_sockServer u = 0" and "win_sockets u UDP_INVALID_SOCKET = None" and "\<not> still_runs u"
    and "new_socket ans = None" and "thread_begins ans'"
  shows "\<exists>u' u''. udp_Start ans usPort u = Some (False, u') \<and> udp_Start ans' usPort u' = Some (True, u'')
    \<and> win_sockets u'' (m_sockServer u'') = None"
proof -
  let ?u = "u\<lparr>m_sockServer := UDP_INVALID_SOCKET\<rparr>"
  have "udp_Start ans usPort u = Some (False, ?u)"
    using assms(1,4) by (simp add: udp_Start_def InitBroadcastSocket_def open_socket_def UDP_INVALID_SOCKET_def)
  moreover have "UDP_INVALID_SOCKET > 0" by (simp add: UDP_INVALID_SOCKET_def word_gt_0)
  then have "InitBroadcastSocket ans' usPort ?u = (True, ?u)" by (simp add: InitBroadcastSocket_def open_socket_def)
  moreover have "\<exists>u''. StartRecive ans' usPort ?u = Some (True, u'') \<and> win_sockets u'' (m_sockServer u'') = None"
    using assms(2,3,5) by (cases "m_hRevThread u") (auto simp: StartRecive_def WantStopThread_def still_runs_def begin_rev_thread_def Let_def)
  ultimately show ?thesis by (auto simp: udp_Start_def)
qed

theorem failed_start_succeeds_later_witness:
  "\<exists>u' u''. udp_Start (good_start\<lparr>new_socket := None\<rparr>) 3601 (CUDPSocket True True) = Some (False, u')
     \<and> udp_Start good_start 3601 u' = Some (True, u'') \<and> win_sockets u'' (m_sockServer u'') = None"
  by (rule failed_start_succeeds_later) (simp_all add: udp_defs)

end
