(* ===== verification/TextFormat.thy ===== *)
theory TextFormat
  imports TextConv
begin

text \<open>
  What the recognition of messages needs of a text format: texts that are printed are parsed to the value they were printed
  from, whatever follows the zero behind them, and a buffer of zeros is no text. \<open>e\<close> is what printing and parsing depend on.
\<close>

locale text_format =
  fixes good :: "'e \<Rightarrow> 'v \<Rightarrow> bool"
    and print :: "'e \<Rightarrow> bool \<Rightarrow> 'v \<Rightarrow> wchar list"
    and parse :: "'e \<Rightarrow> wchar list \<Rightarrow> 'v option res"
  assumes parse_print: "good e v \<Longrightarrow> parse e (print e fmt v @ 0 # rest) = Inr (Some v)"
    and parse_zeros: "parse e (replicate (Suc n) 0) = Inr None"
begin

text \<open>
  A message of UTF-8 bytes is converted into a buffer of zeros with room for all but one of its characters, and what is in the
  buffer is parsed. A printed text comes through if it fits with its zero.
\<close>

lemma parse_converted:
  assumes "good e v" and "to_wide bytes = print e fmt v" and m: "m = Suc n"
  shows "rbind (GlobalUtf8ToUnicode to_wide bytes (replicate m 0) n) (\<lambda>r.
      parse e (case r of None \<Rightarrow> replicate m 0 | Some d \<Rightarrow> d))
    = Inr (if length (to_wide bytes) < n then Some v else None)"
proof (cases "length (to_wide bytes) < n")
  case True
  let ?t = "to_wide bytes"
  have "drop n (0 # replicate n (0 :: wchar)) = [0]" by (simp flip: replicate_append_same)
  moreover have "n - length ?t = Suc (n - Suc (length ?t))" using True by simp
  ultimately have "GlobalUtf8ToUnicode to_wide bytes (replicate m 0) n = Inr (Some (?t @ 0 # drop (Suc (length ?t)) (replicate m 0)))"
    using True by (simp add: GlobalUtf8ToUnicode_def mem_write_def min_def replicate_append_same m)
  then show ?thesis using parse_print [OF assms(1), of fmt] assms(2) True by simp
next
  case False
  then show ?thesis using parse_zeros [of e n] by (simp add: GlobalUtf8ToUnicode_def m)
qed

end

end
