(* ===== verification/Signup.thy ===== *)
theory Signup
  imports JsonProperties JsonTree TextFormat
begin

text \<open>
  The recognition of messages: the template \<^verbatim>\<open>NetSocketDataParse.cpp\<close> and the parser of the request to sign up,
  \<^verbatim>\<open>ClientSignupNetSocketDataParse.cpp\<close>, which work on the items that the JSON parser builds.
\<close>

section \<open>The template\<close>


section \<open>Names\<close>

definition wide :: "string \<Rightarrow> wchar list" where
  "wide s = map (\<lambda>c. of_nat (of_char c)) s"

definition JSON_COMMON_CONTENT_KEY :: "wchar list" where "JSON_COMMON_CONTENT_KEY = wide ''content''"
definition JSON_COMMON_CTYPE_KEY :: "wchar list" where "JSON_COMMON_CTYPE_KEY = wide ''ctype''"
definition JSON_COMMON_CVALUE_KEY :: "wchar list" where "JSON_COMMON_CVALUE_KEY = wide ''cvalue''"

definition m_strRequest :: "wchar list" where "m_strRequest = wide ''user_regist_request''"



section \<open>The library functions\<close>

text \<open>\<^verbatim>\<open>cJSON_GetObjectItem\<close> on the tree that the parser built.\<close>

definition has_name :: "wchar list \<Rightarrow> cjson \<Rightarrow> bool" where
  "has_name s c \<longleftrightarrow> (case jstring c of None \<Rightarrow> False | Some n \<Rightarrow> strcasecmp_loop n s = 0)"

definition object_item :: "cjson \<Rightarrow> wchar list \<Rightarrow> cjson option" where
  "object_item it s = find (has_name s) (child it)"





section \<open>The parser of the request to sign up\<close>

record signup =
  m_strType :: "wchar list"
  m_strSignupSql :: "wchar list"

text \<open>
  Both functions convert the data into a buffer of 1024 zeros, which stays as it is if the text does not fit, and parse
  it. \<open>env\<close> has the allocator, the floating point arithmetic and the conversion.
\<close>

record parse_env =
  env_alloc :: "nat \<Rightarrow> bool"
  env_floats :: floats
  env_wide :: "byte list \<Rightarrow> wchar list"

definition parse_message :: "parse_env \<Rightarrow> byte list \<Rightarrow> cjson option res" where
  "parse_message env bytes =
     (let unicode = replicate 1024 0 in
      rbind (GlobalUtf8ToUnicode (env_wide env) bytes unicode 1023) (\<lambda>r.
      cJSON_Parse (env_alloc env) (env_floats env) (case r of None \<Rightarrow> unicode | Some d \<Rightarrow> d)))"

definition isType :: "parse_env \<Rightarrow> signup \<Rightarrow> byte list \<Rightarrow> (bool \<times> signup) res" where
  "isType env s bytes =
     rbind (parse_message env bytes) (\<lambda>proot.
     case proot of None \<Rightarrow> Inr (False, s)
     | Some rt \<Rightarrow>
       (case object_item rt JSON_COMMON_CONTENT_KEY of None \<Rightarrow> Inr (False, s)
        | Some content \<Rightarrow>
          (case object_item content JSON_COMMON_CTYPE_KEY of None \<Rightarrow> Inr (False, s)
           | Some ptype \<Rightarrow>
               if jtype ptype = cJSON_String
               then (case valuestring ptype of
                       None \<Rightarrow> Inl NullPointer
                     | Some v \<Rightarrow> let s = s\<lparr>m_strType := v\<rparr> in Inr (m_strType s = m_strRequest, s))
               else Inr (False, s))))"



section \<open>Parsing what was printed\<close>

text \<open>A printed item is parsed also if more than one zero follows it.\<close>

lemma cJSON_Parse_padded:
  assumes "\<forall>n. alloc n" and "exact_integers fl" and "canonical False it"
  shows "cJSON_Parse alloc fl (json_text fl fmt depth it @ 0 # rest) = Inr (Some it)"
proof -
  let ?t = "json_text fl fmt depth it"
  have "skip (?t @ 0 # rest) = Inr (?t @ 0 # rest)" by (rule skip_text [OF json_text_first [OF assms(2,3)]])
  moreover have "parse_value alloc fl (enough_fuel (?t @ 0 # rest)) (?t @ 0 # rest) = Inr (Parsed it (0 # rest))"
    using parse_value_text [OF assms, of fmt depth "enough_fuel (?t @ 0 # rest)"] canonical_unnamed [OF assms(3)]
    by (simp add: parses_to_def enough_fuel_def del: parse_value.simps)
  ultimately show ?thesis
    using assms(1) [rule_format, of sizeof_cJSON] by (simp add: cJSON_Parse_def cJSON_ParseWithOpts_def)
qed

lemma cJSON_Parse_empty: "cJSON_Parse alloc fl (replicate (Suc n) 0) = Inr None"
  by (simp add: cJSON_Parse_def cJSON_ParseWithOpts_def enough_fuel_def text_null_def text_false_def text_true_def is_digit_def)

definition env_ok :: "parse_env \<Rightarrow> bool" where
  "env_ok env \<longleftrightarrow> (\<forall>n. env_alloc env n) \<and> exact_integers (env_floats env)"

text \<open>The library is a text format in this sense.\<close>

interpretation json: text_format "\<lambda>env it. env_ok env \<and> canonical False it" "\<lambda>env fmt. json_text (env_floats env) fmt 0"
    "\<lambda>env. cJSON_Parse (env_alloc env) (env_floats env)"
  by unfold_locales (auto simp: env_ok_def intro: cJSON_Parse_padded simp del: replicate.simps intro!: cJSON_Parse_empty)

lemma parse_message_text:
  assumes "env_ok env" and "canonical False it" and "env_wide env bytes = json_text (env_floats env) fmt 0 it"
  shows "parse_message env bytes = Inr (if length (env_wide env bytes) < 1023 then Some it else None)"
  unfolding parse_message_def Let_def by (rule json.parse_converted [where fmt = fmt]) (use assms in simp_all)

section \<open>Which messages are requests\<close>

definition request_type :: "cjson \<Rightarrow> cjson option" where
  "request_type it = (case object_item it JSON_COMMON_CONTENT_KEY of None \<Rightarrow> None | Some c \<Rightarrow> object_item c JSON_COMMON_CTYPE_KEY)"

definition request_value :: "cjson \<Rightarrow> cjson option" where
  "request_value it = (case object_item it JSON_COMMON_CONTENT_KEY of None \<Rightarrow> None | Some c \<Rightarrow> object_item c JSON_COMMON_CVALUE_KEY)"

definition is_request :: "cjson \<Rightarrow> bool" where
  "is_request it \<longleftrightarrow> (\<exists>t. request_type it = Some t \<and> jtype t = cJSON_String \<and> valuestring t = Some m_strRequest)"

text \<open>An item in a tree that the parser builds has a text if it is a string.\<close>

lemma object_item_typed: "typed P named it \<Longrightarrow> object_item it s = Some c \<Longrightarrow> \<exists>named. typed P named c"
proof -
  assume t: "typed P named it" and "object_item it s = Some c"
  then have "c \<in> set (child it)" by (auto simp: object_item_def find_Some_iff)
  with t show ?thesis by (cases it) (auto simp: cJSON_types split: if_splits)
qed

lemma typed_string: "typed P named t \<Longrightarrow> jtype t = cJSON_String \<Longrightarrow> \<exists>v. valuestring t = Some v"
  by (cases t) (auto simp: cJSON_types elim: string_ok.elims)

lemma request_type_typed: "typed P named it \<Longrightarrow> request_type it = Some t \<Longrightarrow> \<exists>named. typed P named t"
  unfolding request_type_def using object_item_typed by (auto split: option.splits) metis



lemma isType_text:
  assumes "env_ok env" and "canonical False it" and "env_wide env bytes = json_text (env_floats env) fmt 0 it"
  shows "\<exists>s'. isType env s bytes = Inr (length (env_wide env bytes) < 1023 \<and> is_request it, s') \<and> m_strSignupSql s' = m_strSignupSql s"
proof (cases "length (env_wide env bytes) < 1023")
  case True
  then have p: "parse_message env bytes = Inr (Some it)" using parse_message_text [OF assms] by simp
  show ?thesis
  proof (cases "object_item it JSON_COMMON_CONTENT_KEY")
    case None
    then have "\<not> is_request it" by (simp add: is_request_def request_type_def)
    then show ?thesis using p None by (simp add: isType_def)
  next
    case c: (Some c)
    show ?thesis
    proof (cases "object_item c JSON_COMMON_CTYPE_KEY")
      case None
      then have "\<not> is_request it" using c by (simp add: is_request_def request_type_def)
      then show ?thesis using p None c by (simp add: isType_def)
    next
      case t: (Some t)
      have r: "request_type it = Some t" using c t by (simp add: request_type_def)
      show ?thesis
      proof (cases "jtype t = cJSON_String")
        case True
        from request_type_typed [OF assms(2) r] obtain nm where "canonical nm t" by blast
        from typed_string [OF this True] obtain v where v: "valuestring t = Some v" by blast
        then have "is_request it \<longleftrightarrow> v = m_strRequest" using r True by (simp add: is_request_def)
        then show ?thesis using p c t True v \<open>length (env_wide env bytes) < 1023\<close> by (simp add: isType_def)
      next
        case False
        then have "\<not> is_request it" using r by (simp add: is_request_def)
        then show ?thesis using p c t False by (simp add: isType_def)
      qed
    qed
  qed
qed (use parse_message_text [OF assms] in \<open>simp add: isType_def\<close>)

section \<open>Properties\<close>

text \<open>C27: a message that is the text of an item, in either form, is taken for a request to sign up if and only if it has
  fewer than 1023 characters and its member \<^verbatim>\<open>content\<close> has a member \<^verbatim>\<open>ctype\<close> with the name of the request.\<close>

theorem requests_are_recognised:
  assumes "env_ok env" and "canonical False it" and "env_wide env bytes = json_text (env_floats env) fmt 0 it"
  shows "\<exists>s'. isType env s bytes = Inr (length (env_wide env bytes) < 1023 \<and> is_request it, s') \<and> m_strSignupSql s' = m_strSignupSql s"
  by (rule isType_text [OF assms])


text \<open>A valid request.\<close>

definition request_item :: cjson where
  "request_item = CJSON cJSON_Object None 0 0 None
     [CJSON cJSON_Object None 0 0 (Some JSON_COMMON_CONTENT_KEY)
       [CJSON cJSON_String (Some m_strRequest) 0 0 (Some JSON_COMMON_CTYPE_KEY) [],
        CJSON cJSON_Object None 0 0 (Some JSON_COMMON_CVALUE_KEY) []]]"

definition request_text :: "wchar list" where
  "request_text = json_text exact_floats False 0 request_item"

definition request_env :: parse_env where
  "request_env = \<lparr>env_alloc = \<lambda>_. True, env_floats = exact_floats, env_wide = \<lambda>_. request_text\<rparr>"

lemmas request_names = JSON_COMMON_CONTENT_KEY_def JSON_COMMON_CTYPE_KEY_def JSON_COMMON_CVALUE_KEY_def m_strRequest_def wide_def

lemma request_canonical: "canonical False request_item"
  by (simp add: request_item_def cJSON_types request_names)

lemma request_is_request: "is_request request_item \<and> (\<exists>v. request_value request_item = Some v \<and> jtype v = cJSON_Object)"
  by (simp add: is_request_def request_type_def request_value_def request_item_def object_item_def has_name_def request_names
      cJSON_types tolower_def)

lemma request_short: "length request_text < 1023"
  by (simp add: request_text_def request_item_def cJSON_types string_text_def escape_char_def request_names)

lemma request_env_ok: "env_ok request_env" "env_wide request_env bytes = json_text (env_floats request_env) False 0 request_item"
  by (simp_all add: env_ok_def request_env_def exact_floats_ok request_text_def)

theorem requests_are_recognised_witness:
  "\<exists>s'. isType request_env \<lparr>m_strType = [], m_strSignupSql = []\<rparr> [] = Inr (True, s')"
  using requests_are_recognised [OF request_env_ok(1) request_canonical request_env_ok(2)] request_short request_is_request
  by (fastforce simp: request_env_def)


end
