(* ===== verification/SocketRequest.thy ===== *)
theory SocketRequest
  imports Signup JsonTreeDuplicate
begin

text \<open>
  The messages that are sent, \<^verbatim>\<open>SocketProtocol.cpp\<close>: documents of \<^verbatim>\<open>cJSON\<close> items that are built in memory, member by
  member. What is built is recognised by the parser of \<open>Signup\<close>.
\<close>

section \<open>The builders\<close>

definition JSON_COMMON_REQUEST_TRANSITIONID :: "wchar list" where "JSON_COMMON_REQUEST_TRANSITIONID = wide ''transitionid''"
definition JSON_COMMON_REQUEST_MAGICID :: "wchar list" where "JSON_COMMON_REQUEST_MAGICID = wide ''magicid''"

text \<open>The macros of \<^verbatim>\<open>cJSON_Unicode.h\<close>.\<close>

definition cJSON_AddNullToObject :: "(nat \<Rightarrow> bool) \<Rightarrow> nat option \<Rightarrow> wchar list \<Rightarrow> json_heap \<Rightarrow> json_heap res" where
  "cJSON_AddNullToObject alloc object name h =
     (case cJSON_CreateNull alloc h of (n, h) \<Rightarrow> cJSON_AddItemToObject alloc object name n h)"

definition cJSON_AddStringToObject :: "(nat \<Rightarrow> bool) \<Rightarrow> nat option \<Rightarrow> wchar list \<Rightarrow> wchar list \<Rightarrow> json_heap \<Rightarrow> json_heap res" where
  "cJSON_AddStringToObject alloc object name s h =
     (case cJSON_CreateString alloc (Some s) h of (n, h) \<Rightarrow> cJSON_AddItemToObject alloc object name n h)"

definition CreateCommonRequestJson :: "(nat \<Rightarrow> bool) \<Rightarrow> json_heap \<Rightarrow> (nat option \<times> json_heap) res" where
  "CreateCommonRequestJson alloc h =
     (case cJSON_CreateObject alloc h of
        (rt, h) \<Rightarrow>
          rbind (cJSON_AddNullToObject alloc rt JSON_COMMON_REQUEST_TRANSITIONID h) (\<lambda>h.
          rbind (cJSON_AddNullToObject alloc rt JSON_COMMON_REQUEST_MAGICID h) (\<lambda>h. Inr (rt, h))))"

definition CreateCommonEncryptRequestJson :: "(nat \<Rightarrow> bool) \<Rightarrow> wchar list \<Rightarrow> json_heap \<Rightarrow> nat option \<times> json_heap" where
  "CreateCommonEncryptRequestJson alloc strCombinaSrc h = cJSON_CreateObject alloc h"

definition DeleteCommonRequestJson :: "nat option \<Rightarrow> json_heap \<Rightarrow> json_heap res" where
  "DeleteCommonRequestJson proot h = cJSON_Delete proot h"

definition CreateJsonContent :: "(nat \<Rightarrow> bool) \<Rightarrow> nat option \<Rightarrow> json_heap \<Rightarrow> (nat option \<times> json_heap) res" where
  "CreateJsonContent alloc pjson h =
     (if pjson \<noteq> None
      then case cJSON_CreateObject alloc h of
             (ret, h) \<Rightarrow> rbind (cJSON_AddItemToObject alloc pjson JSON_COMMON_CONTENT_KEY ret h) (\<lambda>h. Inr (ret, h))
      else Inr (None, h))"

definition WriteJsonType :: "(nat \<Rightarrow> bool) \<Rightarrow> nat option \<Rightarrow> wchar list \<Rightarrow> json_heap \<Rightarrow> (nat option \<times> json_heap) res" where
  "WriteJsonType alloc pjson strType h =
     (if pjson \<noteq> None
      then rbind (cJSON_AddStringToObject alloc pjson JSON_COMMON_CTYPE_KEY strType h) (\<lambda>h. Inr (pjson, h))
      else Inr (None, h))"

definition CrateJsonValue :: "(nat \<Rightarrow> bool) \<Rightarrow> nat option \<Rightarrow> json_heap \<Rightarrow> (nat option \<times> json_heap) res" where
  "CrateJsonValue alloc pjson h =
     (if pjson \<noteq> None
      then case cJSON_CreateObject alloc h of
             (ret, h) \<Rightarrow> rbind (cJSON_AddItemToObject alloc pjson JSON_COMMON_CVALUE_KEY ret h) (\<lambda>h. Inr (ret, h))
      else Inr (None, h))"

section \<open>Adding under a new name\<close>

text \<open>To an object without members, and behind the last member.\<close>

lemma AddItem_first:
  assumes "items h obj = Some n" "node_child n = None" and "items h x = Some m" "node_string m = None" "x \<noteq> obj" and "\<forall>n. alloc n"
  shows "cJSON_AddItemToObject alloc (Some obj) s (Some x) h = Inr (h\<lparr>strings := (strings h)(next_addr h \<mapsto> (True, s)),
      next_addr := Suc (next_addr h), items := (items h)(x \<mapsto> m\<lparr>node_string := Some (next_addr h)\<rparr>, obj \<mapsto> n\<lparr>node_child := Some x\<rparr>)\<rparr>)"
  using assms by (simp add: cJSON_AddItemToObject_def cJSON_GetObjectItem_def item_at_def set_item_def free_field_def tree_strdup_def
      cJSON_AddItemToArray_def)

lemma AddItem_behind:
  assumes ch: "children h obj (as @ [l])" and fr: "fresh_from h" and nm: "readable h (as @ [l])" "\<forall>a \<in> set (as @ [l]). \<not> named h s a"
    and l: "items h l = Some k" and x: "items h x = Some m" "node_string m = None" "x \<notin> set (as @ [l])" "x \<noteq> obj" and al: "\<forall>n. alloc n"
  shows "cJSON_AddItemToObject alloc (Some obj) s (Some x) h = Inr (h\<lparr>strings := (strings h)(next_addr h \<mapsto> (True, s)),
      next_addr := Suc (next_addr h),
      items := (items h)(l \<mapsto> k\<lparr>node_next := Some x\<rparr>, x \<mapsto> m\<lparr>node_string := Some (next_addr h), node_prev := Some l\<rparr>)\<rparr>)"
proof -
  let ?h = "h\<lparr>strings := (strings h)(next_addr h \<mapsto> (True, s)), next_addr := Suc (next_addr h),
      items := (items h)(x \<mapsto> m\<lparr>node_string := Some (next_addr h)\<rparr>)\<rparr>"
  have fr': "fresh_from ?h" using fr x(1) by (auto simp: fresh_from_def)
  have ch': "children ?h obj (as @ [l])" using ch x by (auto simp: children_def)
  then obtain n where n: "items ?h obj = Some n" "dseg (items ?h) None (node_child n) (as @ [l]) None" unfolding children_def by blast
  then have c: "node_child n = Some (hd (as @ [l]))" by (cases as) auto
  have "last_loop (loop_fuel ?h) ?h (hd (as @ [l])) = Inr l"
    using last_loop_seg [of ?h None "hd (as @ [l])" "tl (as @ [l])" "loop_fuel ?h"] n(2) c children_length [OF fr' ch'] by (cases as) auto
  then have "cJSON_AddItemToArray (Some obj) (Some x) ?h = Inr (?h\<lparr>items := (items h)(l \<mapsto> k\<lparr>node_next := Some x\<rparr>,
      x \<mapsto> m\<lparr>node_string := Some (next_addr h), node_prev := Some l\<rparr>)\<rparr>)"
    using n c l x by (simp add: cJSON_AddItemToArray_def item_at_def set_item_def suffix_object_def fun_upd_twist)
  then show ?thesis using GetObjectItem_none [OF ch fr nm] x al
    by (simp add: cJSON_AddItemToObject_def item_at_def set_item_def free_field_def tree_strdup_def)
qed

section \<open>What they build\<close>

text \<open>An object without a member, two nulls, and so on: items at consecutive addresses from \<open>n\<close> on.\<close>

definition plain_node :: "int \<Rightarrow> nat option \<Rightarrow> nat option \<Rightarrow> nat option \<Rightarrow> nat option \<Rightarrow> nat option \<Rightarrow> jnode" where
  "plain_node ty nx pv ch vs nm = \<lparr>node_next = nx, node_prev = pv, node_child = ch, node_type = ty, node_valuestring = vs,
     node_valueint = 0, node_valuedouble = 0, node_string = nm\<rparr>"

definition common_heap :: "json_heap \<Rightarrow> json_heap" where
  "common_heap h = (let n = next_addr h in
     h\<lparr>items := (items h)(n \<mapsto> plain_node cJSON_Object None None (Some (n + 1)) None None,
          n + 1 \<mapsto> plain_node cJSON_NULL (Some (n + 3)) None None None (Some (n + 2)),
          n + 3 \<mapsto> plain_node cJSON_NULL None (Some (n + 1)) None None (Some (n + 4))),
       strings := (strings h)(n + 2 \<mapsto> (True, JSON_COMMON_REQUEST_TRANSITIONID), n + 4 \<mapsto> (True, JSON_COMMON_REQUEST_MAGICID)),
       next_addr := n + 5\<rparr>)"

definition content_heap :: "json_heap \<Rightarrow> json_heap" where
  "content_heap h = (let n = next_addr h; g = common_heap h in
     g\<lparr>items := (items g)(n + 3 \<mapsto> plain_node cJSON_NULL (Some (n + 5)) (Some (n + 1)) None None (Some (n + 4)),
          n + 5 \<mapsto> plain_node cJSON_Object None (Some (n + 3)) None None (Some (n + 6))),
       strings := (strings g)(n + 6 \<mapsto> (True, JSON_COMMON_CONTENT_KEY)), next_addr := n + 7\<rparr>)"

definition type_heap :: "wchar list \<Rightarrow> json_heap \<Rightarrow> json_heap" where
  "type_heap ty h = (let n = next_addr h; g = content_heap h in
     g\<lparr>items := (items g)(n + 5 \<mapsto> plain_node cJSON_Object None (Some (n + 3)) (Some (n + 7)) None (Some (n + 6)),
          n + 7 \<mapsto> plain_node cJSON_String None None None (Some (n + 8)) (Some (n + 9))),
       strings := (strings g)(n + 8 \<mapsto> (True, ty), n + 9 \<mapsto> (True, JSON_COMMON_CTYPE_KEY)), next_addr := n + 10\<rparr>)"

definition value_heap :: "wchar list \<Rightarrow> json_heap \<Rightarrow> json_heap" where
  "value_heap ty h = (let n = next_addr h; g = type_heap ty h in
     g\<lparr>items := (items g)(n + 7 \<mapsto> plain_node cJSON_String (Some (n + 10)) None None (Some (n + 8)) (Some (n + 9)),
          n + 10 \<mapsto> plain_node cJSON_Object None (Some (n + 7)) None None (Some (n + 11))),
       strings := (strings g)(n + 11 \<mapsto> (True, JSON_COMMON_CVALUE_KEY)), next_addr := n + 12\<rparr>)"

lemmas message_defs = common_heap_def content_heap_def type_heap_def value_heap_def plain_node_def Let_def

lemmas create_defs = set_new_def new_item_def tree_strdup_def node_zero_def cJSON_CreateObject_def cJSON_CreateNull_def cJSON_CreateString_def

lemmas key_defs = JSON_COMMON_REQUEST_TRANSITIONID_def JSON_COMMON_REQUEST_MAGICID_def JSON_COMMON_CONTENT_KEY_def
  JSON_COMMON_CTYPE_KEY_def JSON_COMMON_CVALUE_KEY_def wide_def tolower_def

lemma message_fresh:
  assumes "fresh_from h"
  shows "fresh_from (common_heap h)" "fresh_from (content_heap h)" "fresh_from (type_heap ty h)" "fresh_from (value_heap ty h)"
  using assms by (auto simp: fresh_from_def message_defs)

text \<open>Each function, called in turn.\<close>

lemma CreateCommonRequestJson_ok:
  assumes "\<forall>n. alloc n"
  shows "CreateCommonRequestJson alloc h = Inr (Some (next_addr h), common_heap h)"
  by (simp add: assms CreateCommonRequestJson_def cJSON_AddNullToObject_def common_heap_def create_defs key_defs Let_def item_at_def
      set_item_def string_at_def free_field_def cJSON_AddItemToObject_def cJSON_AddItemToArray_def cJSON_GetObjectItem_def
      cJSON_strcasecmp_def suffix_object_def loop_fuel_def plain_node_def)
    (rule json_heap.equality; simp add: fun_eq_iff)

lemma CreateJsonContent_ok:
  assumes al: "\<forall>n. alloc n" and fr: "fresh_from h"
  shows "CreateJsonContent alloc (Some (next_addr h)) (common_heap h) = Inr (Some (next_addr h + 5), content_heap h)"
proof -
  let ?n = "next_addr h"
  obtain g where g: "g = (common_heap h)\<lparr>items := (items (common_heap h))(?n + 5 \<mapsto> node_zero\<lparr>node_type := cJSON_Object\<rparr>), next_addr := ?n + 6\<rparr>"
    by blast
  have c: "cJSON_CreateObject alloc (common_heap h) = (Some (?n + 5), g)"
    unfolding g using al by (simp add: common_heap_def create_defs Let_def)
  have "children g ?n ([?n + 1] @ [?n + 3])" unfolding g by (simp add: children_def message_defs)
  moreover have "fresh_from g" using message_fresh(1) [OF fr] unfolding g by (auto simp: fresh_from_def common_heap_def Let_def)
  moreover have "readable g ([?n + 1] @ [?n + 3])" unfolding g by (simp add: readable_def message_defs, blast)
  moreover have "\<forall>a \<in> set ([?n + 1] @ [?n + 3]). \<not> named g JSON_COMMON_CONTENT_KEY a" unfolding g by (simp add: named_def message_defs key_defs)
  ultimately have "cJSON_AddItemToObject alloc (Some ?n) JSON_COMMON_CONTENT_KEY (Some (?n + 5)) g = Inr (content_heap h)"
    using AddItem_behind [of g ?n "[?n + 1]" "?n + 3" JSON_COMMON_CONTENT_KEY "plain_node cJSON_NULL None (Some (?n + 1)) None None (Some (?n + 4))"
        "?n + 5" "node_zero\<lparr>node_type := cJSON_Object\<rparr>" alloc] al
    by (simp add: g message_defs node_zero_def fun_upd_twist)
  then show ?thesis using c by (simp add: CreateJsonContent_def)
qed

lemma WriteJsonType_ok:
  assumes al: "\<forall>n. alloc n"
  shows "WriteJsonType alloc (Some (next_addr h + 5)) ty (content_heap h) = Inr (Some (next_addr h + 5), type_heap ty h)"
proof -
  let ?n = "next_addr h"
  obtain g where g: "g = (content_heap h)\<lparr>items := (items (content_heap h))(?n + 7 \<mapsto> plain_node cJSON_String None None None (Some (?n + 8)) None),
      strings := (strings (content_heap h))(?n + 8 \<mapsto> (True, ty)), next_addr := ?n + 9\<rparr>"
    by blast
  have c: "cJSON_CreateString alloc (Some ty) (content_heap h) = (Some (?n + 7), g)"
    unfolding g using al by (simp add: content_heap_def create_defs Let_def plain_node_def add.commute)
  have "cJSON_AddItemToObject alloc (Some (?n + 5)) JSON_COMMON_CTYPE_KEY (Some (?n + 7)) g = Inr (type_heap ty h)"
    using al AddItem_first [of g "?n + 5" "plain_node cJSON_Object None (Some (?n + 3)) None None (Some (?n + 6))" "?n + 7"
        "plain_node cJSON_String None None None (Some (?n + 8)) None" alloc JSON_COMMON_CTYPE_KEY]
    by (simp add: g message_defs fun_upd_twist)
  then show ?thesis using c by (simp add: WriteJsonType_def cJSON_AddStringToObject_def)
qed

lemma CrateJsonValue_ok:
  assumes al: "\<forall>n. alloc n" and fr: "fresh_from h"
  shows "CrateJsonValue alloc (Some (next_addr h + 5)) (type_heap ty h) = Inr (Some (next_addr h + 10), value_heap ty h)"
proof -
  let ?n = "next_addr h"
  obtain g where g: "g = (type_heap ty h)\<lparr>items := (items (type_heap ty h))(?n + 10 \<mapsto> node_zero\<lparr>node_type := cJSON_Object\<rparr>), next_addr := ?n + 11\<rparr>"
    by blast
  have c: "cJSON_CreateObject alloc (type_heap ty h) = (Some (?n + 10), g)"
    unfolding g using al by (simp add: type_heap_def create_defs Let_def)
  have "children g (?n + 5) ([] @ [?n + 7])" unfolding g by (simp add: children_def message_defs)
  moreover have "fresh_from g" using message_fresh(3) [OF fr] unfolding g by (auto simp: fresh_from_def type_heap_def Let_def)
  moreover have "readable g ([] @ [?n + 7])" unfolding g by (simp add: readable_def message_defs, blast)
  moreover have "\<forall>a \<in> set ([] @ [?n + 7]). \<not> named g JSON_COMMON_CVALUE_KEY a" unfolding g by (simp add: named_def message_defs key_defs)
  ultimately have "cJSON_AddItemToObject alloc (Some (?n + 5)) JSON_COMMON_CVALUE_KEY (Some (?n + 10)) g = Inr (value_heap ty h)"
    using AddItem_behind [of g "?n + 5" "[]" "?n + 7" JSON_COMMON_CVALUE_KEY "plain_node cJSON_String None None None (Some (?n + 8)) (Some (?n + 9))"
        "?n + 10" "node_zero\<lparr>node_type := cJSON_Object\<rparr>" alloc] al
    by (simp add: g message_defs node_zero_def fun_upd_twist)
  then show ?thesis using c by (simp add: CrateJsonValue_def)
qed

section \<open>The document that is built\<close>

definition message_tree :: "nat \<Rightarrow> jtree" where
  "message_tree n = JTree n [JTree (n + 1) [], JTree (n + 3) [], JTree (n + 5) [JTree (n + 7) [], JTree (n + 10) []]]"

definition message_item :: "wchar list \<Rightarrow> cjson" where
  "message_item ty = CJSON cJSON_Object None 0 0 None
     [CJSON cJSON_NULL None 0 0 (Some JSON_COMMON_REQUEST_TRANSITIONID) [],
      CJSON cJSON_NULL None 0 0 (Some JSON_COMMON_REQUEST_MAGICID) [],
      CJSON cJSON_Object None 0 0 (Some JSON_COMMON_CONTENT_KEY)
        [CJSON cJSON_String (Some ty) 0 0 (Some JSON_COMMON_CTYPE_KEY) [],
         CJSON cJSON_Object None 0 0 (Some JSON_COMMON_CVALUE_KEY) []]]"

lemma message_forest: "forest (value_heap ty h) None (Some (next_addr h)) [message_tree (next_addr h)]"
  by (simp add: message_tree_def message_defs is_reference_def cJSON_types)

lemma message_values: "item_values (value_heap ty h) [message_tree (next_addr h)] = [message_item ty]"
  by (simp add: message_tree_def message_item_def message_defs text_of_def)

lemma message_canonical: "0 \<notin> set ty \<Longrightarrow> canonical False (message_item ty)"
  by (simp add: message_item_def cJSON_types key_defs)

lemma message_is_request: "is_request (message_item ty) \<longleftrightarrow> ty = m_strRequest"
  by (simp add: is_request_def request_type_def message_item_def object_item_def has_name_def key_defs cJSON_types)

lemma message_owned:
  "owned (value_heap ty h) [message_tree (next_addr h)] = map ((+) (next_addr h)) [2, 4, 6, 8, 9, 11]"
  by (simp add: message_tree_def message_defs own_strings_def opt_list_def is_reference_def const_string_def cJSON_types)

text \<open>A message: the common request with a content of a type and a value, as the functions are meant to be called.\<close>

definition request_message :: "(nat \<Rightarrow> bool) \<Rightarrow> wchar list \<Rightarrow> json_heap \<Rightarrow> (nat option \<times> json_heap) res" where
  "request_message alloc ty h =
     rbind (CreateCommonRequestJson alloc h) (\<lambda>(rt, h).
     rbind (CreateJsonContent alloc rt h) (\<lambda>(content, h).
     rbind (WriteJsonType alloc content ty h) (\<lambda>(content, h).
     rbind (CrateJsonValue alloc content h) (\<lambda>(_, h). Inr (rt, h)))))"

lemma request_message_ok:
  "\<forall>n. alloc n \<Longrightarrow> fresh_from h \<Longrightarrow> request_message alloc ty h = Inr (Some (next_addr h), value_heap ty h)"
  by (simp add: request_message_def CreateCommonRequestJson_ok CreateJsonContent_ok WriteJsonType_ok CrateJsonValue_ok)

section \<open>Properties\<close>

text \<open>C25: a message with a content of a given type, built member by member in memory, printed in either form and received, is
  recognised as a request to sign up if and only if its type is the name of that request (and its text fits).\<close>

theorem built_messages_recognised:
  assumes "\<forall>n. alloc n" and "fresh_from h" and "env_ok env" and "0 \<notin> set ty"
  shows "\<exists>rt g doc. request_message alloc ty h = Inr (Some rt, g) \<and> forest g None (Some rt) [doc] \<and> item_values g [doc] = [message_item ty]
    \<and> (\<forall>bytes fmt s. env_wide env bytes = json_text (env_floats env) fmt 0 (message_item ty) \<longrightarrow>
         (\<exists>s'. isType env s bytes = Inr (length (env_wide env bytes) < 1023 \<and> ty = m_strRequest, s')))"
proof (rule exI, rule exI, rule exI, intro conjI allI impI)
  show "request_message alloc ty h = Inr (Some (next_addr h), value_heap ty h)" by (rule request_message_ok [OF assms(1,2)])
  show "forest (value_heap ty h) None (Some (next_addr h)) [message_tree (next_addr h)]" by (rule message_forest)
  show "item_values (value_heap ty h) [message_tree (next_addr h)] = [message_item ty]" by (rule message_values)
  fix bytes fmt s
  assume t: "env_wide env bytes = json_text (env_floats env) fmt 0 (message_item ty)"
  show "\<exists>s'. isType env s bytes = Inr (length (env_wide env bytes) < 1023 \<and> ty = m_strRequest, s')"
    using isType_text [OF assms(3) message_canonical [OF assms(4)] t, of s] by (auto simp: message_is_request)
qed

definition no_items :: json_heap where
  "no_items = \<lparr>items = Map.empty, strings = Map.empty, next_addr = 0\<rparr>"

lemma no_items_fresh: "fresh_from no_items"
  by (simp add: fresh_from_def no_items_def)

definition built_env :: parse_env where
  "built_env = \<lparr>env_alloc = \<lambda>_. True, env_floats = exact_floats, env_wide = \<lambda>_. json_text exact_floats False 0 (message_item m_strRequest)\<rparr>"

lemma built_short: "length (env_wide built_env []) < 1023"
  by (simp add: built_env_def message_item_def cJSON_types string_text_def escape_char_def request_names JSON_COMMON_REQUEST_TRANSITIONID_def
      JSON_COMMON_REQUEST_MAGICID_def text_null_def)

theorem built_messages_recognised_witness:
  "\<exists>rt g doc s'. request_message (\<lambda>_. True) m_strRequest no_items = Inr (Some rt, g) \<and> item_values g [doc] = [message_item m_strRequest]
     \<and> isType built_env \<lparr>m_strType = [], m_strSignupSql = []\<rparr> [] = Inr (True, s')"
proof -
  have "env_ok built_env" by (simp add: env_ok_def built_env_def exact_floats_ok)
  moreover have "env_wide built_env [] = json_text (env_floats built_env) False 0 (message_item m_strRequest)" by (simp add: built_env_def)
  ultimately show ?thesis
    using built_messages_recognised [OF _ no_items_fresh, of "\<lambda>_. True" built_env m_strRequest] built_short by (fastforce simp: request_names)
qed

text \<open>C26: deleting a message that was built gives back the memory that was there before: every item and every string of it is
  freed once, and nothing else.\<close>

theorem built_messages_freed:
  assumes "\<forall>n. alloc n" and "fresh_from h" and "request_message alloc ty h = Inr (rt, g)"
  shows "\<exists>g'. DeleteCommonRequestJson rt g = Inr g' \<and> items g' = items h \<and> strings g' = strings h"
proof -
  let ?n = "next_addr h" and ?g = "value_heap ty h"
  have g: "rt = Some ?n" "g = ?g" using assms(3) request_message_ok [OF assms(1,2)] by simp_all
  have a: "addrs [message_tree ?n] = map ((+) ?n) [0, 1, 3, 5, 7, 10]" by (simp add: message_tree_def)
  have "owns ?g [message_tree ?n]" unfolding owns_def message_owned by (simp add: message_defs)
  then have d: "DeleteCommonRequestJson rt g = Inr (without (set (addrs [message_tree ?n])) (set (owned ?g [message_tree ?n])) ?g)"
    using cJSON_Delete_ok [OF message_forest _ _ message_fresh(4) [OF assms(2)]] unfolding g a by (simp add: DeleteCommonRequestJson_def)
  have old: "items h (?n + k) = None" "strings h (?n + k) = None" for k using assms(2) by (simp_all add: fresh_from_def)
  have "items (without (set (addrs [message_tree ?n])) (set (owned ?g [message_tree ?n])) ?g) = items h"
    unfolding a using old(1) [of 0] old(1) [of 1] old(1) [of 3] old(1) [of 5] old(1) [of 7] old(1) [of 10]
    by (auto simp: fun_eq_iff message_defs)
  moreover have "strings (without (set (addrs [message_tree ?n])) (set (owned ?g [message_tree ?n])) ?g) = strings h"
    unfolding message_owned using old(2) [of 2] old(2) [of 4] old(2) [of 6] old(2) [of 8] old(2) [of 9] old(2) [of 11]
    by (auto simp: fun_eq_iff message_defs)
  ultimately show ?thesis using d by blast
qed

theorem built_messages_freed_witness:
  "\<exists>rt g g'. request_message (\<lambda>_. True) [65] no_items = Inr (rt, g) \<and> DeleteCommonRequestJson rt g = Inr g' \<and> items g' = Map.empty"
  using built_messages_freed [OF _ no_items_fresh request_message_ok [OF _ no_items_fresh], of "\<lambda>_. True"]
    request_message_ok [OF _ no_items_fresh, of "\<lambda>_. True"] by (auto simp: no_items_def)

end
