(* ===== verification/AppFiles.thy ===== *)
theory AppFiles
  imports Prelude
begin

text \<open>
  The files of the application: the functions on paths in \<^verbatim>\<open>VerifyServer/GlobalFunc.cpp\<close> and the copy of the database
  file in \<^verbatim>\<open>VerifyServer/AppDataFileCopy.cpp\<close>. A path is the list of its characters; the file system is the set of
  its directories and the map of its files to their contents.
\<close>

section \<open>Paths\<close>

text \<open>The characters \<^verbatim>\<open>\\<close> and \<^verbatim>\<open>/\<close>.\<close>

definition backslash :: wchar where "backslash = 92"
definition slash :: wchar where "slash = 47"

definition is_separator :: "wchar \<Rightarrow> bool" where
  "is_separator c \<longleftrightarrow> c = backslash \<or> c = slash"


text \<open>\<^verbatim>\<open>GetModuleFilePath\<close>: the name of the program up to its last backslash, or all of it if there is none.\<close>

definition rfind :: "wchar \<Rightarrow> wchar list \<Rightarrow> int" where
  "rfind c s = (if c \<in> set s then int (length s) - 1 - int (length (takeWhile (\<lambda>d. d \<noteq> c) (rev s))) else -1)"

definition substr_to :: "int \<Rightarrow> wchar list \<Rightarrow> wchar list" where
  "substr_to n s = (if n < 0 then s else take (nat n) s)"

definition GetModuleFilePath :: "wchar list \<Rightarrow> wchar list" where
  "GetModuleFilePath module_file = (let csBasePath = module_file; nPos = rfind backslash csBasePath in substr_to nPos csBasePath)"


section \<open>Creating directories\<close>

record filesystem =
  dirs :: "wchar list set"
  files :: "wchar list \<Rightarrow> byte list option"

definition PathFileExists :: "wchar list \<Rightarrow> filesystem \<Rightarrow> bool" where
  "PathFileExists p fs \<longleftrightarrow> p \<in> dirs fs \<or> files fs p \<noteq> None"

text \<open>
  \<^verbatim>\<open>GetFileAttributes\<close> answers no attributes for a path that does not exist. \<open>mk\<close> is whether \<^verbatim>\<open>CreateDirectory\<close> can
  create a directory.
\<close>

definition is_directory :: "wchar list \<Rightarrow> filesystem \<Rightarrow> bool" where
  "is_directory p fs \<longleftrightarrow> p \<in> dirs fs"

definition CreateDirectory :: "(filesystem \<Rightarrow> wchar list \<Rightarrow> bool) \<Rightarrow> wchar list \<Rightarrow> filesystem \<Rightarrow> bool \<times> filesystem" where
  "CreateDirectory mk p fs = (if mk fs p then (True, fs\<lparr>dirs := insert p (dirs fs)\<rparr>) else (False, fs))"

text \<open>\<^verbatim>\<open>PathRemoveBackslash\<close> and \<^verbatim>\<open>PathAddBackslash\<close>.\<close>

definition PathRemoveBackslash :: "wchar list \<Rightarrow> wchar list" where
  "PathRemoveBackslash p = (if p \<noteq> [] \<and> last p = backslash then butlast p else p)"

definition PathAddBackslash :: "wchar list \<Rightarrow> wchar list" where
  "PathAddBackslash p = (if p = [] \<or> last p \<noteq> backslash then p @ [backslash] else p)"

text \<open>
  The loop over the path: \<open>pre\<close> is the part before \<^verbatim>\<open>tmp\<close>, in which the separators have become backslashes, and which
  is the path while the character at \<^verbatim>\<open>tmp\<close> is overwritten by zero.
\<close>

fun directory_loop :: "(filesystem \<Rightarrow> wchar list \<Rightarrow> bool) \<Rightarrow> wchar list \<Rightarrow> wchar list \<Rightarrow> filesystem \<Rightarrow> bool \<times> filesystem" where
  "directory_loop mk pre [] fs = (True, fs)"
| "directory_loop mk pre (c # cs) fs =
     (if is_separator c
      then if \<not> is_directory pre fs \<and> \<not> PathFileExists pre fs
           then let (ok, fs) = CreateDirectory mk pre fs in
                if \<not> ok then (False, fs) else directory_loop mk (pre @ [backslash]) cs fs
           else directory_loop mk (pre @ [backslash]) cs fs
      else directory_loop mk (pre @ [c]) cs fs)"

definition CreateDirectoryMulti :: "(filesystem \<Rightarrow> wchar list \<Rightarrow> bool) \<Rightarrow> wchar list option \<Rightarrow> filesystem \<Rightarrow> bool \<times> filesystem" where
  "CreateDirectoryMulti mk path fs =
     (case path of None \<Rightarrow> (False, fs)
      | Some p \<Rightarrow> directory_loop mk [] (PathAddBackslash (PathRemoveBackslash p)) fs)"








section \<open>The database file\<close>

text \<open>
  Functions of the shell: \<open>path_append\<close> is \<^verbatim>\<open>PathAppend\<close>, \<open>folder_of\<close> is \<^verbatim>\<open>PathRemoveFileSpec\<close>.
\<close>

record shell =
  path_append :: "wchar list \<Rightarrow> wchar list \<Rightarrow> wchar list"
  folder_of :: "wchar list \<Rightarrow> wchar list"
  makes :: "filesystem \<Rightarrow> wchar list \<Rightarrow> bool"
  copies :: "filesystem \<Rightarrow> wchar list \<Rightarrow> wchar list \<Rightarrow> bool"

record app_data =
  m_szAppDataPath :: "wchar list"
  m_strAppDataRootPath :: "wchar list"
  m_strFileName :: "wchar list"

text \<open>\<^verbatim>\<open>CopyFile\<close> that fails if the copy exists.\<close>

definition CopyFile :: "shell \<Rightarrow> wchar list \<Rightarrow> wchar list \<Rightarrow> filesystem \<Rightarrow> bool \<times> filesystem" where
  "CopyFile sh src dst fs =
     (case files fs src of
        None \<Rightarrow> (False, fs)
      | Some bytes \<Rightarrow> if PathFileExists dst fs \<or> \<not> copies sh fs src dst then (False, fs)
                     else (True, fs\<lparr>files := (files fs)(dst \<mapsto> bytes)\<rparr>))"

definition CreateAddDirectory :: "shell \<Rightarrow> wchar list \<Rightarrow> app_data \<times> filesystem \<Rightarrow> app_data \<times> filesystem" where
  "CreateAddDirectory sh csAddPath = (\<lambda>(a, fs).
     let a = a\<lparr>m_szAppDataPath := path_append sh (m_szAppDataPath a) csAddPath\<rparr>;
         fs = (if \<not> PathFileExists (m_szAppDataPath a) fs then snd (CreateDirectory (makes sh) (m_szAppDataPath a) fs) else fs) in
     (a\<lparr>m_strAppDataRootPath := m_szAppDataPath a\<rparr>, fs))"

text \<open>A failed assertion ends the program: \<^term>\<open>None\<close>.\<close>

definition CopyAppData :: "shell \<Rightarrow> wchar list \<Rightarrow> app_data \<times> filesystem \<Rightarrow> (app_data \<times> filesystem) option" where
  "CopyAppData sh module_file = (\<lambda>(a, fs).
     let a = a\<lparr>m_szAppDataPath := path_append sh (m_szAppDataPath a) (m_strFileName a)\<rparr>;
         strFilePath = folder_of sh (m_szAppDataPath a);
         (bCreate, fs) = (if \<not> PathFileExists strFilePath fs then CreateDirectoryMulti (makes sh) (Some strFilePath) fs else (True, fs)) in
     if \<not> bCreate then None
     else if \<not> PathFileExists (m_szAppDataPath a) fs
     then let src = path_append sh (GetModuleFilePath module_file) (m_strFileName a);
              (bCopy, fs) = CopyFile sh src (m_szAppDataPath a) fs in
          if \<not> bCopy then None else Some (a, fs)
     else Some (a, fs))"

definition CAppDataFileCopy :: "shell \<Rightarrow> wchar list \<Rightarrow> wchar list \<Rightarrow> wchar list \<Rightarrow> wchar list \<Rightarrow> filesystem \<Rightarrow> (app_data \<times> filesystem) option" where
  "CAppDataFileCopy sh appdata module_file strProject strFileName fs =
     (let a = \<lparr>m_szAppDataPath = appdata, m_strAppDataRootPath = [], m_strFileName = strFileName\<rparr> in
      CopyAppData sh module_file (CreateAddDirectory sh strProject (a, fs)))"

definition GetAppDataFileName :: "app_data \<Rightarrow> wchar list" where "GetAppDataFileName a = m_szAppDataPath a"
definition GetAppDataRootPath :: "app_data \<Rightarrow> wchar list" where "GetAppDataRootPath a = m_strAppDataRootPath a"

text \<open>Directories come and stay; only the database file may come.\<close>

lemma directory_loop_grows: "directory_loop mk pre cs fs = (ok, fs') \<Longrightarrow> files fs' = files fs \<and> dirs fs \<subseteq> dirs fs'"
  by (induction mk pre cs fs arbitrary: ok rule: directory_loop.induct)
    (force simp: CreateDirectory_def Let_def split: if_splits)+

lemma CreateAddDirectory_grows: "CreateAddDirectory sh p (a, fs) = (a', fs') \<Longrightarrow> files fs' = files fs \<and> dirs fs \<subseteq> dirs fs'"
  by (auto simp: CreateAddDirectory_def CreateDirectory_def Let_def split: if_splits)

lemma CAppDataFileCopy_file:
  assumes "CAppDataFileCopy sh appdata module_file project name fs = Some (a, fs')"
    and "GetAppDataFileName a \<notin> dirs fs'"
  shows "files fs' (GetAppDataFileName a)
      = (case files fs (GetAppDataFileName a) of Some bytes \<Rightarrow> Some bytes | None \<Rightarrow> files fs (path_append sh (GetModuleFilePath module_file) name))
    \<and> files fs' (GetAppDataFileName a) \<noteq> None \<and> (\<forall>p. p \<noteq> GetAppDataFileName a \<longrightarrow> files fs' p = files fs p)"
proof -
  obtain a1 fs1 where c: "CreateAddDirectory sh project (\<lparr>m_szAppDataPath = appdata, m_strAppDataRootPath = [], m_strFileName = name\<rparr>, fs) = (a1, fs1)"
    by fastforce
  have f1: "files fs1 = files fs" "m_strFileName a1 = name" using CreateAddDirectory_grows [OF c] c
    by (auto simp: CreateAddDirectory_def Let_def)
  let ?p = "path_append sh (m_szAppDataPath a1) name"
  obtain b fs2 where d: "(if \<not> PathFileExists (folder_of sh ?p) fs1 then CreateDirectoryMulti (makes sh) (Some (folder_of sh ?p)) fs1 else (True, fs1)) = (b, fs2)"
    by fastforce
  have f2: "files fs2 = files fs" using d f1(1) directory_loop_grows by (fastforce simp: CreateDirectoryMulti_def split: if_splits)
  from assms(1) have r: "(if \<not> b then None else if \<not> PathFileExists ?p fs2
      then let (bCopy, fs) = CopyFile sh (path_append sh (GetModuleFilePath module_file) name) ?p fs2 in
           if \<not> bCopy then None else Some (a1\<lparr>m_szAppDataPath := ?p\<rparr>, fs)
      else Some (a1\<lparr>m_szAppDataPath := ?p\<rparr>, fs2)) = Some (a, fs')"
    by (simp add: CAppDataFileCopy_def c CopyAppData_def f1(2) d Let_def cong: if_cong)
  then have p: "GetAppDataFileName a = ?p" by (auto simp: GetAppDataFileName_def Let_def split: if_splits prod.splits)
  show ?thesis
  proof (cases "PathFileExists ?p fs2")
    case True
    then have "fs' = fs2" using r by (auto split: if_splits)
    then show ?thesis using True assms(2) p f2 by (auto simp: PathFileExists_def split: option.splits)
  next
    case False
    then have "CopyFile sh (path_append sh (GetModuleFilePath module_file) name) ?p fs2 = (True, fs')"
      using r by (auto split: if_splits prod.splits)
    then show ?thesis using False p f2 by (auto simp: CopyFile_def PathFileExists_def split: option.splits if_splits)
  qed
qed

section \<open>Properties\<close>


text \<open>\<^verbatim>\<open>C:\A\BB\<close> below \<^verbatim>\<open>C:\<close>.\<close>

definition parent_exists :: "filesystem \<Rightarrow> wchar list \<Rightarrow> bool" where
  "parent_exists fs p \<longleftrightarrow> GetModuleFilePath p \<in> dirs fs"



text \<open>When the constructor of \<^verbatim>\<open>CAppDataFileCopy\<close> has returned, the database file is there: the one that was there before, or
  else the copy of the one beside the program; no other file has changed.\<close>

theorem database_file_is_there:
  assumes "CAppDataFileCopy sh appdata module_file project name fs = Some (a, fs')"
    and "GetAppDataFileName a \<notin> dirs fs'"
  shows "files fs' (GetAppDataFileName a)
      = (case files fs (GetAppDataFileName a) of Some bytes \<Rightarrow> Some bytes | None \<Rightarrow> files fs (path_append sh (GetModuleFilePath module_file) name))
    \<and> files fs' (GetAppDataFileName a) \<noteq> None \<and> (\<forall>p. p \<noteq> GetAppDataFileName a \<longrightarrow> files fs' p = files fs p)"
  by (rule CAppDataFileCopy_file [OF assms])

definition plain_shell :: shell where
  "plain_shell = \<lparr>path_append = \<lambda>p q. p @ [backslash] @ q, folder_of = GetModuleFilePath, makes = parent_exists, copies = \<lambda>_ _ _. True\<rparr>"

text \<open>A program \<^verbatim>\<open>P\X\<close> with the database \<^verbatim>\<open>P\N\<close> and the folder \<^verbatim>\<open>D\<close>.\<close>

definition disk :: filesystem where "disk = \<lparr>dirs = {[68], [80]}, files = [[80, 92, 78] \<mapsto> [1, 2, 3]]\<rparr>"

theorem database_file_is_there_witness:
  "\<exists>a fs'. CAppDataFileCopy plain_shell [68] [80, 92, 88] [86] [78] disk = Some (a, fs') \<and> files fs' (GetAppDataFileName a) = Some [1, 2, 3]"
proof -
  have "\<exists>a fs'. CAppDataFileCopy plain_shell [68] [80, 92, 88] [86] [78] disk = Some (a, fs') \<and> GetAppDataFileName a = [68, 92, 86, 92, 78]
      \<and> GetAppDataFileName a \<notin> dirs fs'"
    by (simp add: CAppDataFileCopy_def CreateAddDirectory_def CopyAppData_def plain_shell_def disk_def PathFileExists_def CreateDirectory_def
        parent_exists_def GetModuleFilePath_def rfind_def substr_to_def backslash_def CopyFile_def GetAppDataFileName_def Let_def)
  then obtain a fs' where "CAppDataFileCopy plain_shell [68] [80, 92, 88] [86] [78] disk = Some (a, fs')"
      "GetAppDataFileName a = [68, 92, 86, 92, 78]" "GetAppDataFileName a \<notin> dirs fs'" by blast
  with database_file_is_there [OF this(1,3)] show ?thesis
    by (auto simp: disk_def plain_shell_def GetModuleFilePath_def rfind_def substr_to_def backslash_def)
qed

end
