(* ===== verification/AppEntity.thy ===== *)
theory AppEntity
  imports AppFiles Receiver SqlManager TcpApi UdpSocket Signup
begin

text \<open>
  The objects of the application, \<^verbatim>\<open>AppEntity.cpp\<close> and \<^verbatim>\<open>ClientManager.cpp\<close>: they construct the parts that the other theories
  model, in the order of the code, and take them apart.
\<close>

section \<open>The application object\<close>

definition PROJECT_NAME :: "wchar list" where "PROJECT_NAME = wide ''VerifyServer''"
definition DATABASE_NAME :: "wchar list" where "DATABASE_NAME = wide ''DB'' @ [backslash] @ wide ''dbdata.db''"

text \<open>The answers of Windows and SQLite: to the receiver's ports, to the server's start, for the files, for the database.\<close>

record app_answers =
  aa_created :: "nat \<Rightarrow> create_answers"
  aa_threads :: "nat \<Rightarrow> create_answers"
  aa_start :: start_answers
  aa_shell :: shell
  aa_appdata :: "wchar list"
  aa_module :: "wchar list"
  aa_utf8 :: "wchar list \<Rightarrow> byte list"
  aa_open :: "byte list \<Rightarrow> int \<times> nat option"

text \<open>The receiver and the proxy are there or deleted; the server holds a pointer to the receiver.\<close>

record app_entity =
  app_recevier :: "receiver option"
  m_tcpServer :: tcp_server
  m_pDbManager :: sql_manager
  m_pdbproxy :: "nat option option"
  m_pAppFileData :: app_data

text \<open>\<^term>\<open>None\<close> if an assertion of the file copy fails. The address is that of \<open>aa_start\<close>; whether the server runs is not looked at.\<close>

definition CAppEntity :: "app_answers \<Rightarrow> filesystem \<Rightarrow> (app_entity \<times> filesystem) res option" where
  "CAppEntity a fs =
     (let rcv = CThreadSocketRecevier (aa_created a) (aa_threads a) True;
          srv = snd (Start (aa_start a) True tcp_init);
          dbm = CDBSqlManager in
      case CAppDataFileCopy (aa_shell a) (aa_appdata a) (aa_module a) PROJECT_NAME DATABASE_NAME fs of
        None \<Rightarrow> None
      | Some (ad, fs) \<Rightarrow>
          Some (rbind (CDBSqlite3Proxy (aa_utf8 a) (aa_open a) (GetAppDataFileName ad)) (\<lambda>db.
            Inr (\<lparr>app_recevier = Some rcv, m_tcpServer = srv, m_pDbManager = AttachDB True dbm, m_pdbproxy = Some db,
                  m_pAppFileData = ad\<rparr>, fs))))"

text \<open>The body of the destructor; the server is a member, which is destroyed after the body.\<close>

definition CAppEntity_body :: "app_entity \<Rightarrow> app_entity" where
  "CAppEntity_body e = e\<lparr>app_recevier := None, m_pDbManager := DetachDB (m_pDbManager e), m_pdbproxy := None\<rparr>"

definition CTcpServer_destroy ::
    "(os_answers \<times> completion) list \<Rightarrow> (os_answers \<times> completion) list \<Rightarrow> tcp_server \<Rightarrow> tcp_server res" where
  "CTcpServer_destroy sched1 sched2 st = (if m_bRuning st then rbind (Stop sched1 sched2 st) (\<lambda>(_, st). Inr st) else Inr st)"

definition CAppEntity_destroy ::
    "(os_answers \<times> completion) list \<Rightarrow> (os_answers \<times> completion) list \<Rightarrow> app_entity \<Rightarrow> app_entity res" where
  "CAppEntity_destroy sched1 sched2 e =
     (let e = CAppEntity_body e in
      rbind (CTcpServer_destroy sched1 sched2 (m_tcpServer e)) (\<lambda>srv. Inr (e\<lparr>m_tcpServer := srv\<rparr>)))"

definition app_Operate :: "app_entity \<Rightarrow> int" where "app_Operate e = -1"

text \<open>What a worker of the server needs when it tells the receiver something.\<close>

definition telling_receiver :: "app_entity \<Rightarrow> receiver option res" where
  "telling_receiver e =
     (if m_pRecevier (m_tcpServer e) then (case app_recevier e of None \<Rightarrow> Inl UseAfterFree | Some r \<Rightarrow> Inr (Some r)) else Inr None)"

section \<open>The client manager\<close>

definition UDP_PORT :: "16 word" where "UDP_PORT = 3601"

definition CClientManager :: "bool \<Rightarrow> udp_answers \<Rightarrow> (bool \<times> udp) option" where
  "CClientManager wsa_ok ans = udp_Start ans UDP_PORT (CUDPSocket wsa_ok True)"

definition CClientManager_destroy :: "udp \<Rightarrow> (bool \<times> udp) option" where
  "CClientManager_destroy u = udp_Stop u"

definition rev_data :: "byte list \<Rightarrow> int" where "rev_data bs = 0"

section \<open>Lemmas\<close>

lemma Start_receiver: "\<not> m_bRuning st \<Longrightarrow> m_pRecevier (snd (Start ans p st)) = p"
proof -
  have t: "start_threads ok i s = (r, s') \<Longrightarrow> m_pRecevier s' = m_pRecevier s" for ok i s r s'
    by (induction ok i s arbitrary: r s' rule: start_threads.induct) (subst (asm) start_threads.simps, auto simp: call_def split: if_splits)
  have p: "m_pRecevier (post_accepts n s) = m_pRecevier s" for n s
    by (induction n arbitrary: s) (auto simp: post_status_def)
  assume "\<not> m_bRuning st"
  then show ?thesis by (auto simp: Start_def Let_def call_def p split: prod.splits dest!: t)
qed

lemma CAppEntity_parts:
  assumes "CAppEntity a fs = Some (Inr (e, fs'))"
  shows "m_tcpServer e = snd (Start (aa_start a) True tcp_init)" "app_recevier e \<noteq> None"
    "CAppDataFileCopy (aa_shell a) (aa_appdata a) (aa_module a) PROJECT_NAME DATABASE_NAME fs = Some (m_pAppFileData e, fs')"
    "CDBSqlite3Proxy (aa_utf8 a) (aa_open a) (GetAppDataFileName (m_pAppFileData e)) = Inr (the (m_pdbproxy e))"
    "m_pdbproxy e \<noteq> None" "m_pDB (m_pDbManager e)"
  using assms by (auto simp: CAppEntity_def Let_def rbind_def AttachDB_def split: option.splits sum.splits)

lemma tcp_init_stopped: "\<not> m_bRuning tcp_init"
  by (simp add: tcp_init_def)

text \<open>A bind that fails, as it does for the address \<^verbatim>\<open>0,0,0,0\<close>, leaves an application whose server does not run.\<close>

lemma failed_bind_goes_unnoticed:
  assumes "CAppEntity a fs = Some (Inr (e, fs'))" and "\<not> st_bind (aa_start a)"
  shows "\<not> m_bRuning (m_tcpServer e)"
  unfolding CAppEntity_parts(1) [OF assms(1)] using assms(2) tcp_init_stopped by (simp add: Start_def Let_def call_def)

text \<open>Between the body of the destructor and the end of the server every telling of a worker goes to the deleted receiver.\<close>

lemma tellings_after_destruction:
  assumes "CAppEntity a fs = Some (Inr (e, fs'))"
  shows "telling_receiver e \<noteq> Inl UseAfterFree \<and> telling_receiver (CAppEntity_body e) = Inl UseAfterFree"
  using CAppEntity_parts(1,2) [OF assms] Start_receiver [OF tcp_init_stopped]
  by (auto simp: telling_receiver_def CAppEntity_body_def)

section \<open>Properties\<close>








end
