(* ===== verification/Operations.thy ===== *)
theory Operations
  imports Prelude
begin

text \<open>
  The templates of the application: an operation in three phases (\<^verbatim>\<open>Operater.cpp\<close>, \<^verbatim>\<open>DBSqlExecOperate.cpp\<close>) and data that
  is prepared and sent (\<^verbatim>\<open>NetSocketData.cpp\<close>). The virtual functions are arguments that change a state of their own.
\<close>

section \<open>Operations\<close>

text \<open>\<^verbatim>\<open>Operate\<close> goes on to the next phase when the phase before has succeeded.\<close>

definition Operate :: "('s \<Rightarrow> bool \<times> 's) \<Rightarrow> ('s \<Rightarrow> bool \<times> 's) \<Rightarrow> ('s \<Rightarrow> bool \<times> 's) \<Rightarrow> 's \<Rightarrow> 's" where
  "Operate prepare do_it finish s =
     (let (ok, s) = prepare s in
      if \<not> ok then s
      else
        let (ok, s) = do_it s in
        if \<not> ok then s else snd (finish s))"

definition OperatePrepare :: "'s \<Rightarrow> bool \<times> 's" where "OperatePrepare s = (True, s)"
definition DoOperate :: "'s \<Rightarrow> bool \<times> 's" where "DoOperate s = (False, s)"
definition OperateDone :: "'s \<Rightarrow> bool \<times> 's" where "OperateDone s = (False, s)"

text \<open>The operation that should execute a statement keeps the manager only, and its phase does nothing.\<close>

record sql_operate =
  m_pdbmgr :: "nat option"

definition CDBSqlExecOperate :: "nat \<Rightarrow> wchar list \<Rightarrow> sql_operate" where
  "CDBSqlExecOperate pdbmgr sql = \<lparr>m_pdbmgr = Some pdbmgr\<rparr>"

definition sql_DoOperate :: "sql_operate \<times> 's \<Rightarrow> bool \<times> sql_operate \<times> 's" where
  "sql_DoOperate s = (False, s)"

lemma sql_operate_executes_nothing: "Operate OperatePrepare sql_DoOperate OperateDone s = s"
  by (simp add: Operate_def OperatePrepare_def sql_DoOperate_def)

text \<open>The last phase runs exactly when both before it have succeeded.\<close>

lemma Operate_finishes:
  "Operate prepare do_it finish s =
     (if fst (prepare s) \<and> fst (do_it (snd (prepare s))) then snd (finish (snd (do_it (snd (prepare s)))))
      else if fst (prepare s) then snd (do_it (snd (prepare s))) else snd (prepare s))"
  by (simp add: Operate_def split_beta)

section \<open>Sending\<close>

text \<open>
  \<open>prepare\<close> fills a block of 1024 zeros with room for 1023 bytes; its answer is a \<^verbatim>\<open>bool\<close>, which becomes the length. What
  was passed to \<^verbatim>\<open>SendData\<close> of the proxy is the second result.
\<close>

definition BeSend :: "(byte list \<Rightarrow> nat \<Rightarrow> bool \<times> byte list) \<Rightarrow> bool \<Rightarrow> int \<times> byte list option" where
  "BeSend prepare has_proxy =
     (let nret = -1; (ok, send_data) = prepare (replicate 1024 0) 1023; len = (if ok then 1 else 0 :: nat) in
      if has_proxy \<and> len > 0 then (nret, Some (take len send_data)) else (nret, None))"

text \<open>So no more than the first byte is sent, and the answer is always \<open>-1\<close>.\<close>

lemma BeSend_one_byte: "BeSend prepare has_proxy = (r, Some bs) \<Longrightarrow> r = -1 \<and> length bs \<le> 1"
  by (auto simp: BeSend_def Let_def split_beta split: if_splits)

end
