(* ===== verification/Spec2Isabelle.thy ===== *)
theory Spec2Isabelle
  imports TcpStop Buffer MemPool UseCount SqlQueue OmniTime OmniCond JsonProperties JsonTreeProperties OmniThreadProperties Receiver Service ServiceInstall UdpSocket SocketRequest AppEntity Operations
begin

text \<open>
  \<^bold>\<open>The program.\<close> VerifyServer is a Windows service in C++: a TCP server on a completion port receives the
  messages of its clients, the application parses them as JSON, stores data through SQLite and answers. Its
  parts, all under \<^verbatim>\<open>src/VerifyServer\<close>, and the theories that model them:

  \<^item> \<^verbatim>\<open>socket/tcpserver/TcpServer.cpp\<close>: the server. \<open>Packet\<close> has the wire format (\<^verbatim>\<open>PrepareSendBuf\<close>,
    \<^verbatim>\<open>GetPacketLen\<close>), \<open>TcpStream\<close> the reassembly of packets from the pieces TCP delivers (\<^verbatim>\<open>SaveData\<close>),
    \<open>TcpContext\<close> the socket and I/O contexts with their free lists and the map of clients, \<open>TcpServer\<close> the
    overlapped calls, the handlers and one pass of a worker, \<open>TcpApi\<close> the interface (\<^verbatim>\<open>Start\<close>, \<^verbatim>\<open>Stop\<close>,
    \<^verbatim>\<open>Send\<close>, \<^verbatim>\<open>SendEx\<close>, \<^verbatim>\<open>Disconnect\<close>, \<^verbatim>\<open>GetClientAddress\<close>). \<open>TcpSafety\<close> proves the invariant of a running
    server over every order of completions and calls, \<open>TcpDelivery\<close> what is sent and told, \<open>TcpRun\<close> and \<open>TcpSent\<close> what is told and sent over whole runs, \<open>TcpStop\<close> how it ends,
    \<open>TcpProperties\<close> states the properties.
  \<^item> \<^verbatim>\<open>socket/tcpserver/Buffer.cpp\<close>: the growing byte buffer, in \<open>Buffer\<close>.
  \<^item> \<^verbatim>\<open>IOCompletePort/MemAlloctor.cpp\<close>: the memory pool of the completion port framework, in \<open>MemPool\<close>.
  \<^item> \<^verbatim>\<open>common/UseCount.cpp\<close>: the shared reference count, in \<open>UseCount\<close>.
  \<^item> \<^verbatim>\<open>DataBase/DBSqlManager.cpp\<close>, \<^verbatim>\<open>VerifyServer/DBSqlite3Proxy.cpp\<close>, \<^verbatim>\<open>VerifyServer/GlobalFunc.cpp\<close>: the queue
    of SQL statements with its thread, the proxy and the text conversions, in \<open>SqlManager\<close> and \<open>TextConv\<close>; the callers
    that queue, open and close and the threads interleave in \<open>SqlQueue\<close>.
  \<^item> \<^verbatim>\<open>omnithread/nt.cpp\<close>: clock arithmetic in \<open>OmniTime\<close>, conditions and semaphores in \<open>OmniCond\<close>, thread objects
    (construction, start, exit, join, and the objects foreign threads borrow) in \<open>OmniThread\<close> and \<open>OmniThreadProperties\<close>.
  \<^item> \<^verbatim>\<open>VerifyServer/cJSON_Unicode.cpp\<close>: \<open>JsonItem\<close> (items and numbers), \<open>JsonParse\<close>, \<open>JsonPrint\<close>,
    \<open>JsonMinify\<close> (the code); \<open>JsonText\<close> (what is to be printed), \<open>JsonTotal\<close> (parsing arbitrary texts),
    \<open>JsonRoundTrip\<close>, \<open>JsonBuffer\<close>, \<open>JsonProperties\<close>. \<open>JsonTree\<close> has the operations on items in memory, \<open>JsonTreeList\<close> what
    they do to the list of children, \<open>JsonTreeForest\<close> and \<open>JsonTreeDuplicate\<close> what they do to whole documents,
    \<open>JsonTreeProperties\<close> the properties.

  \<^item> \<^verbatim>\<open>IOCompletePort/IOCompletePort.cpp\<close>: the completion port framework. \<open>CompletionPort\<close> has the port, its workers, posting,
    creation and the destruction in batches of 64 threads, \<open>CompletionPortRun\<close> every order of their steps with an invariant,
    \<open>CompletionPortEnd\<close> the end of every run, \<open>CompletionPortProperties\<close> the properties. \<open>Receiver\<close> is the user of the framework,
    \<^verbatim>\<open>VerifyServer/ThreadSocketRecevier.cpp\<close>, which takes the texts of the server and posts operations.
  \<^item> \<^verbatim>\<open>VerifyServer/Service.cpp\<close>: \<open>Service\<close> has the status of the Windows service, its main function, its working thread and
    the handler of controls as steps of three threads; \<open>ServiceInstall\<close> the installation, the removal and running as a service.
  \<^item> \<^verbatim>\<open>socket/UdpSocket/UDPSocket.cpp\<close>: the datagram socket with its receiving thread, in \<open>UdpSocket\<close>.
  \<^item> \<^verbatim>\<open>VerifyServer/NetSocketDataParse.cpp\<close>, \<^verbatim>\<open>ClientSignupNetSocketDataParse.cpp\<close>: the recognition of messages, in \<open>Signup\<close>;
    \<^verbatim>\<open>SocketProtocol.cpp\<close>: their construction from items in memory, in \<open>SocketRequest\<close>.
  \<^item> \<^verbatim>\<open>VerifyServer/GlobalFunc.cpp\<close>, \<^verbatim>\<open>AppDataFileCopy.cpp\<close>: paths, directories and the database file, in \<open>AppFiles\<close>.
    \<^verbatim>\<open>Operater.cpp\<close>, \<^verbatim>\<open>DBSqlExecOperate.cpp\<close>, \<^verbatim>\<open>NetSocketData.cpp\<close>: the templates of the application, in \<open>Operations\<close>;
    \<^verbatim>\<open>AppEntity.cpp\<close>, \<^verbatim>\<open>ClientManager.cpp\<close>: the objects that construct all these parts, in \<open>AppEntity\<close>.

  \<open>Prelude\<close> holds the machine types, the results that may fault, and access to blocks of memory. Four
  contracts are locales: \<open>Recycler\<close> (a pool that lends elements; its client lemma says that elements held at
  the same time are distinct), interpreted on the I/O contexts of the server, on the memory pool and on the
  objects that foreign threads borrow to wait; \<open>ByteQueue\<close> (bytes come out in the order they went in), interpreted on
  \<^verbatim>\<open>CBuffer\<close>; \<open>Settling\<close> (a system whose steps decrease a measure and do not stop early: every run reaches its end),
  interpreted on the destruction of a completion port; and \<open>TextFormat\<close> (what is printed is parsed back out of a larger
  buffer), interpreted on the JSON library and used by the recognition of messages.

  \<^bold>\<open>How code is modelled.\<close> A C++ object is a record, an operation a function from the state to a result and
  the new state; what the program does not survive (an access outside a block, a read of memory that was
  never written, a null or freed pointer, a failed allocation) is a fault, the left side of a sum. Integers
  of 32 and 16 bits are words where the code may wrap. Objects of which the code keeps pointers live in maps
  from addresses. What one critical section protects is one step. The completions of the kernel and the
  calls of the interface come in any order: \<^verbatim>\<open>server_step\<close>, \<^verbatim>\<open>race_step\<close>, \<^verbatim>\<open>cv_step\<close>,
  \<^verbatim>\<open>thr_step\<close>, \<^verbatim>\<open>service_step\<close>, \<^verbatim>\<open>udp_step\<close>, \<^verbatim>\<open>sql_step\<close> and that of \<open>CompletionPortRun\<close> are step relations, and the
  invariants hold in all their reachable states.

  \<^bold>\<open>Parameters.\<close> What Windows and the C run-time answer are arguments: whether an allocation, a thread or an
  overlapped call succeeds, the text conversions, the value of the clock, the execution of a statement by
  SQLite, the rounding of doubles, \<^verbatim>\<open>pow\<close> and the \<^verbatim>\<open>%e\<close> and \<^verbatim>\<open>%f\<close> formats. Properties name what they
  assume of them as hypotheses (for instance \<^verbatim>\<open>exact_integers\<close>: integers of 32 bits are exact in a double),
  and the witnesses instantiate them.

  \<^bold>\<open>Recursion and fuel.\<close> \<^verbatim>\<open>SaveData\<close>, the send loop, the minifier and the loops of the server end by a measure.
  The parser, which calls itself through the text, runs on fuel, of which it gets one more than the text is
  long; \<^verbatim>\<open>parsing_returns\<close> shows that this is enough for every text. \<^verbatim>\<open>cond_broadcast\<close> may run forever on a
  broken list and is a partial function; \<^verbatim>\<open>broadcast_wakes_all\<close> shows that it returns. The loops along the
  links of JSON items run on as much fuel as there are addresses, which the lemmas show to be enough for every
  list and document without cycles; with a cycle the C code would not return either.

  \<^bold>\<open>What the lemmas show.\<close> The server: packets that are sent come out of the reassembly in order, however
  TCP splits them, as an abstract cutting of the byte stream says; an I/O context is free, with the kernel or
  with one worker, and exactly one of these; every client number leads to a live context of its own,
  section by section as long as no two threads close the same client, and not when they do; what a
  send puts on the wire and what a receive tells, over whole runs in which all connections interleave; a stop leaves no client and no socket context. The buffer, the pool and the count: order, exclusiveness,
  and agreement of counters with handles. The queue: order of the statements, and where it is lost; no wake-up of its thread is lost. The clock:
  agreement with the calendar. Conditions: the linked list is a queue, broadcast ends, and no wake-up is lost
  or kept by the wrong thread. Thread objects: they live as long as the library uses them, a started thread
  can always be joined, and the join gives its value. JSON: printing and parsing are inverse, the two printers and the minifier
  agree, the parser returns, builds well-formed items and stays in its blocks on texts without a backslash;
  the operations on linked items are those of lists, a duplicate is separate and equal, a deletion exact.
  The completion port: what was posted before the destruction is carried out once, and with at most 64 threads every
  run of the destruction ends. The service: a stop reaches the working thread while it runs. The installation stays in its
  arrays. Messages: what the builders make is recognised after printing, encoding, transport in packets and parsing, and
  deleting it gives back exactly its memory. Files: all directories of a path are created, and the application opens its own database.
  Several properties state a fault of the code instead; the manifest lists them as findings.

  \<^bold>\<open>Not modelled.\<close> Sizes stay below \<open>2 ^ 31\<close> in the JSON library, so that its \<^verbatim>\<open>int\<close> lengths do not wrap.
  In \<^verbatim>\<open>server_step\<close> a pass of a worker of the TCP server is one step; \<open>TcpRace\<close> cuts what passes do to the socket contexts
  into their critical sections, and leaves the I/O contexts whole. SQLite, OpenSSL, the Windows API and the Java
  client are not part of the model: what they answer is a parameter. \<^verbatim>\<open>GetLocalIP\<close>, which only asks Windows, is left out.
  The classes that are left are abstract or have empty bodies.
\<close>

section \<open>From one end to the other\<close>

text \<open>
  The network and the recognition of messages together. A sender prints items, encodes the texts and puts them into packets; the
  bytes are cut anywhere on their way.
\<close>

definition packets_of :: "floats \<Rightarrow> (wchar list \<Rightarrow> byte list) \<Rightarrow> cjson list \<Rightarrow> (dword \<times> byte list) list" where
  "packets_of fl to_utf8 its = map (\<lambda>it. (50, to_utf8 (json_text fl False 0 it))) its"

text \<open>The text of an item survives the encoding and fits a packet.\<close>

definition travels :: "parse_env \<Rightarrow> (wchar list \<Rightarrow> byte list) \<Rightarrow> cjson \<Rightarrow> bool" where
  "travels env to_utf8 it \<longleftrightarrow> canonical False it \<and> fits_packet (to_utf8 (json_text (env_floats env) False 0 it))
     \<and> env_wide env (to_utf8 (json_text (env_floats env) False 0 it) @ [0]) = json_text (env_floats env) False 0 it"

text \<open>Items that are printed, encoded and sent in packets, which the network cuts into any pieces, are handed over by the server
  one by one and in order, and each is recognised as a request to sign up if and only if it is one (and its text is short enough).\<close>

theorem requests_cross_the_network:
  assumes "\<forall>n. alloc n" and "\<forall>s. 0 < wide_len s" and "env_ok env" and "\<forall>it \<in> set its. travels env to_utf8 it"
    and "concat pieces = wire (packets_of (env_floats env) to_utf8 its)"
  shows "\<exists>ds. receive_pieces alloc wide_len True rcv_clean pieces = Inr (rcv_clean, ds)
    \<and> list_all2 (\<lambda>it d. \<forall>s. \<exists>s'. isType env s (fst d)
         = Inr (length (json_text (env_floats env) False 0 it) < 1023 \<and> is_request it, s')) its ds"
proof (intro exI conjI)
  let ?ds = "map (\<lambda>m. delivery_of wide_len (snd m)) (packets_of (env_floats env) to_utf8 its)"
  show "receive_pieces alloc wide_len True rcv_clean pieces = Inr (rcv_clean, ?ds)"
    by (rule receive_pieces_wire [OF assms(1,2) holds_pending_clean]) (use assms(4,5) in \<open>auto simp: packets_of_def travels_def\<close>)
  have "\<exists>s'. isType env s (to_utf8 (json_text (env_floats env) False 0 it) @ [0])
      = Inr (length (json_text (env_floats env) False 0 it) < 1023 \<and> is_request it, s')" if "it \<in> set its" for it s
    using isType_text [OF assms(3), of it "to_utf8 (json_text (env_floats env) False 0 it) @ [0]" False s] assms(4) that
    by (auto simp: travels_def)
  then show "list_all2 (\<lambda>it d. \<forall>s. \<exists>s'. isType env s (fst d)
      = Inr (length (json_text (env_floats env) False 0 it) < 1023 \<and> is_request it, s')) its ?ds"
    by (simp add: packets_of_def delivery_of_def list_all2_conv_all_nth)
qed

text \<open>A request, and an item that is none, in ASCII.\<close>

definition ascii_bytes :: "wchar list \<Rightarrow> byte list" where
  "ascii_bytes s = map ucast s"

definition ascii_env :: parse_env where
  "ascii_env = \<lparr>env_alloc = \<lambda>_. True, env_floats = exact_floats, env_wide = \<lambda>bs. map ucast (c_text bs)\<rparr>"

lemma ascii_travels: "\<forall>it \<in> set [request_item, message_item []]. travels ascii_env ascii_bytes it"
  by (simp add: travels_def ascii_env_def ascii_bytes_def c_text_def request_canonical message_canonical request_item_def
      message_item_def cJSON_types string_text_def escape_char_def request_names text_null_def JSON_COMMON_REQUEST_TRANSITIONID_def
      JSON_COMMON_REQUEST_MAGICID_def)

theorem requests_cross_the_network_witness:
  "\<exists>d1 d2. receive_pieces (\<lambda>_. True) ascii_len True rcv_clean
       [take 5 (wire (packets_of exact_floats ascii_bytes [request_item, message_item []])), [],
        drop 5 (wire (packets_of exact_floats ascii_bytes [request_item, message_item []]))] = Inr (rcv_clean, [d1, d2])
     \<and> (\<forall>s. \<exists>s'. isType ascii_env s (fst d1) = Inr (True, s')) \<and> (\<forall>s. \<exists>s'. isType ascii_env s (fst d2) = Inr (False, s'))"
proof -
  let ?w = "wire (packets_of exact_floats ascii_bytes [request_item, message_item []])"
  have e: "env_ok ascii_env" "env_floats ascii_env = exact_floats" by (simp_all add: env_ok_def ascii_env_def exact_floats_ok)
  have r: "is_request request_item" "\<not> is_request (message_item [])"
    using request_is_request message_is_request [of "[]"] by (simp_all add: request_names)
  have l: "length (json_text exact_floats False 0 request_item) < 1023" using request_short by (simp add: request_text_def)
  obtain ds where "receive_pieces (\<lambda>_. True) ascii_len True rcv_clean [take 5 ?w, [], drop 5 ?w] = Inr (rcv_clean, ds)"
      "list_all2 (\<lambda>it d. \<forall>s. \<exists>s'. isType ascii_env s (fst d)
         = Inr (length (json_text exact_floats False 0 it) < 1023 \<and> is_request it, s')) [request_item, message_item []] ds"
    using requests_cross_the_network [OF _ _ e(1) ascii_travels, of "\<lambda>_. True" ascii_len "[take 5 ?w, [], drop 5 ?w]"] ascii_len_pos
    unfolding e(2) by (auto simp del: wire_simps)
  with r l show ?thesis by (auto simp: list_all2_Cons1)
qed

section \<open>A running server\<close>




end
